theory Spec2Isabelle
  imports Complex_Main "HOL-Library.AList" "HOL-Library.Sublist"
begin

section \<open>Data model\<close>

text \<open>
  The multi-account request dispatcher of gemini-oauth-mcp: the account directory
  (\<^verbatim>\<open>src/accounts/manager.ts\<close>), the quota tracker (\<^verbatim>\<open>src/accounts/quota.ts\<close>), the
  rate-limit rotator (\<^verbatim>\<open>src/accounts/rotator.ts\<close>), the token manager
  (\<^verbatim>\<open>src/auth/token.ts\<close>) and the API client (\<^verbatim>\<open>src/api/client.ts\<close>).

  Conventions of the embedding.
  \<^item> Instants and durations are milliseconds, of type \<open>int\<close>; every \<^verbatim>\<open>Date.now()\<close> of the
    source is an explicit argument (or a field of the environment of one attempt).
  \<^item> A JavaScript \<^verbatim>\<open>Map\<close> is an association list with distinct keys in insertion order:
    \<^verbatim>\<open>get\<close> is \<open>map_of\<close>, \<^verbatim>\<open>set\<close> is \<open>AList.update\<close>, \<^verbatim>\<open>delete\<close> is \<open>AList.delete\<close>.
  \<^item> A thrown error is the \<open>Inl\<close> of a sum; \<^verbatim>\<open>instanceof\<close> is a predicate on \<open>error\<close>.
  \<^item> Calls of \<^verbatim>\<open>logger\<close> are not part of the model.
\<close>

record rateLimitStatus =
  rlIsLimited :: bool
  limitedUntil :: "int option"
  consecutiveHits :: nat

record account =
  accId :: string
  email :: string
  refreshToken :: string
  accessToken :: "string option"
  accessTokenExpiry :: "int option"
  projectId :: "string option"
  rateLimit :: rateLimitStatus
  lastUsedAt :: int

subsection \<open>Account directory (AccountManagerImpl)\<close>

definition getAccount :: "account list \<Rightarrow> string \<Rightarrow> account option" where
  "getAccount accounts accountId = find (\<lambda>a. accId a = accountId) accounts"

subsection \<open>Quota tracker (QuotaTrackerImpl)\<close>

text \<open>
  \<^verbatim>\<open>used\<close> and \<^verbatim>\<open>limit\<close> are request counts, modelled as \<open>int\<close>; the derived percentage is
  the exact quotient in \<open>rat\<close> (the rounding of JavaScript doubles is not modelled).
\<close>

record quotaData =
  used :: int
  limit :: int
  resetAt :: "int option"

record quotaInfo = quotaData +
  accountId :: string
  infoEmail :: string
  percentage :: rat
  infoIsLimited :: bool

type_synonym quotas = "(string \<times> quotaData) list"

definition calculatePercentage :: "int \<Rightarrow> int \<Rightarrow> rat" where
  "calculatePercentage u l = (if l = 0 then 100 else (of_int u / of_int l) * 100)"

definition isLimited :: "int \<Rightarrow> int \<Rightarrow> bool" where
  "isLimited u l = (u \<ge> l)"

definition buildQuotaInfo :: "string \<Rightarrow> string \<Rightarrow> quotaData \<Rightarrow> quotaInfo" where
  "buildQuotaInfo i e d =
     \<lparr>used = used d, limit = limit d, resetAt = resetAt d,
      accountId = i, infoEmail = e,
      percentage = calculatePercentage (used d) (limit d),
      infoIsLimited = isLimited (used d) (limit d)\<rparr>"

definition updateQuota ::
  "account list \<Rightarrow> string \<Rightarrow> int \<Rightarrow> int \<Rightarrow> int option \<Rightarrow> quotas \<Rightarrow> quotas" where
  "updateQuota accounts i u l r qs =
     (case getAccount accounts i of
        None \<Rightarrow> qs
      | Some a \<Rightarrow> AList.update i \<lparr>used = u, limit = l, resetAt = r\<rparr> qs)"

definition getQuota :: "account list \<Rightarrow> string \<Rightarrow> quotas \<Rightarrow> quotaInfo option" where
  "getQuota accounts i qs =
     (case getAccount accounts i of
        None \<Rightarrow> None
      | Some a \<Rightarrow>
          (case map_of qs i of
             None \<Rightarrow> None
           | Some d \<Rightarrow> Some (buildQuotaInfo i (email a) d)))"

definition incrementUsage :: "string \<Rightarrow> quotas \<Rightarrow> quotas" where
  "incrementUsage i qs =
     (case map_of qs i of
        None \<Rightarrow> qs
      | Some d \<Rightarrow> AList.update i (d\<lparr>used := used d + 1\<rparr>) qs)"

definition resetQuota :: "string \<Rightarrow> quotas \<Rightarrow> quotas" where
  "resetQuota i qs =
     (case map_of qs i of
        None \<Rightarrow> qs
      | Some d \<Rightarrow> AList.update i (d\<lparr>used := 0, resetAt := None\<rparr>) qs)"

subsection \<open>Errors (utils/errors.ts, accounts/rotator.ts)\<close>

text \<open>
  \<^verbatim>\<open>AuthenticationError\<close>, \<^verbatim>\<open>RateLimitError\<close> and \<^verbatim>\<open>ApiError\<close> extend \<^verbatim>\<open>GeminiOAuthError\<close>
  side by side; \<^verbatim>\<open>AllAccountsRateLimitedError\<close> extends \<^verbatim>\<open>RateLimitError\<close> and carries
  \<^verbatim>\<open>retryAfterMs\<close>. \<open>OtherError\<close> is any other thrown value (a rejected \<^verbatim>\<open>fetch\<close>, a
  \<^verbatim>\<open>SyntaxError\<close> of \<^verbatim>\<open>response.json()\<close>, a storage failure), with its message.
\<close>

datatype apiDetails = NoDetails | StatusDetail nat | RetriesDetail nat | ResponseDetail

datatype error =
    AuthenticationError string
  | RateLimitError string
  | AllAccountsRateLimitedError int
  | ApiError string apiDetails
  | OtherError string

fun isRateLimitError :: "error \<Rightarrow> bool" where
  "isRateLimitError (RateLimitError m) = True"
| "isRateLimitError (AllAccountsRateLimitedError ms) = True"
| "isRateLimitError e = False"

fun isApiError :: "error \<Rightarrow> bool" where
  "isApiError (ApiError m d) = True"
| "isApiError e = False"

fun isAuthenticationError :: "error \<Rightarrow> bool" where
  "isAuthenticationError (AuthenticationError m) = True"
| "isAuthenticationError e = False"

fun message :: "error \<Rightarrow> string" where
  "message (AuthenticationError m) = m"
| "message (RateLimitError m) = m"
| "message (AllAccountsRateLimitedError ms) = ''All accounts are currently rate limited''"
| "message (ApiError m d) = m"
| "message (OtherError m) = m"

subsection \<open>Account status (AccountManagerImpl.updateAccountStatus)\<close>

datatype accountStatus = Active | Ready | Limited

fun findIndex :: "('a \<Rightarrow> bool) \<Rightarrow> 'a list \<Rightarrow> nat option" where
  "findIndex P [] = None"
| "findIndex P (x # xs) =
     (if P x then Some 0 else map_option Suc (findIndex P xs))"

text \<open>
  The directory's list of accounts is the state; the write to storage that follows an
  update (fire and forget) is not modelled.
\<close>

definition updateAccountStatus ::
  "int \<Rightarrow> string \<Rightarrow> accountStatus \<Rightarrow> account list \<Rightarrow> error + account list" where
  "updateAccountStatus now i st accs =
     (case findIndex (\<lambda>a. accId a = i) accs of
        None \<Rightarrow> Inl (AuthenticationError (''Account not found: '' @ i))
      | Some k \<Rightarrow>
          (let a = accs ! k in
           case st of
             Limited \<Rightarrow>
               Inr (accs[k := a\<lparr>rateLimit :=
                      (rateLimit a)\<lparr>rlIsLimited := True, limitedUntil := Some (now + 60 * 1000)\<rparr>\<rparr>])
           | _ \<Rightarrow>
               Inr (accs[k := a\<lparr>rateLimit :=
                      (rateLimit a)\<lparr>rlIsLimited := False, limitedUntil := None\<rparr>\<rparr>])))"

text \<open>
  \<^verbatim>\<open>removeAccount\<close>, on the list of accounts: the account with the given id is spliced
  out of the list, and an unknown id leaves the list as it is. The active account id and
  the write to storage have no part in the rotation and are not modelled.
\<close>

definition removeAccount :: "string \<Rightarrow> account list \<Rightarrow> account list" where
  "removeAccount i accs =
     (case findIndex (\<lambda>a. accId a = i) accs of
        None \<Rightarrow> accs
      | Some k \<Rightarrow> take k accs @ drop (Suc k) accs)"

subsection \<open>Rate-limit rotator (AccountRotatorImpl)\<close>

text \<open>
  \<open>rateLimits\<close> maps an account id to the instant \<^verbatim>\<open>availableAt\<close> of its entry;
  \<open>currentIndex\<close> is the rotation cursor.
\<close>

record rotator =
  rateLimits :: "(string \<times> int) list"
  currentIndex :: nat

definition newRotator :: rotator where
  "newRotator = \<lparr>rateLimits = [], currentIndex = 0\<rparr>"

text \<open>
  \<^verbatim>\<open>getAvailableAccounts\<close>: the filter over the directory's accounts, whose callback
  deletes an expired entry as it meets it. \<open>now\<close> is the single \<^verbatim>\<open>Date.now()\<close> read
  before the filter.
\<close>

fun filterAvailable ::
  "int \<Rightarrow> account list \<Rightarrow> (string \<times> int) list \<Rightarrow> account list \<times> (string \<times> int) list" where
  "filterAvailable now [] rl = ([], rl)"
| "filterAvailable now (a # as) rl =
     (case map_of rl (accId a) of
        None \<Rightarrow> (case filterAvailable now as rl of (r, rl') \<Rightarrow> (a # r, rl'))
      | Some t \<Rightarrow>
          if now \<ge> t
          then (case filterAvailable now as (AList.delete (accId a) rl) of
                  (r, rl') \<Rightarrow> (a # r, rl'))
          else filterAvailable now as rl)"

definition getAvailableAccounts :: "int \<Rightarrow> account list \<Rightarrow> rotator \<Rightarrow> account list \<times> rotator" where
  "getAvailableAccounts now accs r =
     (case filterAvailable now accs (rateLimits r) of
        (available, rl') \<Rightarrow> (available, r\<lparr>rateLimits := rl'\<rparr>))"

text \<open>
  \<^verbatim>\<open>getEarliestRetryTime\<close>: the loop over all entries of the map; the accumulator
  \<open>None\<close> is the initial \<^verbatim>\<open>Infinity\<close>.
\<close>

fun earliestOf :: "(string \<times> int) list \<Rightarrow> int option \<Rightarrow> int option" where
  "earliestOf [] acc = acc"
| "earliestOf ((k, t) # es) acc =
     earliestOf es (case acc of
                      None \<Rightarrow> Some t
                    | Some e \<Rightarrow> if t < e then Some t else Some e)"

definition getEarliestRetryTime :: "int \<Rightarrow> rotator \<Rightarrow> int" where
  "getEarliestRetryTime now r =
     (case earliestOf (rateLimits r) None of
        None \<Rightarrow> 0
      | Some e \<Rightarrow> max 0 (e - now))"

text \<open>
  The round-robin scan of \<^verbatim>\<open>getNextAccount\<close>. The first argument counts the
  iterations left (\<^verbatim>\<open>allAccounts.length - attempts\<close>); the result is the account found,
  if any, and the cursor.
\<close>

fun scanAccounts :: "nat \<Rightarrow> account list \<Rightarrow> string list \<Rightarrow> nat \<Rightarrow> account option \<times> nat" where
  "scanAccounts 0 allAccounts availableIds c = (None, c)"
| "scanAccounts (Suc k) allAccounts availableIds c =
     (let index = c mod length allAccounts;
          c' = (c + 1) mod length allAccounts
      in if index < length allAccounts \<and> accId (allAccounts ! index) \<in> set availableIds
         then (Some (allAccounts ! index), c')
         else scanAccounts k allAccounts availableIds c')"

text \<open>
  \<^verbatim>\<open>getNextAccount\<close>. \<open>now\<close> is the reading of \<^verbatim>\<open>getAvailableAccounts\<close>, \<open>now'\<close> the
  later reading of \<^verbatim>\<open>getEarliestRetryTime\<close>.
\<close>

definition getNextAccount ::
  "int \<Rightarrow> int \<Rightarrow> account list \<Rightarrow> rotator \<Rightarrow> (error + account) \<times> rotator" where
  "getNextAccount now now' accs r =
     (case getAvailableAccounts now accs r of
        (available, r1) \<Rightarrow>
          if available = []
          then (Inl (AllAccountsRateLimitedError (getEarliestRetryTime now' r1)), r1)
          else (case scanAccounts (length accs) accs (map accId available) (currentIndex r1) of
                  (Some a, c') \<Rightarrow> (Inr a, r1\<lparr>currentIndex := c'\<rparr>)
                | (None, c') \<Rightarrow> (Inr (hd available), r1\<lparr>currentIndex := c'\<rparr>)))"

text \<open>
  \<^verbatim>\<open>markRateLimited\<close> on the pair of the directory and the rotator: \<open>now\<close> is the
  reading of the rotator, \<open>now'\<close> the one of \<^verbatim>\<open>updateAccountStatus\<close>, whose error for an
  unknown account is caught and dropped.
\<close>

definition markRateLimited ::
  "int \<Rightarrow> int \<Rightarrow> string \<Rightarrow> int \<Rightarrow> account list \<times> rotator \<Rightarrow> account list \<times> rotator" where
  "markRateLimited now now' i retryAfterMs s =
     (case s of (accs, r) \<Rightarrow>
        (let r' = r\<lparr>rateLimits := AList.update i (now + retryAfterMs) (rateLimits r)\<rparr>
         in case updateAccountStatus now' i Limited accs of
              Inl e \<Rightarrow> (accs, r')
            | Inr accs' \<Rightarrow> (accs', r')))"

definition clearRateLimit ::
  "int \<Rightarrow> string \<Rightarrow> account list \<times> rotator \<Rightarrow> account list \<times> rotator" where
  "clearRateLimit now' i s =
     (case s of (accs, r) \<Rightarrow>
        (let wasLimited = (map_of (rateLimits r) i \<noteq> None);
             r' = r\<lparr>rateLimits := AList.delete i (rateLimits r)\<rparr>
         in if wasLimited
            then (case updateAccountStatus now' i Ready accs of
                    Inl e \<Rightarrow> (accs, r')
                  | Inr accs' \<Rightarrow> (accs', r'))
            else (accs, r')))"

definition isRateLimited :: "int \<Rightarrow> string \<Rightarrow> rotator \<Rightarrow> bool \<times> rotator" where
  "isRateLimited now i r =
     (case map_of (rateLimits r) i of
        None \<Rightarrow> (False, r)
      | Some t \<Rightarrow>
          if now \<ge> t then (False, r\<lparr>rateLimits := AList.delete i (rateLimits r)\<rparr>)
          else (True, r))"


text \<open>
  Notions used to state the contract of the rotator: an account id is rate-limited at
  an instant when the map holds an entry for it that has not expired; the wait of an
  account is \<^verbatim>\<open>availableAt - now\<close> of its entry; \<open>nextAccounts\<close> is a run of consecutive
  calls of \<^verbatim>\<open>getNextAccount\<close>, one per pair of clock readings, with their results in order.
\<close>

definition limitedAt :: "int \<Rightarrow> (string \<times> int) list \<Rightarrow> string \<Rightarrow> bool" where
  "limitedAt now rl i = (case map_of rl i of None \<Rightarrow> False | Some t \<Rightarrow> now < t)"

definition waitOf :: "int \<Rightarrow> (string \<times> int) list \<Rightarrow> account \<Rightarrow> int" where
  "waitOf now rl a = (case map_of rl (accId a) of None \<Rightarrow> 0 | Some t \<Rightarrow> t - now)"

fun nextAccounts ::
  "(int \<times> int) list \<Rightarrow> account list \<Rightarrow> rotator \<Rightarrow> (error + account) list \<times> rotator" where
  "nextAccounts [] accs r = ([], r)"
| "nextAccounts ((now, now') # ts) accs r =
     (case getNextAccount now now' accs r of
        (res, r1) \<Rightarrow>
          (case nextAccounts ts accs r1 of
             (rs, r2) \<Rightarrow> (res # rs, r2)))"

section \<open>API client (GeminiClientImpl)\<close>

subsection \<open>Constants and responses\<close>

definition STANDARD_API_BASE_URL :: string where
  "STANDARD_API_BASE_URL = ''https://generativelanguage.googleapis.com/v1beta/models''"

definition ANTIGRAVITY_API_BASE_URLS :: "string list" where
  "ANTIGRAVITY_API_BASE_URLS =
     [''https://daily-cloudcode-pa.googleapis.com'',
      ''https://cloudcode-pa.googleapis.com'',
      ''https://daily-cloudcode-pa.sandbox.googleapis.com'']"

definition DEFAULT_MODEL :: string where
  "DEFAULT_MODEL = ''gemini-2.5-flash''"

definition MAX_RETRIES :: nat where
  "MAX_RETRIES = 3"

definition DEFAULT_RATE_LIMIT_MS :: int where
  "DEFAULT_RATE_LIMIT_MS = 60000"

definition BASE_RETRY_DELAY_MS :: int where
  "BASE_RETRY_DELAY_MS = 1000"

definition isAntigravityModel :: "string \<Rightarrow> bool" where
  "isAntigravityModel model = (prefix ''gemini-3'' model \<or> prefix ''claude-'' model)"

text \<open>
  \<^verbatim>\<open>getBackoffDelay\<close>. Every call site passes the retry counter just after its increment,
  so \<open>attempt \<ge> 1\<close> and the exponent \<open>attempt - 1\<close> is a natural number.
\<close>

definition getBackoffDelay :: "nat \<Rightarrow> int" where
  "getBackoffDelay attempt = BASE_RETRY_DELAY_MS * 2 ^ (attempt - 1)"

text \<open>Decimal rendering of a number inside a template string.\<close>

fun showNat :: "nat \<Rightarrow> string" where
  "showNat n =
     (if n < 10 then [''0123456789'' ! n]
      else showNat (n div 10) @ [''0123456789'' ! (n mod 10)])"

declare showNat.simps [simp del]

text \<open>
  The JSON of the standard family, \<^verbatim>\<open>GeminiResponse\<close>: every level is optional, as in the
  interface. \<open>errorMessage\<close> is \<^verbatim>\<open>error?.message\<close>.
\<close>

datatype part = Part (partText: "string option")

datatype content = Content (parts: "part list option")

datatype candidate = Candidate (content: "content option")

record geminiResponse =
  candidates :: "candidate list option"
  errorMessage :: "string option"

text \<open>
  An HTTP response as the client reads it: the status, the \<^verbatim>\<open>Retry-After\<close> header and the
  body. The header, when present, is a number of seconds in decimal (the delay-seconds
  form, on which \<^verbatim>\<open>parseInt(h, 10)\<close> is that number); an HTTP-date, for which
  \<^verbatim>\<open>parseInt\<close> gives \<^verbatim>\<open>NaN\<close>, is outside the model. The body is what reading it gives
  (\<^verbatim>\<open>response.json()\<close> in the standard family, \<^verbatim>\<open>response.text()\<close> in the extended one):
  \<open>Inl m\<close> when the read rejects with message \<open>m\<close>.
\<close>

record 'b response =
  status :: nat
  retryAfterHeader :: "nat option"
  body :: "string + 'b"

definition ok :: "'b response \<Rightarrow> bool" where
  "ok r = (200 \<le> status r \<and> status r \<le> 299)"

definition retryAfterMsOf :: "'b response \<Rightarrow> int" where
  "retryAfterMsOf r =
     (case retryAfterHeader r of
        Some secs \<Rightarrow> int secs * 1000
      | None \<Rightarrow> DEFAULT_RATE_LIMIT_MS)"

subsection \<open>The client's view of its collaborators\<close>

text \<open>
  The client holds a rotator over the account directory and a quota tracker. The calls
  it makes on the outside (\<^verbatim>\<open>delayFn\<close>, \<^verbatim>\<open>fetch\<close>) and on its collaborators are logged in
  \<open>events\<close>, in order.
\<close>

datatype event =
    Delay int
  | Fetch string string
  | MarkRateLimited string int
  | IncrementUsage string

record world =
  directory :: "account list"
  rotatorState :: rotator
  quotaState :: quotas
  events :: "event list"

definition emit :: "event \<Rightarrow> world \<Rightarrow> world" where
  "emit e w = w\<lparr>events := events w @ [e]\<rparr>"

definition delayFn :: "int \<Rightarrow> world \<Rightarrow> world" where
  "delayFn ms w = emit (Delay ms) w"

definition rotatorMark :: "int \<Rightarrow> int \<Rightarrow> string \<Rightarrow> int \<Rightarrow> world \<Rightarrow> world" where
  "rotatorMark now now' i ms w =
     (case markRateLimited now now' i ms (directory w, rotatorState w) of
        (accs, r) \<Rightarrow> emit (MarkRateLimited i ms) (w\<lparr>directory := accs, rotatorState := r\<rparr>))"

definition trackerIncrement :: "string \<Rightarrow> world \<Rightarrow> world" where
  "trackerIncrement i w =
     emit (IncrementUsage i) (w\<lparr>quotaState := incrementUsage i (quotaState w)\<rparr>)"

text \<open>What one pass through the body of the retry loop ends with.\<close>

datatype outcome = Returned string | Thrown error | Retry

record retryState =
  networkRetryCount :: nat
  lastError :: "error option"

definition initialRetry :: retryState where
  "initialRetry = \<lparr>networkRetryCount = 0, lastError = None\<rparr>"

text \<open>
  The \<^verbatim>\<open>catch\<close> block shared by both retry loops: rate-limit and API errors are thrown
  again, any other error counts as a network error.
\<close>

definition catchBlock :: "error \<Rightarrow> retryState \<Rightarrow> world \<Rightarrow> outcome \<times> retryState \<times> world" where
  "catchBlock e rs w =
     (if isRateLimitError e \<or> isApiError e then (Thrown e, rs, w)
      else
        (let n = networkRetryCount rs + 1;
             rs' = \<lparr>networkRetryCount = n, lastError = Some e\<rparr>
         in if n \<le> MAX_RETRIES then (Retry, rs', delayFn (getBackoffDelay n) w)
            else (Retry, rs', w)))"

definition lastMessage :: "retryState \<Rightarrow> string" where
  "lastMessage rs =
     (case lastError rs of
        None \<Rightarrow> ''Unknown error''
      | Some e \<Rightarrow> if message e = [] then ''Unknown error'' else message e)"

subsection \<open>Standard family\<close>

definition extractStandardResponseText :: "geminiResponse \<Rightarrow> error + string" where
  "extractStandardResponseText d =
     (case candidates d of
        None \<Rightarrow> Inl (ApiError ''Empty response: no candidates'' ResponseDetail)
      | Some [] \<Rightarrow> Inl (ApiError ''Empty response: no candidates'' ResponseDetail)
      | Some (firstCandidate # cs) \<Rightarrow>
          (case content firstCandidate of
             None \<Rightarrow> Inl (ApiError ''Empty response: no content parts'' ResponseDetail)
           | Some c \<Rightarrow>
               (case parts c of
                  None \<Rightarrow> Inl (ApiError ''Empty response: no content parts'' ResponseDetail)
                | Some [] \<Rightarrow> Inl (ApiError ''Empty response: no content parts'' ResponseDetail)
                | Some (p # ps) \<Rightarrow>
                    (case partText p of
                       None \<Rightarrow> Inl (ApiError ''Empty response: no text content'' ResponseDetail)
                     | Some t \<Rightarrow>
                         if t = [] then Inl (ApiError ''Empty response: no text content'' ResponseDetail)
                         else Inr t))))"

text \<open>
  The environment of one pass through a retry loop: how the outside answers during
  that pass. \<open>tokenResult\<close> is what \<^verbatim>\<open>tokenManager.getAccessToken(account.id)\<close> settles
  to; \<open>fetchResult\<close> is what \<^verbatim>\<open>fetch\<close> of the standard URL settles to and
  \<open>endpointResult u\<close> what \<^verbatim>\<open>fetch\<close> under the extended base URL \<open>u\<close> settles to
  (\<open>Inl m\<close>: it rejects with message \<open>m\<close>); the four instants are the readings of
  \<^verbatim>\<open>Date.now()\<close> in \<^verbatim>\<open>getAvailableAccounts\<close>, \<^verbatim>\<open>getEarliestRetryTime\<close>,
  \<^verbatim>\<open>markRateLimited\<close> and \<^verbatim>\<open>updateAccountStatus\<close>. The request sent (contents, model,
  generation config) has no part in the control flow and is not modelled beyond the
  URL and the bearer token of each \<^verbatim>\<open>fetch\<close>.
\<close>

record attempt =
  selectAt :: int
  hintAt :: int
  markAt :: int
  statusAt :: int
  tokenResult :: "error + string"
  fetchResult :: "string + geminiResponse response"
  endpointResult :: "string \<Rightarrow> string + string response"

definition standardUrl :: "string \<Rightarrow> string" where
  "standardUrl model = STANDARD_API_BASE_URL @ ''/'' @ model @ '':generateContent''"

definition errorMessageOf :: "geminiResponse response \<Rightarrow> geminiResponse \<Rightarrow> string" where
  "errorMessageOf r errorData =
     (case errorMessage errorData of
        None \<Rightarrow> ''HTTP '' @ showNat (status r)
      | Some m \<Rightarrow> if m = [] then ''HTTP '' @ showNat (status r) else m)"

definition standardTry ::
  "string \<Rightarrow> attempt \<Rightarrow> account \<Rightarrow> retryState \<Rightarrow> world \<Rightarrow> outcome \<times> retryState \<times> world" where
  "standardTry model env a rs w =
     (case tokenResult env of
        Inl e \<Rightarrow> catchBlock e rs w
      | Inr tok \<Rightarrow>
          (let w1 = emit (Fetch (standardUrl model) tok) w in
           case fetchResult env of
             Inl m \<Rightarrow> catchBlock (OtherError m) rs w1
           | Inr r \<Rightarrow>
               if status r = 429 then
                 (Retry, rs, rotatorMark (markAt env) (statusAt env) (accId a) (retryAfterMsOf r) w1)
               else if \<not> ok r then
                 (case body r of
                    Inl m \<Rightarrow> catchBlock (OtherError m) rs w1
                  | Inr errorData \<Rightarrow>
                      (let msg = errorMessageOf r errorData in
                       if status r \<ge> 500 then
                         (let n = networkRetryCount rs + 1;
                              rs' = \<lparr>networkRetryCount = n,
                                     lastError = Some (ApiError (''Server error: '' @ msg)
                                                        (StatusDetail (status r)))\<rparr>
                          in if n \<le> MAX_RETRIES
                             then (Retry, rs', delayFn (getBackoffDelay n) w1)
                             else catchBlock (ApiError (''API error: '' @ msg)
                                               (StatusDetail (status r))) rs' w1)
                       else catchBlock (ApiError (''API error: '' @ msg)
                                         (StatusDetail (status r))) rs w1))
               else
                 (case body r of
                    Inl m \<Rightarrow> catchBlock (OtherError m) rs w1
                  | Inr d \<Rightarrow>
                      (case extractStandardResponseText d of
                         Inl e \<Rightarrow> catchBlock e rs w1
                       | Inr t \<Rightarrow> (Returned t, rs, trackerIncrement (accId a) w1)))))"

definition selectAccount :: "attempt \<Rightarrow> world \<Rightarrow> (error + account) \<times> world" where
  "selectAccount env w =
     (case getNextAccount (selectAt env) (hintAt env) (directory w) (rotatorState w) of
        (res, r) \<Rightarrow> (res, w\<lparr>rotatorState := r\<rparr>))"

text \<open>
  \<^verbatim>\<open>callStandardApi\<close>. The list holds the environment of each pass through the loop
  that the upstream still answers; \<open>None\<close> says that the call has not settled when the
  list is used up. A settled call is \<open>Some\<close> of its result and the final state.
\<close>

fun standardLoop ::
  "string \<Rightarrow> attempt list \<Rightarrow> retryState \<Rightarrow> world \<Rightarrow> ((error + string) \<times> world) option" where
  "standardLoop model [] rs w =
     (if networkRetryCount rs \<le> MAX_RETRIES then None
      else Some (Inl (ApiError (''Request failed after '' @ showNat MAX_RETRIES @ '' retries: ''
                                 @ lastMessage rs) (RetriesDetail MAX_RETRIES)), w))"
| "standardLoop model (env # envs) rs w =
     (if networkRetryCount rs \<le> MAX_RETRIES then
        (case selectAccount env w of
           (Inl e, w0) \<Rightarrow> Some (Inl e, w0)
         | (Inr a, w0) \<Rightarrow>
             (case standardTry model env a rs w0 of
                (Returned t, rs', w') \<Rightarrow> Some (Inr t, w')
              | (Thrown e, rs', w') \<Rightarrow> Some (Inl e, w')
              | (Retry, rs', w') \<Rightarrow> standardLoop model envs rs' w'))
      else Some (Inl (ApiError (''Request failed after '' @ showNat MAX_RETRIES @ '' retries: ''
                                 @ lastMessage rs) (RetriesDetail MAX_RETRIES)), w))"

definition callStandardApi ::
  "string \<Rightarrow> attempt list \<Rightarrow> world \<Rightarrow> ((error + string) \<times> world) option" where
  "callStandardApi model envs w = standardLoop model envs initialRetry w"


subsection \<open>Extended family\<close>

text \<open>
  \<^verbatim>\<open>parseAntigravitySSEResponse\<close>. \<^verbatim>\<open>JSON.parse\<close> followed by
  \<^verbatim>\<open>data.response?.candidates\<close> is the parameter \<open>jsonParse\<close>: \<open>None\<close> when parsing
  throws, \<open>Some None\<close> when there are no candidates. Strings are byte strings, and
  \<^verbatim>\<open>trim\<close> removes the ASCII white space.
\<close>

definition isSpace :: "char \<Rightarrow> bool" where
  "isSpace c = (c \<in> set [CHR 0x09, CHR 0x0A, CHR 0x0B, CHR 0x0C, CHR 0x0D, CHR '' ''])"

definition trim :: "string \<Rightarrow> string" where
  "trim s = rev (dropWhile isSpace (rev (dropWhile isSpace s)))"

fun splitLines :: "string \<Rightarrow> string list" where
  "splitLines [] = [[]]"
| "splitLines (c # cs) =
     (if c = CHR 0x0A then [] # splitLines cs
      else (case splitLines cs of
              [] \<Rightarrow> [[c]]
            | l # ls \<Rightarrow> (c # l) # ls))"

type_synonym jsonParser = "string \<Rightarrow> candidate list option option"

definition textOfParts :: "part list \<Rightarrow> string" where
  "textOfParts ps = concat (map (\<lambda>p. case partText p of None \<Rightarrow> [] | Some t \<Rightarrow> t) ps)"

definition sseLineText :: "jsonParser \<Rightarrow> string \<Rightarrow> string" where
  "sseLineText jsonParse line =
     (let trimmedLine = trim line in
      if \<not> prefix ''data:'' trimmedLine then []
      else
        (let jsonStr = trim (drop 5 trimmedLine) in
         if jsonStr = [] \<or> jsonStr = ''[DONE]'' then []
         else
           (case jsonParse jsonStr of
              None \<Rightarrow> []
            | Some None \<Rightarrow> []
            | Some (Some []) \<Rightarrow> []
            | Some (Some (c # cs)) \<Rightarrow>
                (case content c of
                   None \<Rightarrow> []
                 | Some ct \<Rightarrow>
                     (case parts ct of
                        None \<Rightarrow> []
                      | Some ps \<Rightarrow> textOfParts ps)))))"

definition parseAntigravitySSEResponse :: "jsonParser \<Rightarrow> string \<Rightarrow> string" where
  "parseAntigravitySSEResponse jsonParse fullResponse =
     concat (map (sseLineText jsonParse) (splitLines fullResponse))"

definition antigravityUrl :: "string \<Rightarrow> string" where
  "antigravityUrl baseUrl = baseUrl @ ''/v1internal:streamGenerateContent?alt=sse''"

text \<open>
  The inner loop over the candidate base URLs, with its own \<^verbatim>\<open>try\<close>: an API error
  leaves the loop, any other error moves on to the next URL. The counters are
  \<^verbatim>\<open>rateLimitedEndpointCount\<close> and \<^verbatim>\<open>lastRateLimitRetryMs\<close>.
\<close>

datatype endpointsOutcome = EReturned string | EThrown error | EExhausted

fun tryEndpoints ::
  "jsonParser \<Rightarrow> string list \<Rightarrow> attempt \<Rightarrow> account \<Rightarrow> string \<Rightarrow> nat \<Rightarrow> int \<Rightarrow> world
     \<Rightarrow> endpointsOutcome \<times> nat \<times> int \<times> world" where
  "tryEndpoints jsonParse [] env a tok cnt lastMs w = (EExhausted, cnt, lastMs, w)"
| "tryEndpoints jsonParse (baseUrl # urls) env a tok cnt lastMs w =
     (let w1 = emit (Fetch (antigravityUrl baseUrl) tok) w in
      case endpointResult env baseUrl of
        Inl m \<Rightarrow> tryEndpoints jsonParse urls env a tok cnt lastMs w1
      | Inr r \<Rightarrow>
          if status r = 429 then
            tryEndpoints jsonParse urls env a tok (cnt + 1) (max lastMs (retryAfterMsOf r)) w1
          else if status r = 404 \<or> status r \<ge> 500 then
            tryEndpoints jsonParse urls env a tok cnt lastMs w1
          else if \<not> ok r then
            (case body r of
               Inl m \<Rightarrow> tryEndpoints jsonParse urls env a tok cnt lastMs w1
             | Inr errorText \<Rightarrow>
                 (EThrown (ApiError (''Antigravity API error: '' @ take 500 errorText)
                            (StatusDetail (status r))), cnt, lastMs, w1))
          else
            (case body r of
               Inl m \<Rightarrow> tryEndpoints jsonParse urls env a tok cnt lastMs w1
             | Inr fullResponse \<Rightarrow>
                 (let t = parseAntigravitySSEResponse jsonParse fullResponse in
                  if t \<noteq> [] then (EReturned t, cnt, lastMs, trackerIncrement (accId a) w1)
                  else (EThrown (ApiError ''Empty response from Antigravity API'' NoDetails),
                        cnt, lastMs, w1))))"

definition antigravityTry ::
  "jsonParser \<Rightarrow> attempt \<Rightarrow> account \<Rightarrow> retryState \<Rightarrow> world \<Rightarrow> outcome \<times> retryState \<times> world" where
  "antigravityTry jsonParse env a rs w =
     (case tokenResult env of
        Inl e \<Rightarrow> catchBlock e rs w
      | Inr tok \<Rightarrow>
          (case tryEndpoints jsonParse ANTIGRAVITY_API_BASE_URLS env a tok 0 DEFAULT_RATE_LIMIT_MS w of
             (EReturned t, cnt, lastMs, w1) \<Rightarrow> (Returned t, rs, w1)
           | (EThrown e, cnt, lastMs, w1) \<Rightarrow> catchBlock e rs w1
           | (EExhausted, cnt, lastMs, w1) \<Rightarrow>
               (let w2 = (if cnt = length ANTIGRAVITY_API_BASE_URLS
                          then rotatorMark (markAt env) (statusAt env) (accId a) lastMs w1
                          else w1);
                    n = networkRetryCount rs + 1;
                    rs' = \<lparr>networkRetryCount = n,
                           lastError = Some (ApiError ''All Antigravity endpoints failed'' NoDetails)\<rparr>
                in if n \<le> MAX_RETRIES then (Retry, rs', delayFn (getBackoffDelay n) w2)
                   else (Retry, rs', w2))))"

text \<open>\<^verbatim>\<open>!projectId\<close>: the project id is null, missing or the empty string.\<close>

definition noProjectId :: "account \<Rightarrow> bool" where
  "noProjectId a = (case projectId a of None \<Rightarrow> True | Some p \<Rightarrow> p = [])"

fun antigravityLoop ::
  "jsonParser \<Rightarrow> attempt list \<Rightarrow> retryState \<Rightarrow> world \<Rightarrow> ((error + string) \<times> world) option" where
  "antigravityLoop jsonParse [] rs w =
     (if networkRetryCount rs \<le> MAX_RETRIES then None
      else Some (Inl (ApiError (''Antigravity request failed after '' @ showNat MAX_RETRIES
                                 @ '' retries: '' @ lastMessage rs) (RetriesDetail MAX_RETRIES)), w))"
| "antigravityLoop jsonParse (env # envs) rs w =
     (if networkRetryCount rs \<le> MAX_RETRIES then
        (case selectAccount env w of
           (Inl e, w0) \<Rightarrow> Some (Inl e, w0)
         | (Inr a, w0) \<Rightarrow>
             if noProjectId a then antigravityLoop jsonParse envs rs w0
             else
               (case antigravityTry jsonParse env a rs w0 of
                  (Returned t, rs', w') \<Rightarrow> Some (Inr t, w')
                | (Thrown e, rs', w') \<Rightarrow> Some (Inl e, w')
                | (Retry, rs', w') \<Rightarrow> antigravityLoop jsonParse envs rs' w'))
      else Some (Inl (ApiError (''Antigravity request failed after '' @ showNat MAX_RETRIES
                                 @ '' retries: '' @ lastMessage rs) (RetriesDetail MAX_RETRIES)), w))"

definition callAntigravityApi ::
  "jsonParser \<Rightarrow> attempt list \<Rightarrow> world \<Rightarrow> ((error + string) \<times> world) option" where
  "callAntigravityApi jsonParse envs w = antigravityLoop jsonParse envs initialRetry w"

subsection \<open>Entry points\<close>

definition callApi ::
  "jsonParser \<Rightarrow> string \<Rightarrow> attempt list \<Rightarrow> world \<Rightarrow> ((error + string) \<times> world) option" where
  "callApi jsonParse model envs w =
     (if isAntigravityModel model then callAntigravityApi jsonParse envs w
      else callStandardApi model envs w)"

definition generateContent ::
  "jsonParser \<Rightarrow> string option \<Rightarrow> attempt list \<Rightarrow> world \<Rightarrow> ((error + string) \<times> world) option" where
  "generateContent jsonParse model envs w =
     callApi jsonParse (case model of None \<Rightarrow> DEFAULT_MODEL | Some m \<Rightarrow> m) envs w"

subsection \<open>Response transform (api/transform.ts)\<close>

text \<open>
  \<^verbatim>\<open>transformFromAntigravity\<close>, on the same shape of response: the text of all parts of
  the first candidate, joined.
\<close>

definition transformFromAntigravity :: "candidate list option \<Rightarrow> error + string" where
  "transformFromAntigravity cands =
     (case cands of
        None \<Rightarrow> Inl (ApiError ''Empty response: no candidates'' ResponseDetail)
      | Some [] \<Rightarrow> Inl (ApiError ''Empty response: no candidates'' ResponseDetail)
      | Some (firstCandidate # cs) \<Rightarrow>
          (case content firstCandidate of
             None \<Rightarrow> Inl (ApiError ''Empty response: no content parts'' ResponseDetail)
           | Some c \<Rightarrow>
               (case parts c of
                  None \<Rightarrow> Inl (ApiError ''Empty response: no content parts'' ResponseDetail)
                | Some [] \<Rightarrow> Inl (ApiError ''Empty response: no content parts'' ResponseDetail)
                | Some ps \<Rightarrow>
                    (let textParts =
                           concat (map (\<lambda>p. case partText p of
                                                None \<Rightarrow> []
                                              | Some t \<Rightarrow> if t = [] then [] else [t]) ps)
                     in if textParts = []
                        then Inl (ApiError ''Empty response: no text content'' ResponseDetail)
                        else Inr (concat textParts)))))"


subsection \<open>Reading the log and the answers of the upstream\<close>

text \<open>
  Projections of the log of events, and the kinds of answer of a candidate URL of the
  extended family, used to state the properties of the client.
\<close>

fun marksOf :: "event list \<Rightarrow> (string \<times> int) list" where
  "marksOf [] = []"
| "marksOf (MarkRateLimited i ms # es) = (i, ms) # marksOf es"
| "marksOf (e # es) = marksOf es"

fun delaysOf :: "event list \<Rightarrow> int list" where
  "delaysOf [] = []"
| "delaysOf (Delay ms # es) = ms # delaysOf es"
| "delaysOf (e # es) = delaysOf es"

fun fetchesOf :: "event list \<Rightarrow> string list" where
  "fetchesOf [] = []"
| "fetchesOf (Fetch url tok # es) = url # fetchesOf es"
| "fetchesOf (e # es) = fetchesOf es"

fun incrementsOf :: "event list \<Rightarrow> string list" where
  "incrementsOf [] = []"
| "incrementsOf (IncrementUsage i # es) = i # incrementsOf es"
| "incrementsOf (e # es) = incrementsOf es"

definition is429 :: "attempt \<Rightarrow> string \<Rightarrow> bool" where
  "is429 env u = (case endpointResult env u of Inl m \<Rightarrow> False | Inr r \<Rightarrow> status r = 429)"

text \<open>
  A candidate is passed over when the inner loop moves on to the next URL after it: the
  \<^verbatim>\<open>fetch\<close> rejected, or the status was 429, 404 or at least 500, or the body could not
  be read. It succeeds with \<open>t\<close> when its response is ok and its body parses to the
  non-empty text \<open>t\<close>.
\<close>

definition passedOver :: "attempt \<Rightarrow> string \<Rightarrow> bool" where
  "passedOver env u =
     (case endpointResult env u of
        Inl m \<Rightarrow> True
      | Inr r \<Rightarrow> status r = 429 \<or> status r = 404 \<or> status r \<ge> 500 \<or> isl (body r))"

definition succeedsWith :: "jsonParser \<Rightarrow> attempt \<Rightarrow> string \<Rightarrow> string \<Rightarrow> bool" where
  "succeedsWith jsonParse env u t =
     (case endpointResult env u of
        Inl m \<Rightarrow> False
      | Inr r \<Rightarrow>
          ok r \<and> t \<noteq> [] \<and>
          (case body r of
             Inl m \<Rightarrow> False
           | Inr fullResponse \<Rightarrow> parseAntigravitySSEResponse jsonParse fullResponse = t))"

text \<open>
  \<open>retryAfterOf env u\<close> is the \<^verbatim>\<open>retryAfterMs\<close> computed from the answer of the candidate
  \<open>u\<close>; \<open>lastRetryMs env us ms\<close> is the largest of \<open>ms\<close> and these values over the
  candidates \<open>us\<close>.
\<close>

definition retryAfterOf :: "attempt \<Rightarrow> string \<Rightarrow> int" where
  "retryAfterOf env u =
     (case endpointResult env u of
        Inl m \<Rightarrow> DEFAULT_RATE_LIMIT_MS
      | Inr r \<Rightarrow> retryAfterMsOf r)"

definition lastRetryMs :: "attempt \<Rightarrow> string list \<Rightarrow> int \<Rightarrow> int" where
  "lastRetryMs env us ms = Max (insert ms (retryAfterOf env ` set us))"

text \<open>
  Notions used to state the retry policy. \<open>allAvailable w\<close>: the directory is not empty
  and the rotator holds no rate-limit entry for any of its accounts. A pass is
  retryable when it ends in the shared \<^verbatim>\<open>catch\<close> path or in the exhaustion of the
  candidates: the token manager fails with an error that is neither a rate-limit nor
  an API error, or the token is obtained and the upstream fails (standard family: the
  \<^verbatim>\<open>fetch\<close> rejects or the status is at least 500; extended family: every candidate URL
  rejects or answers with a status of at least 500). \<open>recordedStd\<close> and \<open>recordedExt\<close>
  are the errors that such a pass stores in \<^verbatim>\<open>lastError\<close>; \<open>exhaustedStd\<close> and
  \<open>exhaustedExt\<close> are the errors raised when such a pass uses up the budget.
\<close>

definition allAvailable :: "world \<Rightarrow> bool" where
  "allAvailable w =
     (directory w \<noteq> [] \<and>
      list_all (\<lambda>a. map_of (rateLimits (rotatorState w)) (accId a) = None) (directory w))"

definition retryableStd :: "attempt \<Rightarrow> bool" where
  "retryableStd env =
     (case tokenResult env of
        Inl e \<Rightarrow> \<not> isRateLimitError e \<and> \<not> isApiError e
      | Inr tok \<Rightarrow> (case fetchResult env of Inl m \<Rightarrow> True | Inr r \<Rightarrow> status r \<ge> 500))"

definition recordedStd :: "attempt \<Rightarrow> error" where
  "recordedStd env =
     (case tokenResult env of
        Inl e \<Rightarrow> e
      | Inr tok \<Rightarrow>
          (case fetchResult env of
             Inl m \<Rightarrow> OtherError m
           | Inr r \<Rightarrow>
               (case body r of
                  Inl m \<Rightarrow> OtherError m
                | Inr d \<Rightarrow> ApiError (''Server error: '' @ errorMessageOf r d)
                            (StatusDetail (status r)))))"

definition messageOrUnknown :: "error \<Rightarrow> string" where
  "messageOrUnknown e = (if message e = [] then ''Unknown error'' else message e)"

definition exhaustedStd :: "attempt \<Rightarrow> error" where
  "exhaustedStd env =
     (case tokenResult env of
        Inl e \<Rightarrow> ApiError (''Request failed after 3 retries: '' @ messageOrUnknown e) (RetriesDetail 3)
      | Inr tok \<Rightarrow>
          (case fetchResult env of
             Inl m \<Rightarrow> ApiError (''Request failed after 3 retries: '' @ messageOrUnknown (OtherError m))
                        (RetriesDetail 3)
           | Inr r \<Rightarrow>
               (case body r of
                  Inl m \<Rightarrow> ApiError (''Request failed after 3 retries: ''
                                       @ messageOrUnknown (OtherError m)) (RetriesDetail 3)
                | Inr d \<Rightarrow> ApiError (''API error: '' @ errorMessageOf r d)
                            (StatusDetail (status r)))))"

definition retryableExt :: "attempt \<Rightarrow> bool" where
  "retryableExt env =
     (case tokenResult env of
        Inl e \<Rightarrow> \<not> isRateLimitError e \<and> \<not> isApiError e
      | Inr tok \<Rightarrow>
          list_all (\<lambda>u. case endpointResult env u of Inl m \<Rightarrow> True | Inr r \<Rightarrow> status r \<ge> 500)
            ANTIGRAVITY_API_BASE_URLS)"

definition recordedExt :: "attempt \<Rightarrow> error" where
  "recordedExt env =
     (case tokenResult env of
        Inl e \<Rightarrow> e
      | Inr tok \<Rightarrow> ApiError ''All Antigravity endpoints failed'' NoDetails)"

definition exhaustedExt :: "attempt \<Rightarrow> error" where
  "exhaustedExt env =
     ApiError (''Antigravity request failed after 3 retries: '' @ messageOrUnknown (recordedExt env))
       (RetriesDetail 3)"

section \<open>Token manager (TokenManagerImpl)\<close>

text \<open>
  First the calls one at a time: when \<^verbatim>\<open>refreshToken\<close> is entered no other refresh is
  in flight, so the map \<^verbatim>\<open>refreshPromises\<close> is empty at every entry and is not part of
  this state. The state holds the token cache, the cached storage and the log of the
  calls made on the token endpoint and on the storage. Invocations that overlap, and the
  map, follow in the next subsection.
\<close>

definition TOKEN_EXPIRY_BUFFER_MS :: int where
  "TOKEN_EXPIRY_BUFFER_MS = 5 * 60 * 1000"

definition isExpired :: "int \<Rightarrow> int \<Rightarrow> bool" where
  "isExpired now e = (now + TOKEN_EXPIRY_BUFFER_MS \<ge> e)"

record tokenCacheEntry =
  cachedAccessToken :: string
  expiresAt :: int

record accountsStorage =
  activeAccountId :: "string option"
  storedAccounts :: "account list"
  updatedAt :: int

datatype tokenCall =
    StorageLoad
  | StorageSave accountsStorage
  | TokenEndpointCall string

record tokenManager =
  tokenCache :: "(string \<times> tokenCacheEntry) list"
  storageCache :: "accountsStorage option"
  calls :: "tokenCall list"

definition newTokenManager :: tokenManager where
  "newTokenManager = \<lparr>tokenCache = [], storageCache = None, calls = []\<rparr>"

text \<open>
  What the token endpoint answers: \<^verbatim>\<open>fetch\<close> rejects; or the response is not ok and
  its JSON gives \<^verbatim>\<open>error\<close> and \<^verbatim>\<open>error_description\<close>; or it is ok and its JSON gives
  \<^verbatim>\<open>access_token\<close> and \<^verbatim>\<open>expires_in\<close> (\<open>Inl m\<close>: reading the JSON rejects).
\<close>

datatype tokenReply =
    FetchRejected string
  | NotOk "string + (string option \<times> string option)"
  | Granted "string + (string \<times> int)"

text \<open>
  The environment of one call of the token manager: the readings of \<^verbatim>\<open>Date.now()\<close> in
  source order, what \<^verbatim>\<open>storage.load()\<close> gives in \<^verbatim>\<open>getAccount\<close> and in
  \<^verbatim>\<open>updateAccountToken\<close>, the answer of the token endpoint, and whether
  \<^verbatim>\<open>storage.save\<close> rejects.
\<close>

record tokenEnv =
  nowCache :: int
  loadResult :: "string + accountsStorage"
  nowStored :: int
  endpointReply :: tokenReply
  nowGranted :: int
  reloadResult :: "string + accountsStorage"
  nowUsed :: int
  nowUpdated :: int
  saveResult :: "string option"

definition logCall :: "tokenCall \<Rightarrow> tokenManager \<Rightarrow> tokenManager" where
  "logCall c tm = tm\<lparr>calls := calls tm @ [c]\<rparr>"

definition getAccount_tm ::
  "tokenEnv \<Rightarrow> string \<Rightarrow> tokenManager \<Rightarrow> (error + account option) \<times> tokenManager" where
  "getAccount_tm env i tm =
     (case storageCache tm of
        Some st \<Rightarrow> (Inr (find (\<lambda>a. accId a = i) (storedAccounts st)), tm)
      | None \<Rightarrow>
          (case loadResult env of
             Inl m \<Rightarrow> (Inl (OtherError m), logCall StorageLoad tm)
           | Inr st \<Rightarrow>
               (Inr (find (\<lambda>a. accId a = i) (storedAccounts st)),
                logCall StorageLoad (tm\<lparr>storageCache := Some st\<rparr>))))"

definition cacheToken :: "string \<Rightarrow> string \<Rightarrow> int \<Rightarrow> tokenManager \<Rightarrow> tokenManager" where
  "cacheToken i tok e tm =
     tm\<lparr>tokenCache := AList.update i \<lparr>cachedAccessToken = tok, expiresAt = e\<rparr> (tokenCache tm)\<rparr>"

definition callTokenEndpoint ::
  "tokenEnv \<Rightarrow> string \<Rightarrow> tokenManager \<Rightarrow> (error + string \<times> int) \<times> tokenManager" where
  "callTokenEndpoint env rt tm =
     (let actualRefreshToken = (if CHR ''|'' \<in> set rt then takeWhile (\<lambda>c. c \<noteq> CHR ''|'') rt else rt);
          tm1 = logCall (TokenEndpointCall actualRefreshToken) tm
      in case endpointReply env of
           FetchRejected m \<Rightarrow> (Inl (OtherError m), tm1)
         | NotOk (Inl m) \<Rightarrow> (Inl (OtherError m), tm1)
         | NotOk (Inr (err, desc)) \<Rightarrow>
             (Inl (AuthenticationError (''Token refresh failed: '' @
                (case desc of
                   Some d \<Rightarrow> d
                 | None \<Rightarrow> (case err of Some e \<Rightarrow> e | None \<Rightarrow> ''Unknown error'')))), tm1)
         | Granted (Inl m) \<Rightarrow> (Inl (OtherError m), tm1)
         | Granted (Inr (tok, expires_in)) \<Rightarrow>
             (Inr (tok, nowGranted env + expires_in * 1000), tm1))"

definition updateAccountToken ::
  "tokenEnv \<Rightarrow> string \<Rightarrow> string \<Rightarrow> int \<Rightarrow> tokenManager \<Rightarrow> (error + unit) \<times> tokenManager" where
  "updateAccountToken env i tok e tm =
     (let tm1 = logCall StorageLoad tm in
      case reloadResult env of
        Inl m \<Rightarrow> (Inl (OtherError m), tm1)
      | Inr st \<Rightarrow>
          (case findIndex (\<lambda>a. accId a = i) (storedAccounts st) of
             None \<Rightarrow> (Inl (AuthenticationError (''Account not found: '' @ i)), tm1)
           | Some k \<Rightarrow>
               (let existingAccount = storedAccounts st ! k;
                    st' = st\<lparr>storedAccounts := (storedAccounts st)
                               [k := existingAccount\<lparr>accessToken := Some tok,
                                                      accessTokenExpiry := Some e,
                                                      lastUsedAt := nowUsed env\<rparr>],
                             updatedAt := nowUpdated env\<rparr>;
                    tm2 = logCall (StorageSave st') tm1
                in case saveResult env of
                     Some m \<Rightarrow> (Inl (OtherError m), tm2)
                   | None \<Rightarrow> (Inr (), tm2\<lparr>storageCache := Some st'\<rparr>))))"

definition wrapRefreshError :: "error \<Rightarrow> error" where
  "wrapRefreshError e =
     (if isAuthenticationError e then e
      else AuthenticationError (''Token refresh failed: '' @ message e))"

definition doRefresh ::
  "tokenEnv \<Rightarrow> string \<Rightarrow> tokenManager \<Rightarrow> (error + string) \<times> tokenManager" where
  "doRefresh env i tm =
     (case getAccount_tm env i tm of
        (Inl e, tm1) \<Rightarrow> (Inl e, tm1)
      | (Inr None, tm1) \<Rightarrow> (Inl (AuthenticationError (''Account not found: '' @ i)), tm1)
      | (Inr (Some a), tm1) \<Rightarrow>
          if refreshToken a = [] then
            (Inl (AuthenticationError (''No refresh token available for account: '' @ i)), tm1)
          else
            (case callTokenEndpoint env (refreshToken a) tm1 of
               (Inl e, tm2) \<Rightarrow> (Inl (wrapRefreshError e), tm2)
             | (Inr (tok, ex), tm2) \<Rightarrow>
                 (case updateAccountToken env i tok ex tm2 of
                    (Inl e, tm3) \<Rightarrow> (Inl (wrapRefreshError e), tm3)
                  | (Inr u, tm3) \<Rightarrow> (Inr tok, cacheToken i tok ex tm3))))"

definition refreshToken_tm ::
  "tokenEnv \<Rightarrow> string \<Rightarrow> tokenManager \<Rightarrow> (error + string) \<times> tokenManager" where
  "refreshToken_tm env i tm = doRefresh env i tm"

text \<open>
  The tail of \<^verbatim>\<open>getAccessToken\<close> after a miss in the cache: the stored record, then the
  refresh.
\<close>

definition fromStorageOrRefresh ::
  "tokenEnv \<Rightarrow> string \<Rightarrow> tokenManager \<Rightarrow> (error + string) \<times> tokenManager" where
  "fromStorageOrRefresh env i tm =
     (case getAccount_tm env i tm of
        (Inl e, tm1) \<Rightarrow> (Inl e, tm1)
      | (Inr None, tm1) \<Rightarrow> (Inl (AuthenticationError (''Account not found: '' @ i)), tm1)
      | (Inr (Some a), tm1) \<Rightarrow>
          (case (accessToken a, accessTokenExpiry a) of
             (Some tok, Some ex) \<Rightarrow>
               if tok \<noteq> [] \<and> ex \<noteq> 0 \<and> \<not> isExpired (nowStored env) ex
               then (Inr tok, cacheToken i tok ex tm1)
               else refreshToken_tm env i tm1
           | _ \<Rightarrow> refreshToken_tm env i tm1))"

definition getAccessToken ::
  "tokenEnv \<Rightarrow> string \<Rightarrow> tokenManager \<Rightarrow> (error + string) \<times> tokenManager" where
  "getAccessToken env i tm =
     (case map_of (tokenCache tm) i of
        None \<Rightarrow> fromStorageOrRefresh env i tm
      | Some c \<Rightarrow>
          if \<not> isExpired (nowCache env) (expiresAt c) then (Inr (cachedAccessToken c), tm)
          else fromStorageOrRefresh env i tm)"


subsection \<open>Invocations that overlap\<close>

text \<open>
  \<^verbatim>\<open>getAccessToken\<close> and \<^verbatim>\<open>refreshToken\<close> are \<^verbatim>\<open>async\<close>: an invocation runs until its next
  \<^verbatim>\<open>await\<close>, and goes on when what it awaits has settled and the event loop gives it its
  turn. Between two such turns other invocations run. The state of the token manager
  with invocations in flight is the state of the sequential model, the map
  \<^verbatim>\<open>refreshPromises\<close>, and for every invocation and for every \<^verbatim>\<open>doRefresh\<close> the
  \<^verbatim>\<open>await\<close> at which it stands. An invocation is named by a number chosen by its caller;
  a \<^verbatim>\<open>doRefresh\<close>, and the promise it returned, by the number of the invocation that
  started it.

  \<open>awaited\<close> is the state of a call of \<^verbatim>\<open>getAccount\<close>: \<^verbatim>\<open>storage.load()\<close> is pending, or the
  call has settled (\<open>Inl\<close>: the load rejected; \<open>Inr\<close>: the account found, if any). With
  the storage cached, \<^verbatim>\<open>getAccount\<close> runs to its end when it is called, and its caller
  receives what it found then.
\<close>

datatype awaited = Loading | Got "error + account option"

text \<open>
  Where an invocation stands: in \<^verbatim>\<open>getAccessToken\<close> at \<^verbatim>\<open>await this.getAccount(accountId)\<close>;
  in \<^verbatim>\<open>refreshToken\<close>, waiting for the promise of the \<^verbatim>\<open>doRefresh\<close> named (its own when
  it started it, an \<^verbatim>\<open>existingPromise\<close> otherwise); or settled with its result.
\<close>

datatype invocationPhase =
    InGetAccount awaited
  | InRefresh nat
  | Settled "error + string"

record invocation =
  forAccount :: string
  phase :: invocationPhase

text \<open>
  Where a \<^verbatim>\<open>doRefresh\<close> stands: at \<^verbatim>\<open>await this.getAccount(accountId)\<close>; at
  \<^verbatim>\<open>await this.callTokenEndpoint(...)\<close>, the request sent; in \<^verbatim>\<open>updateAccountToken\<close> at
  \<^verbatim>\<open>await this.storage.load()\<close> and at \<^verbatim>\<open>await this.storage.save(storage)\<close>, with the token
  and its expiry; back from \<^verbatim>\<open>updateAccountToken\<close>, before \<^verbatim>\<open>cacheToken\<close>; or settled.
\<close>

datatype refreshPhase =
    RGetAccount awaited
  | REndpoint
  | RReload string int
  | RSave string int accountsStorage
  | RCache string int
  | RSettled "error + string"

record inFlight =
  manager :: tokenManager
  refreshPromises :: "(string \<times> nat) list"
  invocations :: "nat \<rightharpoonup> invocation"
  refreshes :: "nat \<rightharpoonup> string \<times> refreshPhase"

definition idle :: "tokenManager \<Rightarrow> inFlight" where
  "idle tm = \<lparr>manager = tm, refreshPromises = [], invocations = Map.empty, refreshes = Map.empty\<rparr>"

text \<open>
  What happens to the token manager, one turn of the event loop each: a caller invokes a
  method for an account id; a pending \<^verbatim>\<open>storage.load()\<close> settles (\<open>Inl\<close>: it rejects)
  for an invocation or a \<^verbatim>\<open>doRefresh\<close>; an invocation or a \<^verbatim>\<open>doRefresh\<close> whose awaited
  promise has settled goes on; the token endpoint answers a \<^verbatim>\<open>doRefresh\<close>; its
  \<^verbatim>\<open>storage.save\<close> settles (\<open>Some\<close>: it rejects). The integers are the readings of
  \<^verbatim>\<open>Date.now()\<close> during the turn. The answer of the token endpoint and the reading of
  its body are one signal: the token manager reads and writes nothing of its own between
  the two. A signal for which nothing is waiting leaves the state as it is. The order of the signals of a run is the order in which the outside settles
  what is pending; the list is an input, like the attempts of the client.
\<close>

datatype tmMethod = GetAccessTokenCall | RefreshTokenCall

datatype task = Invocation nat | Refresh nat

datatype signal =
    Invoke nat tmMethod string int
  | LoadSettles task "string + accountsStorage" int int
  | Resume task int
  | EndpointSettles nat tokenReply int
  | SaveSettles nat "string option"

definition validCachedToken :: "int \<Rightarrow> string \<Rightarrow> tokenManager \<Rightarrow> string option" where
  "validCachedToken now i tm =
     (case map_of (tokenCache tm) i of
        None \<Rightarrow> None
      | Some c \<Rightarrow> if \<not> isExpired now (expiresAt c) then Some (cachedAccessToken c) else None)"

definition validStoredToken :: "int \<Rightarrow> account \<Rightarrow> (string \<times> int) option" where
  "validStoredToken now a =
     (case (accessToken a, accessTokenExpiry a) of
        (Some tok, Some ex) \<Rightarrow>
          if tok \<noteq> [] \<and> ex \<noteq> 0 \<and> \<not> isExpired now ex then Some (tok, ex) else None
      | _ \<Rightarrow> None)"

text \<open>\<^verbatim>\<open>getAccount\<close>, up to its \<^verbatim>\<open>await\<close> and after it.\<close>

definition startGetAccount :: "string \<Rightarrow> tokenManager \<Rightarrow> awaited \<times> tokenManager" where
  "startGetAccount i tm =
     (case storageCache tm of
        None \<Rightarrow> (Loading, logCall StorageLoad tm)
      | Some st \<Rightarrow> (Got (Inr (find (\<lambda>a. accId a = i) (storedAccounts st))), tm))"

definition loadedGetAccount ::
  "string \<Rightarrow> string + accountsStorage \<Rightarrow> tokenManager \<Rightarrow> awaited \<times> tokenManager" where
  "loadedGetAccount i r tm =
     (case r of
        Inl m \<Rightarrow> (Got (Inl (OtherError m)), tm)
      | Inr st \<Rightarrow>
          (Got (Inr (find (\<lambda>a. accId a = i) (storedAccounts st))), tm\<lparr>storageCache := Some st\<rparr>))"

definition setPhase :: "nat \<Rightarrow> string \<Rightarrow> invocationPhase \<Rightarrow> inFlight \<Rightarrow> inFlight" where
  "setPhase c i p s = s\<lparr>invocations := (invocations s)(c \<mapsto> \<lparr>forAccount = i, phase = p\<rparr>)\<rparr>"

definition setRefresh :: "nat \<Rightarrow> string \<Rightarrow> refreshPhase \<Rightarrow> inFlight \<Rightarrow> inFlight" where
  "setRefresh f i p s = s\<lparr>refreshes := (refreshes s)(f \<mapsto> (i, p))\<rparr>"

text \<open>
  \<^verbatim>\<open>refreshToken\<close>, up to its \<^verbatim>\<open>await\<close>: with an entry for the id in \<^verbatim>\<open>refreshPromises\<close> the
  invocation returns that promise; without one it calls \<^verbatim>\<open>doRefresh\<close>, which runs up to
  its \<^verbatim>\<open>await\<close> of \<^verbatim>\<open>getAccount\<close>, and stores the promise under the id.
\<close>

definition enterRefreshToken :: "nat \<Rightarrow> string \<Rightarrow> inFlight \<Rightarrow> inFlight" where
  "enterRefreshToken c i s =
     (case map_of (refreshPromises s) i of
        Some f \<Rightarrow> setPhase c i (InRefresh f) s
      | None \<Rightarrow>
          (case startGetAccount i (manager s) of
             (aw, tm) \<Rightarrow>
               setPhase c i (InRefresh c)
                 (setRefresh c i (RGetAccount aw)
                    (s\<lparr>manager := tm,
                       refreshPromises := AList.update i c (refreshPromises s)\<rparr>))))"

text \<open>\<^verbatim>\<open>getAccessToken\<close>, up to its \<^verbatim>\<open>await\<close> and after it.\<close>

definition invokeGetAccessToken :: "nat \<Rightarrow> string \<Rightarrow> int \<Rightarrow> inFlight \<Rightarrow> inFlight" where
  "invokeGetAccessToken c i now s =
     (case validCachedToken now i (manager s) of
        Some tok \<Rightarrow> setPhase c i (Settled (Inr tok)) s
      | None \<Rightarrow>
          (case startGetAccount i (manager s) of
             (aw, tm) \<Rightarrow> setPhase c i (InGetAccount aw) (s\<lparr>manager := tm\<rparr>)))"

definition resumeGetAccessToken ::
  "nat \<Rightarrow> string \<Rightarrow> error + account option \<Rightarrow> int \<Rightarrow> inFlight \<Rightarrow> inFlight" where
  "resumeGetAccessToken c i r now s =
     (case r of
        Inl e \<Rightarrow> setPhase c i (Settled (Inl e)) s
      | Inr None \<Rightarrow> setPhase c i (Settled (Inl (AuthenticationError (''Account not found: '' @ i)))) s
      | Inr (Some a) \<Rightarrow>
          (case validStoredToken now a of
             Some (tok, ex) \<Rightarrow>
               setPhase c i (Settled (Inr tok)) (s\<lparr>manager := cacheToken i tok ex (manager s)\<rparr>)
           | None \<Rightarrow> enterRefreshToken c i s))"

text \<open>
  \<^verbatim>\<open>refreshToken\<close> after the promise it waits for has settled: the invocation settles
  with the same result, and the one that started the \<^verbatim>\<open>doRefresh\<close> deletes the entry of
  the id in its \<^verbatim>\<open>finally\<close>.
\<close>

definition resumeRefreshToken :: "nat \<Rightarrow> string \<Rightarrow> nat \<Rightarrow> inFlight \<Rightarrow> inFlight" where
  "resumeRefreshToken c i f s =
     (case refreshes s f of
        Some (j, RSettled r) \<Rightarrow>
          setPhase c i (Settled r)
            (if f = c then s\<lparr>refreshPromises := AList.delete i (refreshPromises s)\<rparr> else s)
      | _ \<Rightarrow> s)"

text \<open>\<^verbatim>\<open>doRefresh\<close> after each of its \<^verbatim>\<open>await\<close>s, with \<^verbatim>\<open>callTokenEndpoint\<close> and
  \<^verbatim>\<open>updateAccountToken\<close> in line.\<close>

definition actualRefreshToken :: "string \<Rightarrow> string" where
  "actualRefreshToken rt =
     (if CHR ''|'' \<in> set rt then takeWhile (\<lambda>c. c \<noteq> CHR ''|'') rt else rt)"

definition replyResult :: "tokenReply \<Rightarrow> int \<Rightarrow> error + string \<times> int" where
  "replyResult reply now =
     (case reply of
        FetchRejected m \<Rightarrow> Inl (OtherError m)
      | NotOk (Inl m) \<Rightarrow> Inl (OtherError m)
      | NotOk (Inr (err, desc)) \<Rightarrow>
          Inl (AuthenticationError (''Token refresh failed: '' @
                (case desc of
                   Some d \<Rightarrow> d
                 | None \<Rightarrow> (case err of Some e \<Rightarrow> e | None \<Rightarrow> ''Unknown error''))))
      | Granted (Inl m) \<Rightarrow> Inl (OtherError m)
      | Granted (Inr (tok, expires_in)) \<Rightarrow> Inr (tok, now + expires_in * 1000))"

definition resumeDoRefresh ::
  "nat \<Rightarrow> string \<Rightarrow> error + account option \<Rightarrow> inFlight \<Rightarrow> inFlight" where
  "resumeDoRefresh f i r s =
     (case r of
        Inl e \<Rightarrow> setRefresh f i (RSettled (Inl e)) s
      | Inr None \<Rightarrow>
          setRefresh f i (RSettled (Inl (AuthenticationError (''Account not found: '' @ i)))) s
      | Inr (Some a) \<Rightarrow>
          if refreshToken a = [] then
            setRefresh f i
              (RSettled (Inl (AuthenticationError (''No refresh token available for account: '' @ i)))) s
          else
            setRefresh f i REndpoint
              (s\<lparr>manager :=
                   logCall (TokenEndpointCall (actualRefreshToken (refreshToken a))) (manager s)\<rparr>))"

definition endpointSettled :: "nat \<Rightarrow> string \<Rightarrow> tokenReply \<Rightarrow> int \<Rightarrow> inFlight \<Rightarrow> inFlight" where
  "endpointSettled f i reply now s =
     (case replyResult reply now of
        Inl e \<Rightarrow> setRefresh f i (RSettled (Inl (wrapRefreshError e))) s
      | Inr (tok, ex) \<Rightarrow>
          setRefresh f i (RReload tok ex) (s\<lparr>manager := logCall StorageLoad (manager s)\<rparr>))"

definition reloadSettled ::
  "nat \<Rightarrow> string \<Rightarrow> string \<Rightarrow> int \<Rightarrow> string + accountsStorage \<Rightarrow> int \<Rightarrow> int \<Rightarrow> inFlight
     \<Rightarrow> inFlight" where
  "reloadSettled f i tok ex r now now' s =
     (case r of
        Inl m \<Rightarrow> setRefresh f i (RSettled (Inl (wrapRefreshError (OtherError m)))) s
      | Inr st \<Rightarrow>
          (case findIndex (\<lambda>a. accId a = i) (storedAccounts st) of
             None \<Rightarrow>
               setRefresh f i
                 (RSettled (Inl (wrapRefreshError
                    (AuthenticationError (''Account not found: '' @ i))))) s
           | Some k \<Rightarrow>
               (let existingAccount = storedAccounts st ! k;
                    st' = st\<lparr>storedAccounts := (storedAccounts st)
                               [k := existingAccount\<lparr>accessToken := Some tok,
                                                      accessTokenExpiry := Some ex,
                                                      lastUsedAt := now\<rparr>],
                             updatedAt := now'\<rparr>
                in setRefresh f i (RSave tok ex st')
                     (s\<lparr>manager := logCall (StorageSave st') (manager s)\<rparr>))))"

definition saveSettled ::
  "nat \<Rightarrow> string \<Rightarrow> string \<Rightarrow> int \<Rightarrow> accountsStorage \<Rightarrow> string option \<Rightarrow> inFlight \<Rightarrow> inFlight" where
  "saveSettled f i tok ex st' r s =
     (case r of
        Some m \<Rightarrow> setRefresh f i (RSettled (Inl (wrapRefreshError (OtherError m)))) s
      | None \<Rightarrow>
          setRefresh f i (RCache tok ex) (s\<lparr>manager := (manager s)\<lparr>storageCache := Some st'\<rparr>\<rparr>))"

definition cacheRefreshed :: "nat \<Rightarrow> string \<Rightarrow> string \<Rightarrow> int \<Rightarrow> inFlight \<Rightarrow> inFlight" where
  "cacheRefreshed f i tok ex s =
     setRefresh f i (RSettled (Inr tok)) (s\<lparr>manager := cacheToken i tok ex (manager s)\<rparr>)"

fun deliver :: "signal \<Rightarrow> inFlight \<Rightarrow> inFlight" where
  "deliver (Invoke c m i now) s =
     (case invocations s c of
        Some v \<Rightarrow> s
      | None \<Rightarrow>
          (case m of
             GetAccessTokenCall \<Rightarrow> invokeGetAccessToken c i now s
           | RefreshTokenCall \<Rightarrow> enterRefreshToken c i s))"
| "deliver (LoadSettles (Invocation c) r now now') s =
     (case invocations s c of
        None \<Rightarrow> s
      | Some v \<Rightarrow>
          (case phase v of
             InGetAccount Loading \<Rightarrow>
               (case loadedGetAccount (forAccount v) r (manager s) of
                  (aw, tm) \<Rightarrow> setPhase c (forAccount v) (InGetAccount aw) (s\<lparr>manager := tm\<rparr>))
           | _ \<Rightarrow> s))"
| "deliver (LoadSettles (Refresh f) r now now') s =
     (case refreshes s f of
        Some (i, RGetAccount Loading) \<Rightarrow>
          (case loadedGetAccount i r (manager s) of
             (aw, tm) \<Rightarrow> setRefresh f i (RGetAccount aw) (s\<lparr>manager := tm\<rparr>))
      | Some (i, RReload tok ex) \<Rightarrow> reloadSettled f i tok ex r now now' s
      | _ \<Rightarrow> s)"
| "deliver (Resume (Invocation c) now) s =
     (case invocations s c of
        None \<Rightarrow> s
      | Some v \<Rightarrow>
          (case phase v of
             InGetAccount (Got r) \<Rightarrow> resumeGetAccessToken c (forAccount v) r now s
           | InRefresh f \<Rightarrow> resumeRefreshToken c (forAccount v) f s
           | _ \<Rightarrow> s))"
| "deliver (Resume (Refresh f) now) s =
     (case refreshes s f of
        Some (i, RGetAccount (Got r)) \<Rightarrow> resumeDoRefresh f i r s
      | Some (i, RCache tok ex) \<Rightarrow> cacheRefreshed f i tok ex s
      | _ \<Rightarrow> s)"
| "deliver (EndpointSettles f reply now) s =
     (case refreshes s f of
        Some (i, REndpoint) \<Rightarrow> endpointSettled f i reply now s
      | _ \<Rightarrow> s)"
| "deliver (SaveSettles f r) s =
     (case refreshes s f of
        Some (i, RSave tok ex st') \<Rightarrow> saveSettled f i tok ex st' r s
      | _ \<Rightarrow> s)"

fun deliverAll :: "signal list \<Rightarrow> inFlight \<Rightarrow> inFlight" where
  "deliverAll [] s = s"
| "deliverAll (e # es) s = deliverAll es (deliver e s)"

text \<open>
  The result of an invocation, once settled, and the refresh tokens sent to the token
  endpoint, in order.
\<close>

definition resultOf :: "inFlight \<Rightarrow> nat \<Rightarrow> (error + string) option" where
  "resultOf s c =
     (case invocations s c of
        None \<Rightarrow> None
      | Some v \<Rightarrow> (case phase v of Settled r \<Rightarrow> Some r | _ \<Rightarrow> None))"

fun endpointCallsOf :: "tokenCall list \<Rightarrow> string list" where
  "endpointCallsOf [] = []"
| "endpointCallsOf (TokenEndpointCall rt # cs) = rt # endpointCallsOf cs"
| "endpointCallsOf (c # cs) = endpointCallsOf cs"

subsection \<open>Notions for the runs of the token manager\<close>

text \<open>
  A \<^verbatim>\<open>doRefresh\<close> is pending for an account id while it has not settled. \<open>requestOf e s\<close>
  is the refresh token that the signal \<open>e\<close> makes the token manager send to the token
  endpoint in the state \<open>s\<close>, if any: a \<^verbatim>\<open>doRefresh\<close> that goes on after \<^verbatim>\<open>getAccount\<close> with
  an account that has a refresh token.
\<close>

definition settledRefresh :: "refreshPhase \<Rightarrow> bool" where
  "settledRefresh p = (case p of RSettled r \<Rightarrow> True | _ \<Rightarrow> False)"

definition pendingRefresh :: "inFlight \<Rightarrow> string \<Rightarrow> nat \<Rightarrow> bool" where
  "pendingRefresh s i f =
     (case refreshes s f of None \<Rightarrow> False | Some (j, p) \<Rightarrow> j = i \<and> \<not> settledRefresh p)"

definition requestOf :: "signal \<Rightarrow> inFlight \<Rightarrow> string list" where
  "requestOf e s =
     (case e of
        Resume (Refresh f) now \<Rightarrow>
          (case refreshes s f of
             Some (i, RGetAccount (Got (Inr (Some a)))) \<Rightarrow>
               if refreshToken a = [] then [] else [actualRefreshToken (refreshToken a)]
           | _ \<Rightarrow> [])
      | _ \<Rightarrow> [])"

text \<open>
  The states that runs reach: a pending \<^verbatim>\<open>doRefresh\<close> is the one registered for its id; a
  registered promise is the one of a \<^verbatim>\<open>doRefresh\<close> for that id whose starter still waits
  for it; an invocation at \<^verbatim>\<open>getAccount\<close> has started no \<^verbatim>\<open>doRefresh\<close>; an invocation in
  \<^verbatim>\<open>refreshToken\<close> waits for a \<^verbatim>\<open>doRefresh\<close> of its id, which is registered while its
  starter waits; and every \<^verbatim>\<open>doRefresh\<close> was started by an invocation.
\<close>

definition consistent :: "inFlight \<Rightarrow> bool" where
  "consistent s \<longleftrightarrow>
     (\<forall>i f. pendingRefresh s i f \<longrightarrow> map_of (refreshPromises s) i = Some f)
   \<and> (\<forall>i f. map_of (refreshPromises s) i = Some f \<longrightarrow> (\<exists>p. refreshes s f = Some (i, p)))
   \<and> (\<forall>i f. map_of (refreshPromises s) i = Some f \<longrightarrow>
          invocations s f = Some \<lparr>forAccount = i, phase = InRefresh f\<rparr>)
   \<and> (\<forall>c v aw. invocations s c = Some v \<longrightarrow> phase v = InGetAccount aw \<longrightarrow>
          refreshes s c = None)
   \<and> (\<forall>c v f. invocations s c = Some v \<longrightarrow> phase v = InRefresh f \<longrightarrow>
          (\<exists>p. refreshes s f = Some (forAccount v, p)))
   \<and> (\<forall>c v. invocations s c = Some v \<longrightarrow> phase v = InRefresh c \<longrightarrow>
          map_of (refreshPromises s) (forAccount v) = Some c)
   \<and> (\<forall>f. invocations s f = None \<longrightarrow> refreshes s f = None)"

text \<open>
  One invocation of \<^verbatim>\<open>getAccessToken\<close> with nothing else in flight, in the environment of
  the sequential model: its signals in the order of the source, those for which nothing
  waits being without effect. \<open>refreshing\<close> is the state in which that invocation has
  just entered \<^verbatim>\<open>refreshToken\<close>, \<open>refreshAlone\<close> are the signals from there on, and
  \<open>settledAlone\<close> is the state in which it has settled without a refresh.
\<close>

definition alone :: "tokenEnv \<Rightarrow> nat \<Rightarrow> string \<Rightarrow> signal list" where
  "alone env c i =
     [Invoke c GetAccessTokenCall i (nowCache env),
      LoadSettles (Invocation c) (loadResult env) 0 0,
      Resume (Invocation c) (nowStored env),
      Resume (Refresh c) 0,
      EndpointSettles c (endpointReply env) (nowGranted env),
      LoadSettles (Refresh c) (reloadResult env) (nowUsed env) (nowUpdated env),
      SaveSettles c (saveResult env),
      Resume (Refresh c) 0,
      Resume (Invocation c) 0]"

definition refreshing :: "tokenManager \<Rightarrow> nat \<Rightarrow> string \<Rightarrow> account \<Rightarrow> inFlight" where
  "refreshing tm1 c i a =
     \<lparr>manager = tm1, refreshPromises = [(i, c)],
      invocations = [c \<mapsto> \<lparr>forAccount = i, phase = InRefresh c\<rparr>],
      refreshes = [c \<mapsto> (i, RGetAccount (Got (Inr (Some a))))]\<rparr>"

definition refreshAlone :: "tokenEnv \<Rightarrow> nat \<Rightarrow> signal list" where
  "refreshAlone env c =
     [Resume (Refresh c) 0,
      EndpointSettles c (endpointReply env) (nowGranted env),
      LoadSettles (Refresh c) (reloadResult env) (nowUsed env) (nowUpdated env),
      SaveSettles c (saveResult env),
      Resume (Refresh c) 0,
      Resume (Invocation c) 0]"

definition settledAlone :: "tokenManager \<Rightarrow> nat \<Rightarrow> string \<Rightarrow> error + string \<Rightarrow> inFlight" where
  "settledAlone tm1 c i r =
     \<lparr>manager = tm1, refreshPromises = [],
      invocations = [c \<mapsto> \<lparr>forAccount = i, phase = Settled r\<rparr>],
      refreshes = Map.empty\<rparr>"

section \<open>Concrete inputs\<close>

definition acct :: "string \<Rightarrow> string option \<Rightarrow> account" where
  "acct i p =
     \<lparr>accId = i, email = i @ ''@example.com'', refreshToken = ''refresh-'' @ i,
      accessToken = None, accessTokenExpiry = None, projectId = p,
      rateLimit = \<lparr>rlIsLimited = False, limitedUntil = None, consecutiveHits = 0\<rparr>,
      lastUsedAt = 0\<rparr>"


definition storedAcct :: "string \<Rightarrow> string \<Rightarrow> int \<Rightarrow> account" where
  "storedAcct i tok ex = (acct i None)\<lparr>accessToken := Some tok, accessTokenExpiry := Some ex\<rparr>"

definition storageOf :: "account list \<Rightarrow> accountsStorage" where
  "storageOf accs = \<lparr>activeAccountId = None, storedAccounts = accs, updatedAt = 0\<rparr>"

definition tokenEnvAt :: "int \<Rightarrow> accountsStorage \<Rightarrow> tokenEnv" where
  "tokenEnvAt now st =
     \<lparr>nowCache = now, loadResult = Inr st, nowStored = now,
      endpointReply = Granted (Inr (''new-token'', 3600)), nowGranted = now,
      reloadResult = Inr st, nowUsed = now, nowUpdated = now, saveResult = None\<rparr>"

definition cachedManager :: "string \<Rightarrow> string \<Rightarrow> int \<Rightarrow> tokenManager" where
  "cachedManager i tok ex =
     \<lparr>tokenCache = [(i, \<lparr>cachedAccessToken = tok, expiresAt = ex\<rparr>)],
      storageCache = Some (storageOf [storedAcct i tok ex]), calls = []\<rparr>"

definition threeAccounts :: "account list" where
  "threeAccounts = [acct ''a1'' None, acct ''a2'' None, acct ''a3'' None]"

definition rotatorWith :: "(string \<times> int) list \<Rightarrow> rotator" where
  "rotatorWith rl = \<lparr>rateLimits = rl, currentIndex = 0\<rparr>"

text \<open>
  The directory and the rotator after the only account was marked for 5000 ms at instant
  0 and then removed; and after two accounts were marked at instant 0, the first for 5000
  ms and the second for 1000 ms, and the second was removed.
\<close>

definition markedThenRemoved :: "account list \<times> rotator" where
  "markedThenRemoved =
     (case markRateLimited 0 0 ''a1'' 5000 ([acct ''a1'' None], newRotator) of
        (accs, r) \<Rightarrow> (removeAccount ''a1'' accs, r))"

definition twoMarkedOneRemoved :: "account list \<times> rotator" where
  "twoMarkedOneRemoved =
     (case markRateLimited 0 0 ''a2'' 1000
             (markRateLimited 0 0 ''a1'' 5000 ([acct ''a1'' None, acct ''a2'' None], newRotator)) of
        (accs, r) \<Rightarrow> (removeAccount ''a2'' accs, r))"

definition demoParse :: jsonParser where
  "demoParse s =
     (if s = ''{hello}''
      then Some (Some [Candidate (Some (Content (Some [Part (Some ''Hello, ''), Part (Some ''world'')])))])
      else None)"

definition http :: "nat \<Rightarrow> nat option \<Rightarrow> string + 'b \<Rightarrow> 'b response" where
  "http st ra b = \<lparr>status = st, retryAfterHeader = ra, body = b\<rparr>"

definition attemptOf ::
  "error + string \<Rightarrow> string + geminiResponse response \<Rightarrow> (string \<Rightarrow> string + string response)
     \<Rightarrow> attempt" where
  "attemptOf tk fr er =
     \<lparr>selectAt = 0, hintAt = 0, markAt = 0, statusAt = 0,
      tokenResult = tk, fetchResult = fr, endpointResult = er\<rparr>"

definition worldOf :: "account list \<Rightarrow> world" where
  "worldOf accs = \<lparr>directory = accs, rotatorState = newRotator, quotaState = [], events = []\<rparr>"

definition firstLimitedThenOk :: attempt where
  "firstLimitedThenOk =
     attemptOf (Inr ''token'') (Inl ''unused'')
       (\<lambda>u. if u = ''https://daily-cloudcode-pa.googleapis.com''
            then Inr (http 429 (Some 30) (Inr []))
            else Inr (http 200 None (Inr ''data: {hello}'')))"

definition allLimited :: attempt where
  "allLimited =
     attemptOf (Inr ''token'') (Inl ''unused'') (\<lambda>u. Inr (http 429 (Some 30) (Inr [])))"

definition limitedStd :: attempt where
  "limitedStd =
     attemptOf (Inr ''token'')
       (Inr (http 429 (Some 60) (Inr \<lparr>candidates = None, errorMessage = Some ''Rate limited''\<rparr>)))
       (\<lambda>u. Inl ''unused'')"

text \<open>
  \<open>allHaveProject w\<close>: every account of the directory has a project id. A pass is a
  transient failure when the token is obtained and the upstream fails with a network
  failure or a status of at least 500 (extended family: at every candidate URL);
  \<open>failureMessageStd\<close> is the message of that failure in the standard family. A pass is
  an authentication failure when \<^verbatim>\<open>getAccessToken\<close> rejects with an
  \<^verbatim>\<open>AuthenticationError\<close>.
\<close>

definition allHaveProject :: "world \<Rightarrow> bool" where
  "allHaveProject w = list_all (\<lambda>a. \<not> noProjectId a) (directory w)"

definition transientStd :: "attempt \<Rightarrow> bool" where
  "transientStd env =
     (case tokenResult env of
        Inl e \<Rightarrow> False
      | Inr tok \<Rightarrow> (case fetchResult env of Inl m \<Rightarrow> True | Inr r \<Rightarrow> status r \<ge> 500))"

definition transientExt :: "attempt \<Rightarrow> bool" where
  "transientExt env =
     (case tokenResult env of
        Inl e \<Rightarrow> False
      | Inr tok \<Rightarrow>
          list_all (\<lambda>u. case endpointResult env u of Inl m \<Rightarrow> True | Inr r \<Rightarrow> status r \<ge> 500)
            ANTIGRAVITY_API_BASE_URLS)"

definition failureMessageStd :: "attempt \<Rightarrow> string" where
  "failureMessageStd env =
     (case fetchResult env of
        Inl m \<Rightarrow> m
      | Inr r \<Rightarrow> (case body r of Inl m \<Rightarrow> m | Inr d \<Rightarrow> errorMessageOf r d))"

definition authFails :: "attempt \<Rightarrow> bool" where
  "authFails env = (case tokenResult env of Inl e \<Rightarrow> isAuthenticationError e | Inr tok \<Rightarrow> False)"

definition networkDown :: attempt where
  "networkDown = attemptOf (Inr ''token'') (Inl ''Network error'') (\<lambda>u. Inl ''Network error'')"

definition accountUnknown :: attempt where
  "accountUnknown =
     attemptOf (Inl (AuthenticationError ''Account not found: a1'')) (Inl ''unused'')
       (\<lambda>u. Inl ''unused'')"

definition twoWithoutProject :: world where
  "twoWithoutProject = worldOf [acct ''a1'' None, acct ''a2'' (Some [])]"

definition twoParts :: "candidate list" where
  "twoParts = [Candidate (Some (Content (Some [Part (Some ''Hello, ''), Part (Some ''world'')])))]"

definition emptyFirstPart :: "candidate list" where
  "emptyFirstPart = [Candidate (Some (Content (Some [Part (Some []), Part (Some ''world'')])))]"

definition okWith :: "candidate list \<Rightarrow> attempt" where
  "okWith cs =
     attemptOf (Inr ''token'')
       (Inr (http 200 None (Inr \<lparr>candidates = Some cs, errorMessage = None\<rparr>)))
       (\<lambda>u. Inl ''unused'')"

text \<open>
  A candidate URL fails in an attempt when its \<^verbatim>\<open>fetch\<close> rejects or answers with a status
  of at least 500. The following attempts answer 503 with and without an error message
  in the body, and 503 at the first candidate URL followed by a success.
\<close>

definition failsAt :: "attempt \<Rightarrow> string \<Rightarrow> bool" where
  "failsAt env u = (case endpointResult env u of Inl m \<Rightarrow> True | Inr r \<Rightarrow> status r \<ge> 500)"

definition serverDown :: attempt where
  "serverDown =
     attemptOf (Inr ''token'')
       (Inr (http 503 None (Inr \<lparr>candidates = None, errorMessage = Some ''overloaded''\<rparr>)))
       (\<lambda>u. Inr (http 503 None (Inr [])))"

definition serverDownBare :: attempt where
  "serverDownBare =
     attemptOf (Inr ''token'')
       (Inr (http 503 None (Inr \<lparr>candidates = None, errorMessage = None\<rparr>)))
       (\<lambda>u. Inr (http 503 None (Inr [])))"

definition firstDownThenOk :: attempt where
  "firstDownThenOk =
     attemptOf (Inr ''token'') (Inl ''unused'')
       (\<lambda>u. if u = ''https://daily-cloudcode-pa.googleapis.com''
            then Inr (http 503 None (Inr []))
            else Inr (http 200 None (Inr ''data: {hello}'')))"

text \<open>
  Runs of two invocations of \<^verbatim>\<open>getAccessToken\<close> for the account \<^verbatim>\<open>a1\<close>, made in the same
  turn on a token manager that has cached nothing; the stored account has a refresh
  token and no access token, and all clocks read 0. \<open>refreshSteps f tok st\<close> are the
  turns of the \<^verbatim>\<open>doRefresh\<close> \<open>f\<close> when the token endpoint grants \<open>tok\<close> for an hour and
  \<^verbatim>\<open>updateAccountToken\<close> reads \<open>st\<close>.

  In \<open>bothLoadedFirst\<close> both loads settle before the first invocation goes on. In
  \<open>secondLoadedLate\<close> the load of the second invocation settles after the refresh of the
  first has ended and its entry is deleted; it delivers the file as it was when the
  load was issued, before the refresh wrote it. In \<open>firstRefreshFails\<close> the token
  endpoint cannot be reached for the first refresh, nothing is written, and the load of
  the second invocation settles after that failure.
\<close>

definition coldStorage :: accountsStorage where
  "coldStorage = storageOf [acct ''a1'' None]"

definition refreshSteps :: "nat \<Rightarrow> string \<Rightarrow> accountsStorage \<Rightarrow> signal list" where
  "refreshSteps f tok st =
     [Resume (Refresh f) 0,
      EndpointSettles f (Granted (Inr (tok, 3600))) 0,
      LoadSettles (Refresh f) (Inr st) 0 0,
      SaveSettles f None,
      Resume (Refresh f) 0]"

definition bothLoadedFirst :: "signal list" where
  "bothLoadedFirst =
     [Invoke 1 GetAccessTokenCall ''a1'' 0,
      Invoke 2 GetAccessTokenCall ''a1'' 0,
      LoadSettles (Invocation 1) (Inr coldStorage) 0 0,
      LoadSettles (Invocation 2) (Inr coldStorage) 0 0,
      Resume (Invocation 1) 0,
      Resume (Invocation 2) 0]
     @ refreshSteps 1 ''token-1'' coldStorage
     @ [Resume (Invocation 1) 0, Resume (Invocation 2) 0]"

definition secondLoadedLate :: "signal list" where
  "secondLoadedLate =
     [Invoke 1 GetAccessTokenCall ''a1'' 0,
      Invoke 2 GetAccessTokenCall ''a1'' 0,
      LoadSettles (Invocation 1) (Inr coldStorage) 0 0,
      Resume (Invocation 1) 0]
     @ refreshSteps 1 ''token-1'' coldStorage
     @ [Resume (Invocation 1) 0,
        LoadSettles (Invocation 2) (Inr coldStorage) 0 0,
        Resume (Invocation 2) 0]
     @ refreshSteps 2 ''token-2'' (storageOf [storedAcct ''a1'' ''token-1'' 3600000])
     @ [Resume (Invocation 2) 0]"

definition firstRefreshFails :: "signal list" where
  "firstRefreshFails =
     [Invoke 1 GetAccessTokenCall ''a1'' 0,
      Invoke 2 GetAccessTokenCall ''a1'' 0,
      LoadSettles (Invocation 1) (Inr coldStorage) 0 0,
      Resume (Invocation 1) 0,
      Resume (Refresh 1) 0,
      EndpointSettles 1 (FetchRejected ''Network error'') 0,
      Resume (Invocation 1) 0,
      LoadSettles (Invocation 2) (Inr coldStorage) 0 0,
      Resume (Invocation 2) 0]
     @ refreshSteps 2 ''token-2'' coldStorage
     @ [Resume (Invocation 2) 0]"

section \<open>Quota tracker: properties\<close>

lemma map_of_updateQuota:
  "getAccount accounts i = Some a \<Longrightarrow>
   map_of (updateQuota accounts i u l r qs) i = Some \<lparr>used = u, limit = l, resetAt = r\<rparr>"
  by (simp add: updateQuota_def update_conv')

text \<open>
  C9. For an account known to the directory, \<^verbatim>\<open>updateQuota(id, used, limit, resetAt)\<close>
  overwrites the stored triple whatever was stored before, and the \<^verbatim>\<open>getQuota(id)\<close> that
  follows reports \<open>percentage = used / limit * 100\<close> (100 when \<open>limit = 0\<close>) and
  \<open>isLimited = (used \<ge> limit)\<close>. In particular (80, 100) gives 80 and not limited,
  (100, 100) gives limited, and (0, 0) gives 100 and limited.
\<close>

theorem quota_arithmetic:
  assumes "getAccount accounts i = Some a"
  shows "map_of (updateQuota accounts i u l r qs) i = Some \<lparr>used = u, limit = l, resetAt = r\<rparr>
    \<and> getQuota accounts i (updateQuota accounts i u l r qs) =
        Some \<lparr>used = u, limit = l, resetAt = r, accountId = i, infoEmail = email a,
              percentage = (if l = 0 then 100 else of_int u / of_int l * 100),
              infoIsLimited = (u \<ge> l)\<rparr>
    \<and> map_option percentage (getQuota accounts i (updateQuota accounts i 80 100 r qs)) = Some 80
    \<and> map_option infoIsLimited (getQuota accounts i (updateQuota accounts i 80 100 r qs)) = Some False
    \<and> map_option infoIsLimited (getQuota accounts i (updateQuota accounts i 100 100 r qs)) = Some True
    \<and> map_option percentage (getQuota accounts i (updateQuota accounts i 0 0 r qs)) = Some 100
    \<and> map_option infoIsLimited (getQuota accounts i (updateQuota accounts i 0 0 r qs)) = Some True"
  using assms
  by (simp add: getQuota_def map_of_updateQuota buildQuotaInfo_def calculatePercentage_def
      isLimited_def)

theorem quota_arithmetic_witness:
  "getAccount [acct ''a1'' None] ''a1'' = Some (acct ''a1'' None)
   \<and> getQuota [acct ''a1'' None] ''a1'' (updateQuota [acct ''a1'' None] ''a1'' 80 100 None []) =
       Some \<lparr>used = 80, limit = 100, resetAt = None, accountId = ''a1'',
             infoEmail = ''a1@example.com'', percentage = 80, infoIsLimited = False\<rparr>"
proof -
  have h: "getAccount [acct ''a1'' None] ''a1'' = Some (acct ''a1'' None)"
    by (simp add: getAccount_def acct_def)
  from quota_arithmetic [OF h, of 80 100 None "[]"] h show ?thesis
    by (simp add: acct_def)
qed

section \<open>Token manager: properties\<close>

lemma isExpired_iff: "isExpired now e \<longleftrightarrow> now + 5 * 60 * 1000 \<ge> e"
  by (simp add: isExpired_def TOKEN_EXPIRY_BUFFER_MS_def)

lemma getAccessToken_refreshes:
  assumes cache: "\<And>c. map_of (tokenCache tm) i = Some c \<Longrightarrow> isExpired (nowCache env) (expiresAt c)"
    and acc: "getAccount_tm env i tm = (Inr (Some a), tm1)"
    and stored: "\<And>ex. accessTokenExpiry a = Some ex \<Longrightarrow> isExpired (nowStored env) ex"
  shows "getAccessToken env i tm = refreshToken_tm env i tm1"
  using assms
  by (auto simp: getAccessToken_def fromStorageOrRefresh_def split: option.splits)

lemma getAccessToken_cached:
  assumes "map_of (tokenCache tm) i = Some c" "\<not> isExpired (nowCache env) (expiresAt c)"
  shows "getAccessToken env i tm = (Inr (cachedAccessToken c), tm)"
  using assms by (simp add: getAccessToken_def)

lemma getAccessToken_stored:
  assumes "map_of (tokenCache tm) i = None"
    and "getAccount_tm env i tm = (Inr (Some a), tm1)"
    and "accessToken a = Some tok" "tok \<noteq> []" "accessTokenExpiry a = Some ex" "ex \<noteq> 0"
    and "\<not> isExpired (nowStored env) ex"
  shows "getAccessToken env i tm = (Inr tok, cacheToken i tok ex tm1)"
  using assms by (simp add: getAccessToken_def fromStorageOrRefresh_def)

lemma getAccount_tm_calls:
  "getAccount_tm env i tm = (r, tm1) \<Longrightarrow> TokenEndpointCall t \<notin> set (calls tm) \<Longrightarrow> TokenEndpointCall t \<notin> set (calls tm1)"
  by (auto simp: getAccount_tm_def logCall_def split: option.splits sum.splits)

lemma takeWhile_no_bar:
  "CHR ''|'' \<notin> set rt \<Longrightarrow> rt = takeWhile (\<lambda>c. c \<noteq> CHR ''|'') rt"
  by (induction rt) auto

lemma callTokenEndpoint_calls:
  "calls (snd (callTokenEndpoint env rt tm)) =
     calls tm @ [TokenEndpointCall (takeWhile (\<lambda>c. c \<noteq> CHR ''|'') rt)]"
  by (auto simp: callTokenEndpoint_def logCall_def Let_def takeWhile_no_bar [symmetric]
      split: tokenReply.splits sum.splits prod.splits)

lemma updateAccountToken_calls:
  "\<exists>rest. calls (snd (updateAccountToken env i tok e tm)) = calls tm @ rest"
  by (auto simp: updateAccountToken_def logCall_def Let_def
      split: sum.splits option.splits)

lemma refresh_calls_endpoint:
  assumes "getAccount_tm env i tm = (Inr (Some a), tm1)" "refreshToken a \<noteq> []"
  shows "\<exists>rest. calls (snd (refreshToken_tm env i tm1)) =
           calls tm1 @ TokenEndpointCall (takeWhile (\<lambda>c. c \<noteq> CHR ''|'') (refreshToken a)) # rest"
proof -
  have g: "getAccount_tm env i tm1 = (Inr (Some a), tm1)"
    using assms(1) by (auto simp: getAccount_tm_def logCall_def split: option.splits sum.splits)
  obtain r tm2 where c: "callTokenEndpoint env (refreshToken a) tm1 = (r, tm2)"
    by (cases "callTokenEndpoint env (refreshToken a) tm1")
  have c2: "calls tm2 = calls tm1 @ [TokenEndpointCall (takeWhile (\<lambda>c. c \<noteq> CHR ''|'') (refreshToken a))]"
    using callTokenEndpoint_calls [of env "refreshToken a" tm1] c by simp
  show ?thesis
  proof (cases r)
    case (Inl e)
    then show ?thesis using g c c2 assms(2)
      by (simp add: refreshToken_tm_def doRefresh_def)
  next
    case (Inr p)
    obtain tok ex where p: "p = (tok, ex)" by (cases p)
    obtain r3 tm3 where u: "updateAccountToken env i tok ex tm2 = (r3, tm3)"
      by (cases "updateAccountToken env i tok ex tm2")
    from updateAccountToken_calls [of env i tok ex tm2] u
    obtain rest where "calls tm3 = calls tm2 @ rest" by auto
    then show ?thesis using g c c2 assms(2) Inr p u
      by (cases r3) (auto simp: refreshToken_tm_def doRefresh_def cacheToken_def)
  qed
qed

text \<open>
  C8. A token is treated as expired exactly when \<open>now + 5 minutes \<ge> expiresAt\<close>. Hence,
  on \<^verbatim>\<open>getAccessToken\<close>: when the token of the account, in the cache and in the stored
  record, expires 4 minutes after the first clock reading (and the clock does not run
  backwards), the call continues as \<^verbatim>\<open>refreshToken\<close> and the token endpoint is called; a
  cached token that expires 10 minutes from now is returned from the cache with no change
  of state; and with no cached entry, a stored token that expires 10 minutes from now is
  returned from storage and cached, with no call of the token endpoint.
\<close>

theorem token_expiry_buffer:
  "(isExpired now e \<longleftrightarrow> now + 5 * 60 * 1000 \<ge> e)
   \<and> ((\<forall>c. map_of (tokenCache tm) i = Some c \<longrightarrow> expiresAt c = nowCache env + 4 * 60 * 1000)
        \<and> getAccount_tm env i tm = (Inr (Some a), tm1)
        \<and> (\<forall>ex. accessTokenExpiry a = Some ex \<longrightarrow> ex = nowCache env + 4 * 60 * 1000)
        \<and> nowCache env \<le> nowStored env \<and> refreshToken a \<noteq> []
      \<longrightarrow> getAccessToken env i tm = refreshToken_tm env i tm1
          \<and> (\<exists>rest. calls (snd (getAccessToken env i tm)) =
                calls tm1 @ TokenEndpointCall (takeWhile (\<lambda>c. c \<noteq> CHR ''|'') (refreshToken a)) # rest))
   \<and> (map_of (tokenCache tm) i = Some c \<and> expiresAt c = nowCache env + 10 * 60 * 1000
      \<longrightarrow> getAccessToken env i tm = (Inr (cachedAccessToken c), tm))
   \<and> (map_of (tokenCache tm) i = None
        \<and> getAccount_tm env i tm = (Inr (Some a), tm1)
        \<and> accessToken a = Some tok \<and> tok \<noteq> []
        \<and> accessTokenExpiry a = Some (nowStored env + 10 * 60 * 1000)
        \<and> 0 \<le> nowStored env
      \<longrightarrow> getAccessToken env i tm = (Inr tok, cacheToken i tok (nowStored env + 10 * 60 * 1000) tm1)
          \<and> (\<forall>t. TokenEndpointCall t \<in> set (calls (snd (getAccessToken env i tm)))
                \<longrightarrow> TokenEndpointCall t \<in> set (calls tm)))"
proof (intro conjI impI)
  show "isExpired now e \<longleftrightarrow> now + 5 * 60 * 1000 \<ge> e" by (rule isExpired_iff)
next
  assume h: "(\<forall>c. map_of (tokenCache tm) i = Some c \<longrightarrow> expiresAt c = nowCache env + 4 * 60 * 1000)
        \<and> getAccount_tm env i tm = (Inr (Some a), tm1)
        \<and> (\<forall>ex. accessTokenExpiry a = Some ex \<longrightarrow> ex = nowCache env + 4 * 60 * 1000)
        \<and> nowCache env \<le> nowStored env \<and> refreshToken a \<noteq> []"
  then show r: "getAccessToken env i tm = refreshToken_tm env i tm1"
    by (intro getAccessToken_refreshes) (auto simp: isExpired_iff)
  from h refresh_calls_endpoint [of env i tm a tm1]
  show "\<exists>rest. calls (snd (getAccessToken env i tm)) =
                calls tm1 @ TokenEndpointCall (takeWhile (\<lambda>c. c \<noteq> CHR ''|'') (refreshToken a)) # rest"
    unfolding r by blast
next
  assume "map_of (tokenCache tm) i = Some c \<and> expiresAt c = nowCache env + 10 * 60 * 1000"
  then show "getAccessToken env i tm = (Inr (cachedAccessToken c), tm)"
    by (intro getAccessToken_cached) (auto simp: isExpired_iff)
next
  assume h: "map_of (tokenCache tm) i = None
        \<and> getAccount_tm env i tm = (Inr (Some a), tm1)
        \<and> accessToken a = Some tok \<and> tok \<noteq> []
        \<and> accessTokenExpiry a = Some (nowStored env + 10 * 60 * 1000)
        \<and> 0 \<le> nowStored env"
  then show r: "getAccessToken env i tm = (Inr tok, cacheToken i tok (nowStored env + 10 * 60 * 1000) tm1)"
    by (intro getAccessToken_stored [where a = a]) (auto simp: isExpired_iff)
  show "\<forall>t. TokenEndpointCall t \<in> set (calls (snd (getAccessToken env i tm)))
                \<longrightarrow> TokenEndpointCall t \<in> set (calls tm)"
    unfolding r using h getAccount_tm_calls [of env i tm _ tm1]
    by (auto simp: cacheToken_def)
qed

theorem token_expiry_buffer_witness:
  "getAccessToken (tokenEnvAt 1000 (storageOf [storedAcct ''a1'' ''old'' 241000])) ''a1''
      (cachedManager ''a1'' ''old'' 241000)
    = refreshToken_tm (tokenEnvAt 1000 (storageOf [storedAcct ''a1'' ''old'' 241000])) ''a1''
        (cachedManager ''a1'' ''old'' 241000)
   \<and> getAccessToken (tokenEnvAt 1000 (storageOf [storedAcct ''a1'' ''old'' 601000])) ''a1''
        (cachedManager ''a1'' ''old'' 601000)
      = (Inr ''old'', cachedManager ''a1'' ''old'' 601000)
   \<and> fst (getAccessToken (tokenEnvAt 1000 (storageOf [storedAcct ''a1'' ''old'' 601000])) ''a1''
        newTokenManager) = Inr ''old''"
proof -
  let ?e4 = "tokenEnvAt 1000 (storageOf [storedAcct ''a1'' ''old'' 241000])"
  let ?e10 = "tokenEnvAt 1000 (storageOf [storedAcct ''a1'' ''old'' 601000])"
  let ?tm4 = "cachedManager ''a1'' ''old'' 241000"
  let ?tm10 = "cachedManager ''a1'' ''old'' 601000"
  let ?tmL = "logCall StorageLoad (newTokenManager\<lparr>storageCache := Some (storageOf [storedAcct ''a1'' ''old'' 601000])\<rparr>)"
  have h4: "(\<forall>c. map_of (tokenCache ?tm4) ''a1'' = Some c \<longrightarrow> expiresAt c = nowCache ?e4 + 4 * 60 * 1000)
        \<and> getAccount_tm ?e4 ''a1'' ?tm4 = (Inr (Some (storedAcct ''a1'' ''old'' 241000)), ?tm4)
        \<and> (\<forall>ex. accessTokenExpiry (storedAcct ''a1'' ''old'' 241000) = Some ex \<longrightarrow> ex = nowCache ?e4 + 4 * 60 * 1000)
        \<and> nowCache ?e4 \<le> nowStored ?e4 \<and> refreshToken (storedAcct ''a1'' ''old'' 241000) \<noteq> []"
    by (simp add: cachedManager_def tokenEnvAt_def storageOf_def storedAcct_def acct_def
        getAccount_tm_def)
  have h10: "map_of (tokenCache ?tm10) ''a1'' = Some \<lparr>cachedAccessToken = ''old'', expiresAt = 601000\<rparr>
      \<and> expiresAt \<lparr>cachedAccessToken = ''old'', expiresAt = 601000\<rparr> = nowCache ?e10 + 10 * 60 * 1000"
    by (simp add: cachedManager_def tokenEnvAt_def)
  have hs: "map_of (tokenCache newTokenManager) ''a1'' = None
        \<and> getAccount_tm ?e10 ''a1'' newTokenManager = (Inr (Some (storedAcct ''a1'' ''old'' 601000)), ?tmL)
        \<and> accessToken (storedAcct ''a1'' ''old'' 601000) = Some ''old'' \<and> ''old'' \<noteq> []
        \<and> accessTokenExpiry (storedAcct ''a1'' ''old'' 601000) = Some (nowStored ?e10 + 10 * 60 * 1000)
        \<and> 0 \<le> nowStored ?e10"
    by (simp add: newTokenManager_def tokenEnvAt_def storageOf_def storedAcct_def acct_def
        getAccount_tm_def)
  from token_expiry_buffer [where tm = ?tm4 and env = ?e4 and i = "''a1''"
      and a = "storedAcct ''a1'' ''old'' 241000" and ?tm1.0 = ?tm4] h4
  have r4: "getAccessToken ?e4 ''a1'' ?tm4 = refreshToken_tm ?e4 ''a1'' ?tm4" by blast
  from token_expiry_buffer [where tm = ?tm10 and env = ?e10 and i = "''a1''"
      and c = "\<lparr>cachedAccessToken = ''old'', expiresAt = 601000\<rparr>"] h10
  have r10: "getAccessToken ?e10 ''a1'' ?tm10 = (Inr ''old'', ?tm10)" by simp
  from token_expiry_buffer [where tm = newTokenManager and env = ?e10 and i = "''a1''"
      and a = "storedAcct ''a1'' ''old'' 601000" and ?tm1.0 = ?tmL and tok = "''old''"] hs
  have rs: "fst (getAccessToken ?e10 ''a1'' newTokenManager) = Inr ''old''" by simp
  from r4 r10 rs show ?thesis by blast
qed

section \<open>Rotator: properties\<close>

lemma limitedAt_delete:
  "map_of rl k = Some t \<Longrightarrow> now \<ge> t \<Longrightarrow> limitedAt now (AList.delete k rl) i = limitedAt now rl i"
  by (simp add: limitedAt_def delete_conv)

lemma filterAvailable_fst:
  "fst (filterAvailable now accs rl) = filter (\<lambda>a. \<not> limitedAt now rl (accId a)) accs"
proof (induction accs arbitrary: rl)
  case Nil
  then show ?case by simp
next
  case (Cons a accs)
  show ?case
  proof (cases "map_of rl (accId a)")
    case None
    then show ?thesis using Cons [of rl]
      by (auto simp: limitedAt_def split: prod.splits)
  next
    case (Some t)
    show ?thesis
    proof (cases "now \<ge> t")
      case True
      with Some Cons [of "AList.delete (accId a) rl"] show ?thesis
        by (auto simp: limitedAt_delete [OF Some True] split: prod.splits)
          (auto simp: limitedAt_def)
    next
      case False
      with Some Cons [of rl] show ?thesis
        by (auto simp: limitedAt_def)
    qed
  qed
qed

lemma filterAvailable_map_of:
  "map_of (snd (filterAvailable now accs rl)) i =
     (if i \<in> accId ` set accs \<and> \<not> limitedAt now rl i then None else map_of rl i)"
proof (induction accs arbitrary: rl)
  case Nil
  then show ?case by simp
next
  case (Cons a accs)
  show ?case
  proof (cases "map_of rl (accId a)")
    case None
    then show ?thesis using Cons [of rl]
      by (auto simp: limitedAt_def split: prod.splits)
  next
    case (Some t)
    show ?thesis
    proof (cases "now \<ge> t")
      case True
      with Some Cons [of "AList.delete (accId a) rl"] show ?thesis
        by (auto simp: limitedAt_delete [OF Some True] delete_conv split: prod.splits)
          (auto simp: limitedAt_def)
    next
      case False
      with Some Cons [of rl] show ?thesis
        by (auto simp: limitedAt_def)
    qed
  qed
qed

lemma filterAvailable_all_limited:
  "\<forall>a\<in>set accs. limitedAt now rl (accId a) \<Longrightarrow> filterAvailable now accs rl = ([], rl)"
  by (induction accs arbitrary: rl) (auto simp: limitedAt_def split: option.splits)


lemma scanAccounts_finds:
  assumes "0 < length accs" "j < k"
    and "accId (accs ! ((c + j) mod length accs)) \<in> set ids"
    and "\<forall>j'<j. accId (accs ! ((c + j') mod length accs)) \<notin> set ids"
  shows "scanAccounts k accs ids c =
           (Some (accs ! ((c + j) mod length accs)), (c + j + 1) mod length accs)"
  using assms
proof (induction k arbitrary: c j)
  case 0
  then show ?case by simp
next
  case (Suc k)
  show ?case
  proof (cases j)
    case 0
    with Suc.prems show ?thesis by (simp add: Let_def)
  next
    case (Suc j0)
    have nothere: "accId (accs ! (c mod length accs)) \<notin> set ids"
      using Suc.prems(4) Suc by (metis add.right_neutral zero_less_Suc)
    have shift: "(Suc c mod length accs + x) mod length accs = Suc (c + x) mod length accs" for x
      by (metis add_Suc mod_add_left_eq)
    have "scanAccounts k accs ids (Suc c mod length accs) =
            (Some (accs ! ((Suc c mod length accs + j0) mod length accs)),
             (Suc c mod length accs + j0 + 1) mod length accs)"
    proof (rule Suc.IH)
      show "0 < length accs" by fact
      show "j0 < k" using Suc.prems(2) Suc by simp
      show "accId (accs ! ((Suc c mod length accs + j0) mod length accs)) \<in> set ids"
        using Suc.prems(3) Suc by (simp add: shift)
      show "\<forall>j'<j0. accId (accs ! ((Suc c mod length accs + j') mod length accs)) \<notin> set ids"
        using Suc.prems(4) Suc by (auto simp: shift)
    qed
    moreover have "(Suc c mod length accs + j0 + 1) mod length accs = (c + j + 1) mod length accs"
      using shift [of "Suc j0"] Suc by simp
    moreover have "(Suc c mod length accs + j0) mod length accs = (c + j) mod length accs"
      using shift [of j0] Suc by simp
    ultimately have "scanAccounts k accs ids (Suc c mod length accs) =
            (Some (accs ! ((c + j) mod length accs)), (c + j + 1) mod length accs)"
      by simp
    then show ?thesis using nothere Suc.prems(1)
      by (simp add: Let_def)
  qed
qed

lemma cover_positions:
  assumes "p < (n::nat)"
  shows "\<exists>j<n. (c + j) mod n = p"
proof -
  let ?j = "(p + (n - c mod n)) mod n"
  have "?j < n" using assms by simp
  moreover have "(c + ?j) mod n = p"
  proof -
    have "(c + ?j) mod n = (c mod n + (p + (n - c mod n))) mod n"
      by (simp add: mod_add_eq mod_add_right_eq mod_add_left_eq)
    also have "c mod n + (p + (n - c mod n)) = p + n"
    proof -
      have "c mod n < n" using assms by simp
      then show ?thesis by arith
    qed
    also have "(p + n) mod n = p" using assms by simp
    finally show ?thesis .
  qed
  ultimately show ?thesis by blast
qed

lemma getNextAccount_scan:
  assumes ex: "\<exists>a\<in>set accs. \<not> limitedAt now (rateLimits r) (accId a)"
  shows "\<exists>j<length accs.
           getNextAccount now now' accs r =
             (Inr (accs ! ((currentIndex r + j) mod length accs)),
              r\<lparr>rateLimits := snd (filterAvailable now accs (rateLimits r)),
                currentIndex := (currentIndex r + j + 1) mod length accs\<rparr>)
         \<and> \<not> limitedAt now (rateLimits r) (accId (accs ! ((currentIndex r + j) mod length accs)))
         \<and> (\<forall>j'<j. limitedAt now (rateLimits r)
                      (accId (accs ! ((currentIndex r + j') mod length accs))))"
proof -
  let ?n = "length accs" and ?c = "currentIndex r" and ?rl = "rateLimits r"
  let ?av = "filter (\<lambda>a. \<not> limitedAt now ?rl (accId a)) accs"
  let ?ids = "map accId ?av"
  let ?P = "\<lambda>j. j < ?n \<and> \<not> limitedAt now ?rl (accId (accs ! ((?c + j) mod ?n)))"
  from ex obtain p where p: "p < ?n" "\<not> limitedAt now ?rl (accId (accs ! p))"
    by (auto simp: in_set_conv_nth)
  then have npos: "0 < ?n" by auto
  from cover_positions [OF p(1), of ?c] obtain j0 where "j0 < ?n" "(?c + j0) mod ?n = p" by blast
  with p have "?P j0" by simp
  then obtain j where j: "?P j" "\<forall>j'<j. \<not> ?P j'"
    using exists_least_iff [of ?P] by blast
  have ids: "accId (accs ! q) \<in> set ?ids \<longleftrightarrow> \<not> limitedAt now ?rl (accId (accs ! q))" if "q < ?n" for q
    using that by (auto simp: image_iff) (metis nth_mem)
  have lt: "(?c + x) mod ?n < ?n" for x using npos by simp
  have in1: "accId (accs ! ((?c + j) mod ?n)) \<in> set ?ids"
    using j(1) ids [OF lt [of j]] by blast
  have in2: "\<forall>j'<j. accId (accs ! ((?c + j') mod ?n)) \<notin> set ?ids"
  proof (intro allI impI)
    fix j' assume "j' < j"
    then have "limitedAt now ?rl (accId (accs ! ((?c + j') mod ?n)))"
      using j by auto
    then show "accId (accs ! ((?c + j') mod ?n)) \<notin> set ?ids"
      using ids [OF lt [of j']] by blast
  qed
  have av: "?av \<noteq> []" using ex by (auto simp: filter_empty_conv)
  have scan: "scanAccounts ?n accs ?ids ?c = (Some (accs ! ((?c + j) mod ?n)), (?c + j + 1) mod ?n)"
    using scanAccounts_finds [OF npos _ in1 in2] j(1) by simp
  have fa: "filterAvailable now accs ?rl = (?av, snd (filterAvailable now accs ?rl))"
    using filterAvailable_fst [of now accs ?rl] by (metis prod.collapse)
  have "getNextAccount now now' accs r =
             (Inr (accs ! ((?c + j) mod ?n)),
              r\<lparr>rateLimits := snd (filterAvailable now accs ?rl),
                currentIndex := (?c + j + 1) mod ?n\<rparr>)"
    unfolding getNextAccount_def getAvailableAccounts_def
    using av scan by (subst fa) simp
  moreover have "\<forall>j'<j. limitedAt now ?rl (accId (accs ! ((?c + j') mod ?n)))"
    using j by auto
  ultimately show ?thesis using j(1) by blast
qed


lemma getNextAccount_none_limited:
  assumes "accs \<noteq> []" "\<forall>a\<in>set accs. \<not> limitedAt now (rateLimits r) (accId a)"
  shows "getNextAccount now now' accs r =
           (Inr (accs ! (currentIndex r mod length accs)),
            r\<lparr>rateLimits := snd (filterAvailable now accs (rateLimits r)),
              currentIndex := (currentIndex r + 1) mod length accs\<rparr>)"
proof -
  from assms have "\<exists>a\<in>set accs. \<not> limitedAt now (rateLimits r) (accId a)"
    by (cases accs) auto
  from getNextAccount_scan [OF this, of now'] obtain j where j: "j < length accs"
    "getNextAccount now now' accs r =
             (Inr (accs ! ((currentIndex r + j) mod length accs)),
              r\<lparr>rateLimits := snd (filterAvailable now accs (rateLimits r)),
                currentIndex := (currentIndex r + j + 1) mod length accs\<rparr>)"
    "\<forall>j'<j. limitedAt now (rateLimits r)
                      (accId (accs ! ((currentIndex r + j') mod length accs)))"
    by blast
  have "j = 0"
  proof (rule ccontr)
    assume "j \<noteq> 0"
    then have "limitedAt now (rateLimits r) (accId (accs ! ((currentIndex r + 0) mod length accs)))"
      using j(3) by blast
    moreover have "accs ! ((currentIndex r + 0) mod length accs) \<in> set accs"
      using assms(1) by simp
    ultimately show False using assms(2) by blast
  qed
  with j(2) show ?thesis by simp
qed

lemma limitedAt_purged:
  "limitedAt t (snd (filterAvailable now accs rl)) i \<Longrightarrow> limitedAt t rl i"
  by (simp add: limitedAt_def filterAvailable_map_of split: if_splits)

lemma nextAccounts_round_robin:
  assumes "accs \<noteq> []"
    and "\<forall>t\<in>set ts. \<forall>a\<in>set accs. \<not> limitedAt (fst t) (rateLimits r) (accId a)"
  shows "length (fst (nextAccounts ts accs r)) = length ts
       \<and> (\<forall>k<length ts. fst (nextAccounts ts accs r) ! k
              = Inr (accs ! ((currentIndex r + k) mod length accs)))"
  using assms(2)
proof (induction ts arbitrary: r)
  case Nil
  then show ?case by simp
next
  case (Cons t ts)
  obtain now now' where t: "t = (now, now')" by (cases t)
  let ?r1 = "r\<lparr>rateLimits := snd (filterAvailable now accs (rateLimits r)),
              currentIndex := (currentIndex r + 1) mod length accs\<rparr>"
  have g: "getNextAccount now now' accs r = (Inr (accs ! (currentIndex r mod length accs)), ?r1)"
    using Cons.prems t by (intro getNextAccount_none_limited [OF assms(1)]) simp
  have "\<forall>t\<in>set ts. \<forall>a\<in>set accs. \<not> limitedAt (fst t) (rateLimits ?r1) (accId a)"
    using Cons.prems by (auto dest: limitedAt_purged)
  from Cons.IH [OF this]
  have ih: "length (fst (nextAccounts ts accs ?r1)) = length ts"
    "\<And>k. k < length ts \<Longrightarrow> fst (nextAccounts ts accs ?r1) ! k
              = Inr (accs ! (((currentIndex r + 1) mod length accs + k) mod length accs))"
    by auto
  have eq: "fst (nextAccounts (t # ts) accs r) =
          Inr (accs ! (currentIndex r mod length accs)) # fst (nextAccounts ts accs ?r1)"
    using g t by (simp split: prod.splits)
  show ?case
  proof (intro conjI allI impI)
    show "length (fst (nextAccounts (t # ts) accs r)) = length (t # ts)"
      using eq ih(1) by simp
  next
    fix k assume k: "k < length (t # ts)"
    show "fst (nextAccounts (t # ts) accs r) ! k = Inr (accs ! ((currentIndex r + k) mod length accs))"
    proof (cases k)
      case 0
      then show ?thesis using eq by simp
    next
      case (Suc k0)
      then have "k0 < length ts" using k by simp
      from ih(2) [OF this] show ?thesis using eq Suc
        by (simp add: mod_add_left_eq)
    qed
  qed
qed

lemma earliestOf_Some:
  "earliestOf rl (Some e) = Some (Min (insert e (snd ` set rl)))"
proof (induction rl arbitrary: e)
  case Nil
  then show ?case by simp
next
  case (Cons x rl)
  obtain k t where x: "x = (k, t)" by (cases x)
  have m: "Min (insert (min t e) (snd ` set rl)) = Min (insert e (insert t (snd ` set rl)))"
    by (cases "snd ` set rl = {}") (simp_all add: min.assoc min.commute min.left_commute)
  have "earliestOf (x # rl) (Some e) = earliestOf rl (Some (min t e))"
    using x by (auto simp: min_def)
  also have "\<dots> = Some (Min (insert (min t e) (snd ` set rl)))"
    by (rule Cons)
  also have "\<dots> = Some (Min (insert e (snd ` set (x # rl))))"
    using m x by simp
  finally show ?case .
qed

lemma earliestOf_None:
  "earliestOf rl None = (if rl = [] then None else Some (Min (snd ` set rl)))"
proof (cases rl)
  case Nil
  then show ?thesis by simp
next
  case (Cons x rl')
  obtain k t where x: "x = (k, t)" by (cases x)
  show ?thesis using Cons x by (simp add: earliestOf_Some)
qed


lemma getNextAccount_all_limited:
  assumes "\<forall>a\<in>set accs. limitedAt now (rateLimits r) (accId a)"
  shows "getNextAccount now now' accs r =
           (Inl (AllAccountsRateLimitedError (getEarliestRetryTime now' r)), r)"
  using filterAvailable_all_limited [OF assms]
  by (simp add: getNextAccount_def getAvailableAccounts_def)

lemma entries_are_waits:
  assumes all: "\<forall>a\<in>set accs. limitedAt now rl (accId a)"
    and dist: "distinct (map fst rl)"
    and sub: "fst ` set rl \<subseteq> accId ` set accs"
  shows "(\<lambda>t. t - now') ` snd ` set rl = waitOf now' rl ` set accs"
proof (intro set_eqI iffI)
  fix w assume "w \<in> (\<lambda>t. t - now') ` snd ` set rl"
  then obtain k t where kt: "(k, t) \<in> set rl" "w = t - now'" by auto
  with sub obtain a where a: "a \<in> set accs" "accId a = k" by force
  from kt(1) dist have "map_of rl k = Some t" by simp
  with a kt(2) have "waitOf now' rl a = w" by (simp add: waitOf_def)
  with a(1) show "w \<in> waitOf now' rl ` set accs" by blast
next
  fix w assume "w \<in> waitOf now' rl ` set accs"
  then obtain a where a: "a \<in> set accs" "w = waitOf now' rl a" by auto
  with all obtain t where t: "map_of rl (accId a) = Some t"
    by (auto simp: limitedAt_def split: option.splits)
  then have "(accId a, t) \<in> set rl" by (rule map_of_SomeD)
  moreover have "w = t - now'" using a(2) t by (simp add: waitOf_def)
  ultimately show "w \<in> (\<lambda>t. t - now') ` snd ` set rl" by force
qed

lemma getEarliestRetryTime_hint:
  assumes all: "\<forall>a\<in>set accs. limitedAt now (rateLimits r) (accId a)"
    and dist: "distinct (map fst (rateLimits r))"
    and sub: "fst ` set (rateLimits r) \<subseteq> accId ` set accs"
  shows "getEarliestRetryTime now' r =
           (if accs = [] then 0 else max 0 (Min (waitOf now' (rateLimits r) ` set accs)))"
proof (cases "accs = []")
  case True
  with sub have "rateLimits r = []" by simp
  with True show ?thesis by (simp add: getEarliestRetryTime_def)
next
  case False
  then obtain a where "a \<in> set accs" by (cases accs) auto
  with all have ne: "rateLimits r \<noteq> []"
    by (auto simp: limitedAt_def split: option.splits)
  then have ne': "snd ` set (rateLimits r) \<noteq> {}" by simp
  have "mono (\<lambda>t::int. t - now')" by (simp add: mono_def)
  from mono_Min_commute [OF this _ ne']
  have "Min (snd ` set (rateLimits r)) - now' = Min ((\<lambda>t. t - now') ` snd ` set (rateLimits r))"
    by simp
  also have "\<dots> = Min (waitOf now' (rateLimits r) ` set accs)"
    using entries_are_waits [OF all dist sub] by simp
  finally show ?thesis using False ne
    by (simp add: getEarliestRetryTime_def earliestOf_None)
qed

lemma waits_positive:
  assumes "accs \<noteq> []" "\<forall>a\<in>set accs. limitedAt now' rl (accId a)"
  shows "0 < Min (waitOf now' rl ` set accs)"
proof -
  have "\<forall>a\<in>set accs. 0 < waitOf now' rl a"
    using assms(2) by (auto simp: limitedAt_def waitOf_def split: option.splits)
  then show ?thesis using assms(1) by simp
qed

text \<open>
  The part of the contract of \<^verbatim>\<open>getNextAccount\<close> that the code meets. When at least one
  account is not rate-limited, \<^verbatim>\<open>getNextAccount\<close> scans
  fewer than \<open>length accs\<close> further positions from the cursor over the full list, moves
  the cursor past the position it stops at, and returns the first account that is not
  limited; so for \<open>N\<close> accounts with none limited, \<open>N\<close> consecutive calls return each
  account once, in rotation order from the cursor, and the next call returns the first
  of them again. When every account is limited and every entry of the rate-limit map
  belongs to an account of the list, it throws the all-accounts-limited error whose
  retry hint is the minimum of \<^verbatim>\<open>availableAt - now\<close> over the accounts, \<open>now\<close> being the
  clock reading of \<^verbatim>\<open>getEarliestRetryTime\<close> (the clamp at 0 changes nothing while the
  accounts are still limited at that reading), and 0 when the list is empty.
\<close>

lemma rotator_next_contract:
  "((\<exists>a\<in>set accs. \<not> limitedAt now (rateLimits r) (accId a)) \<longrightarrow>
      (\<exists>j<length accs.
           getNextAccount now now' accs r =
             (Inr (accs ! ((currentIndex r + j) mod length accs)),
              r\<lparr>rateLimits := snd (filterAvailable now accs (rateLimits r)),
                currentIndex := (currentIndex r + j + 1) mod length accs\<rparr>)
         \<and> \<not> limitedAt now (rateLimits r) (accId (accs ! ((currentIndex r + j) mod length accs)))
         \<and> (\<forall>j'<j. limitedAt now (rateLimits r)
                      (accId (accs ! ((currentIndex r + j') mod length accs))))))
   \<and> (accs \<noteq> [] \<and> length ts = length accs + 1
        \<and> (\<forall>t\<in>set ts. \<forall>a\<in>set accs. \<not> limitedAt (fst t) (rateLimits r) (accId a)) \<longrightarrow>
        take (length accs) (fst (nextAccounts ts accs r)) = map Inr (rotate (currentIndex r) accs)
      \<and> fst (nextAccounts ts accs r) ! length accs = fst (nextAccounts ts accs r) ! 0)
   \<and> ((\<forall>a\<in>set accs. limitedAt now (rateLimits r) (accId a))
        \<and> distinct (map fst (rateLimits r))
        \<and> fst ` set (rateLimits r) \<subseteq> accId ` set accs \<longrightarrow>
        getNextAccount now now' accs r =
          (Inl (AllAccountsRateLimitedError
                 (if accs = [] then 0 else max 0 (Min (waitOf now' (rateLimits r) ` set accs)))), r)
      \<and> (accs \<noteq> [] \<and> (\<forall>a\<in>set accs. limitedAt now' (rateLimits r) (accId a)) \<longrightarrow>
           max 0 (Min (waitOf now' (rateLimits r) ` set accs))
             = Min (waitOf now' (rateLimits r) ` set accs)))"
proof (intro conjI impI)
  assume "\<exists>a\<in>set accs. \<not> limitedAt now (rateLimits r) (accId a)"
  then show "\<exists>j<length accs.
           getNextAccount now now' accs r =
             (Inr (accs ! ((currentIndex r + j) mod length accs)),
              r\<lparr>rateLimits := snd (filterAvailable now accs (rateLimits r)),
                currentIndex := (currentIndex r + j + 1) mod length accs\<rparr>)
         \<and> \<not> limitedAt now (rateLimits r) (accId (accs ! ((currentIndex r + j) mod length accs)))
         \<and> (\<forall>j'<j. limitedAt now (rateLimits r)
                      (accId (accs ! ((currentIndex r + j') mod length accs))))"
    by (rule getNextAccount_scan)
next
  assume h: "accs \<noteq> [] \<and> length ts = length accs + 1
        \<and> (\<forall>t\<in>set ts. \<forall>a\<in>set accs. \<not> limitedAt (fst t) (rateLimits r) (accId a))"
  let ?res = "fst (nextAccounts ts accs r)"
  from h nextAccounts_round_robin [of accs ts r]
  have len: "length ?res = length accs + 1"
    and nth: "\<And>k. k < length accs + 1 \<Longrightarrow> ?res ! k = Inr (accs ! ((currentIndex r + k) mod length accs))"
    by auto
  show "take (length accs) ?res = map Inr (rotate (currentIndex r) accs)"
  proof (rule nth_equalityI)
    show "length (take (length accs) ?res) = length (map Inr (rotate (currentIndex r) accs))"
      using len by simp
  next
    fix k assume "k < length (take (length accs) ?res)"
    then have k: "k < length accs" by simp
    then show "take (length accs) ?res ! k = map Inr (rotate (currentIndex r) accs) ! k"
      using nth [of k] by (simp add: nth_rotate)
  qed
  show "?res ! length accs = ?res ! 0"
    using nth [of "length accs"] nth [of 0] by simp
next
  assume h: "(\<forall>a\<in>set accs. limitedAt now (rateLimits r) (accId a))
        \<and> distinct (map fst (rateLimits r))
        \<and> fst ` set (rateLimits r) \<subseteq> accId ` set accs"
  then show "getNextAccount now now' accs r =
          (Inl (AllAccountsRateLimitedError
                 (if accs = [] then 0 else max 0 (Min (waitOf now' (rateLimits r) ` set accs)))), r)"
    using getNextAccount_all_limited [of accs now r now']
      getEarliestRetryTime_hint [of accs now r now'] by simp
next
  assume "accs \<noteq> [] \<and> (\<forall>a\<in>set accs. limitedAt now' (rateLimits r) (accId a))"
  then show "max 0 (Min (waitOf now' (rateLimits r) ` set accs))
             = Min (waitOf now' (rateLimits r) ` set accs)"
    using waits_positive [of accs now' "rateLimits r"] by simp
qed


lemma rotator_next_contract_example:
  "(\<exists>a\<in>set threeAccounts. \<not> limitedAt 0 (rateLimits (rotatorWith [(''a1'', 5000)])) (accId a))
   \<and> (\<exists>j<3. fst (getNextAccount 0 0 threeAccounts (rotatorWith [(''a1'', 5000)]))
               = Inr (threeAccounts ! (j mod 3))
            \<and> \<not> limitedAt 0 [(''a1'', 5000)] (accId (threeAccounts ! (j mod 3))))
   \<and> take 3 (fst (nextAccounts [(0, 0), (1, 1), (2, 2), (3, 3)] threeAccounts newRotator))
       = map Inr threeAccounts
   \<and> fst (nextAccounts [(0, 0), (1, 1), (2, 2), (3, 3)] threeAccounts newRotator) ! 3
       = fst (nextAccounts [(0, 0), (1, 1), (2, 2), (3, 3)] threeAccounts newRotator) ! 0
   \<and> fst (getNextAccount 1000 1000 threeAccounts
            (rotatorWith [(''a1'', 5000), (''a2'', 3000), (''a3'', 9000)]))
       = Inl (AllAccountsRateLimitedError 2000)"
proof -
  let ?r1 = "rotatorWith [(''a1'', 5000)]"
  let ?r3 = "rotatorWith [(''a1'', 5000), (''a2'', 3000), (''a3'', 9000)]"
  let ?ts = "[(0, 0), (1, 1), (2, 2), (3, 3)] :: (int \<times> int) list"
  have h1: "\<exists>a\<in>set threeAccounts. \<not> limitedAt 0 (rateLimits ?r1) (accId a)"
    by (simp add: threeAccounts_def rotatorWith_def limitedAt_def acct_def)
  have len: "length threeAccounts = 3" "threeAccounts \<noteq> []"
    by (simp_all add: threeAccounts_def)
  have r1: "currentIndex ?r1 = 0" "rateLimits ?r1 = [(''a1'', 5000)]"
    by (simp_all add: rotatorWith_def)
  from rotator_next_contract [where accs = threeAccounts and now = 0 and r = ?r1 and now' = 0,
      THEN conjunct1, rule_format, OF h1]
  obtain j where j: "j < length threeAccounts"
      "getNextAccount 0 0 threeAccounts ?r1 =
         (Inr (threeAccounts ! ((currentIndex ?r1 + j) mod length threeAccounts)),
          ?r1\<lparr>rateLimits := snd (filterAvailable 0 threeAccounts (rateLimits ?r1)),
               currentIndex := (currentIndex ?r1 + j + 1) mod length threeAccounts\<rparr>)"
      "\<not> limitedAt 0 (rateLimits ?r1)
          (accId (threeAccounts ! ((currentIndex ?r1 + j) mod length threeAccounts)))"
    by blast
  have c1: "\<exists>j<3. fst (getNextAccount 0 0 threeAccounts ?r1) = Inr (threeAccounts ! (j mod 3))
            \<and> \<not> limitedAt 0 [(''a1'', 5000)] (accId (threeAccounts ! (j mod 3)))"
    using j unfolding len r1 by (intro exI [of _ j]) simp
  have h2: "threeAccounts \<noteq> [] \<and> length ?ts = length threeAccounts + 1
        \<and> (\<forall>t\<in>set ?ts. \<forall>a\<in>set threeAccounts. \<not> limitedAt (fst t) (rateLimits newRotator) (accId a))"
    by (simp add: threeAccounts_def newRotator_def limitedAt_def)
  have r0: "currentIndex newRotator = 0" by (simp add: newRotator_def)
  from rotator_next_contract [where accs = threeAccounts and r = newRotator and ts = ?ts,
      THEN conjunct2, THEN conjunct1, rule_format, OF h2]
  have c2: "take 3 (fst (nextAccounts ?ts threeAccounts newRotator)) = map Inr threeAccounts
      \<and> fst (nextAccounts ?ts threeAccounts newRotator) ! 3 = fst (nextAccounts ?ts threeAccounts newRotator) ! 0"
    unfolding len r0 by simp
  have h3: "(\<forall>a\<in>set threeAccounts. limitedAt 1000 (rateLimits ?r3) (accId a))
        \<and> distinct (map fst (rateLimits ?r3))
        \<and> fst ` set (rateLimits ?r3) \<subseteq> accId ` set threeAccounts"
    by (simp add: threeAccounts_def rotatorWith_def limitedAt_def acct_def)
  have w: "Min (waitOf 1000 (rateLimits ?r3) ` set threeAccounts) = 2000"
    by (simp add: threeAccounts_def rotatorWith_def waitOf_def acct_def)
  from rotator_next_contract [where accs = threeAccounts and now = 1000 and r = ?r3 and now' = 1000,
      THEN conjunct2, THEN conjunct2, rule_format, OF h3, THEN conjunct1]
  have c3: "fst (getNextAccount 1000 1000 threeAccounts ?r3) = Inl (AllAccountsRateLimitedError 2000)"
    unfolding w using len(2) by simp
  from h1 c1 c2 c3 show ?thesis by blast
qed

text \<open>
  C5. The retry hint of the all-accounts-limited error is computed over every entry of
  the rate-limit map, and an entry outlives its account: \<^verbatim>\<open>removeAccount\<close> does not touch
  the map. After the only account was marked for 5000 ms and removed, the list is empty
  and \<^verbatim>\<open>getNextAccount\<close> at instant 1000 raises the error with the hint 4000, not 0.
  After two accounts were marked for 5000 and 1000 ms and the second was removed, every
  listed account is limited, the least wait of a listed account is 5000 ms, and the hint
  at instant 0 is 1000.
\<close>

theorem rotator_hint_after_removal:
  "fst markedThenRemoved = []
   \<and> rateLimits (snd markedThenRemoved) = [(''a1'', 5000)]
   \<and> fst (getNextAccount 1000 1000 (fst markedThenRemoved) (snd markedThenRemoved))
       = Inl (AllAccountsRateLimitedError 4000)
   \<and> map accId (fst twoMarkedOneRemoved) = [''a1'']
   \<and> rateLimits (snd twoMarkedOneRemoved) = [(''a1'', 5000), (''a2'', 1000)]
   \<and> map (limitedAt 0 (rateLimits (snd twoMarkedOneRemoved)) \<circ> accId) (fst twoMarkedOneRemoved)
       = [True]
   \<and> map (waitOf 0 (rateLimits (snd twoMarkedOneRemoved))) (fst twoMarkedOneRemoved) = [5000]
   \<and> fst (getNextAccount 0 0 (fst twoMarkedOneRemoved) (snd twoMarkedOneRemoved))
       = Inl (AllAccountsRateLimitedError 1000)"
  by (simp add: markedThenRemoved_def twoMarkedOneRemoved_def markRateLimited_def removeAccount_def
      newRotator_def updateAccountStatus_def getNextAccount_def getAvailableAccounts_def
      getEarliestRetryTime_def limitedAt_def waitOf_def acct_def Let_def)

section \<open>API client: properties\<close>

lemma marksOf_append [simp]: "marksOf (xs @ ys) = marksOf xs @ marksOf ys"
  by (induction xs rule: marksOf.induct) auto

lemma delaysOf_append [simp]: "delaysOf (xs @ ys) = delaysOf xs @ delaysOf ys"
  by (induction xs rule: delaysOf.induct) auto

lemma fetchesOf_append [simp]: "fetchesOf (xs @ ys) = fetchesOf xs @ fetchesOf ys"
  by (induction xs rule: fetchesOf.induct) auto

lemma incrementsOf_append [simp]: "incrementsOf (xs @ ys) = incrementsOf xs @ incrementsOf ys"
  by (induction xs rule: incrementsOf.induct) auto

lemma emit_fields [simp]:
  "events (emit e w) = events w @ [e]"
  "directory (emit e w) = directory w"
  "rotatorState (emit e w) = rotatorState w"
  "quotaState (emit e w) = quotaState w"
  by (simp_all add: emit_def)

lemma trackerIncrement_fields [simp]:
  "events (trackerIncrement i w) = events w @ [IncrementUsage i]"
  "directory (trackerIncrement i w) = directory w"
  "rotatorState (trackerIncrement i w) = rotatorState w"
  "quotaState (trackerIncrement i w) = incrementUsage i (quotaState w)"
  by (simp_all add: trackerIncrement_def)

lemma delayFn_fields [simp]:
  "events (delayFn ms w) = events w @ [Delay ms]"
  "directory (delayFn ms w) = directory w"
  "rotatorState (delayFn ms w) = rotatorState w"
  "quotaState (delayFn ms w) = quotaState w"
  by (simp_all add: delayFn_def)

lemma rotatorMark_fields [simp]:
  "events (rotatorMark now now' i ms w) = events w @ [MarkRateLimited i ms]"
  "rateLimits (rotatorState (rotatorMark now now' i ms w))
     = AList.update i (now + ms) (rateLimits (rotatorState w))"
  "currentIndex (rotatorState (rotatorMark now now' i ms w)) = currentIndex (rotatorState w)"
  "quotaState (rotatorMark now now' i ms w) = quotaState w"
  by (simp_all add: rotatorMark_def markRateLimited_def Let_def split: sum.splits prod.splits)

text \<open>What the inner loop leaves untouched, and what it logs.\<close>

lemma tryEndpoints_pass:
  "passedOver env u \<Longrightarrow>
     tryEndpoints jp (u # urls) env a tok cnt ms w =
       tryEndpoints jp urls env a tok
         (if is429 env u then cnt + 1 else cnt)
         (if is429 env u then max ms (retryAfterMsOf (projr (endpointResult env u))) else ms)
         (emit (Fetch (antigravityUrl u) tok) w)"
  by (auto simp: passedOver_def is429_def Let_def isl_def split: sum.splits)

lemma tryEndpoints_halt:
  "\<not> passedOver env u \<Longrightarrow>
     (\<exists>e. tryEndpoints jp (u # urls) env a tok cnt ms w =
            (EThrown e, cnt, ms, emit (Fetch (antigravityUrl u) tok) w))
   \<or> (\<exists>t. tryEndpoints jp (u # urls) env a tok cnt ms w =
            (EReturned t, cnt, ms,
             trackerIncrement (accId a) (emit (Fetch (antigravityUrl u) tok) w)))"
  by (auto simp: passedOver_def Let_def split: sum.splits)

lemma tryEndpoints_frame:
  "tryEndpoints jp urls env a tok cnt ms w = (out, cnt', ms', w') \<Longrightarrow>
     directory w' = directory w \<and> rotatorState w' = rotatorState w
     \<and> marksOf (events w') = marksOf (events w)
     \<and> delaysOf (events w') = delaysOf (events w)
     \<and> (\<exists>k\<le>length urls. fetchesOf (events w') = fetchesOf (events w) @ map antigravityUrl (take k urls))"
proof (induction urls arbitrary: cnt ms w)
  case Nil
  then show ?case by auto
next
  case (Cons u urls)
  let ?w1 = "emit (Fetch (antigravityUrl u) tok) w"
  show ?case
  proof (cases "passedOver env u")
    case True
    from Cons.prems tryEndpoints_pass [OF True, of jp urls a tok cnt ms w]
    obtain c m where "tryEndpoints jp urls env a tok c m ?w1 = (out, cnt', ms', w')" by metis
    from Cons.IH [OF this] obtain k where "k \<le> length urls"
      "directory w' = directory w" "rotatorState w' = rotatorState w"
      "marksOf (events w') = marksOf (events w)" "delaysOf (events w') = delaysOf (events w)"
      "fetchesOf (events w') = fetchesOf (events w) @ antigravityUrl u # map antigravityUrl (take k urls)"
      by auto
    then show ?thesis by (auto intro!: exI [of _ "Suc k"])
  next
    case False
    from tryEndpoints_halt [OF False, of jp urls a tok cnt ms w] Cons.prems
    have "w' = ?w1 \<or> w' = trackerIncrement (accId a) ?w1" by auto
    then show ?thesis by (auto intro!: exI [of _ 1])
  qed
qed

lemma tryEndpoints_count:
  "tryEndpoints jp urls env a tok cnt ms w = (EExhausted, cnt', ms', w') \<Longrightarrow>
     cnt' = cnt + length (filter (is429 env) urls)"
proof (induction urls arbitrary: cnt ms w)
  case Nil
  then show ?case by simp
next
  case (Cons u urls)
  from Cons.prems show ?case
    by (auto simp: Let_def is429_def split: sum.splits if_splits dest!: Cons.IH)
qed

lemma lastRetryMs_Cons:
  "lastRetryMs env (u # us) ms = lastRetryMs env us (max ms (retryAfterOf env u))"
proof -
  have "Max (insert ms (insert (retryAfterOf env u) (retryAfterOf env ` set us)))
      = Max (insert (max ms (retryAfterOf env u)) (retryAfterOf env ` set us))"
    by (cases "retryAfterOf env ` set us = {}") (simp_all add: max.assoc)
  then show ?thesis by (simp add: lastRetryMs_def)
qed

lemma tryEndpoints_all429:
  "\<forall>u\<in>set urls. is429 env u \<Longrightarrow>
     \<exists>w'. tryEndpoints jp urls env a tok cnt ms w
            = (EExhausted, cnt + length urls, lastRetryMs env urls ms, w')"
proof (induction urls arbitrary: cnt ms w)
  case Nil
  then show ?case by (simp add: lastRetryMs_def)
next
  case (Cons u urls)
  then obtain r where r: "endpointResult env u = Inr r" "status r = 429"
    by (auto simp: is429_def split: sum.splits)
  then have ra: "retryAfterOf env u = retryAfterMsOf r" by (simp add: retryAfterOf_def)
  from Cons.prems have "\<forall>u\<in>set urls. is429 env u" by simp
  from Cons.IH [OF this, of "cnt + 1" "max ms (retryAfterMsOf r)" "emit (Fetch (antigravityUrl u) tok) w"]
  show ?case using r by (auto simp: Let_def lastRetryMs_Cons ra)
qed

lemma filter_all_iff: "length (filter P xs) = length xs \<longleftrightarrow> (\<forall>x\<in>set xs. P x)"
proof (induction xs)
  case Nil
  then show ?case by simp
next
  case (Cons x xs)
  have "length (filter P xs) \<le> length xs" by simp
  then have "length (filter P xs) \<noteq> Suc (length xs)" by arith
  with Cons show ?case by (cases "P x") auto
qed

lemma tryEndpoints_passed:
  assumes "\<forall>v\<in>set pre. passedOver env v" "succeedsWith jp env u t"
  shows "\<exists>c m w1. tryEndpoints jp (pre @ u # post) env a tok cnt ms w
           = (EReturned t, c, m, trackerIncrement (accId a) w1)
         \<and> directory w1 = directory w \<and> rotatorState w1 = rotatorState w
         \<and> quotaState w1 = quotaState w
         \<and> marksOf (events w1) = marksOf (events w)
         \<and> delaysOf (events w1) = delaysOf (events w)
         \<and> incrementsOf (events w1) = incrementsOf (events w)"
  using assms(1)
proof (induction pre arbitrary: cnt ms w)
  case Nil
  from assms(2) show ?case
    by (auto simp: succeedsWith_def ok_def Let_def split: sum.splits)
next
  case (Cons v pre)
  let ?w1 = "emit (Fetch (antigravityUrl v) tok) w"
  from Cons.prems have pv: "passedOver env v" and rest: "\<forall>v\<in>set pre. passedOver env v" by simp_all
  from tryEndpoints_pass [OF pv, of jp "pre @ u # post" a tok cnt ms w] obtain c m where
    "tryEndpoints jp ((v # pre) @ u # post) env a tok cnt ms w
       = tryEndpoints jp (pre @ u # post) env a tok c m ?w1" by auto
  with Cons.IH [OF rest, of c m ?w1] show ?case by auto
qed


lemma catchBlock_frame:
  "catchBlock e rs w = (out, rs', w') \<Longrightarrow>
     directory w' = directory w \<and> rotatorState w' = rotatorState w \<and> quotaState w' = quotaState w
     \<and> marksOf (events w') = marksOf (events w)
     \<and> fetchesOf (events w') = fetchesOf (events w)
     \<and> incrementsOf (events w') = incrementsOf (events w)"
  by (auto simp: catchBlock_def Let_def split: if_splits)

lemma length_urls [simp]: "length ANTIGRAVITY_API_BASE_URLS = 3"
  by (simp add: ANTIGRAVITY_API_BASE_URLS_def)

lemma antigravityTry_all429:
  assumes tok: "tokenResult env = Inr tok"
    and all: "\<forall>u\<in>set ANTIGRAVITY_API_BASE_URLS. is429 env u"
  shows "\<exists>w1. directory w1 = directory w \<and> rotatorState w1 = rotatorState w
          \<and> marksOf (events w1) = marksOf (events w)
          \<and> delaysOf (events w1) = delaysOf (events w)
          \<and> antigravityTry jp env a rs w =
              (Retry,
               \<lparr>networkRetryCount = networkRetryCount rs + 1,
                lastError = Some (ApiError ''All Antigravity endpoints failed'' NoDetails)\<rparr>,
               (if networkRetryCount rs + 1 \<le> MAX_RETRIES
                then delayFn (getBackoffDelay (networkRetryCount rs + 1))
                else (\<lambda>w. w))
                 (rotatorMark (markAt env) (statusAt env) (accId a)
                    (lastRetryMs env ANTIGRAVITY_API_BASE_URLS DEFAULT_RATE_LIMIT_MS) w1))"
proof -
  from tryEndpoints_all429 [OF all, of jp a tok 0 DEFAULT_RATE_LIMIT_MS w]
  obtain w1 where t: "tryEndpoints jp ANTIGRAVITY_API_BASE_URLS env a tok 0 DEFAULT_RATE_LIMIT_MS w
       = (EExhausted, 3, lastRetryMs env ANTIGRAVITY_API_BASE_URLS DEFAULT_RATE_LIMIT_MS, w1)"
    by auto
  from tryEndpoints_frame [OF t]
  have "directory w1 = directory w \<and> rotatorState w1 = rotatorState w
          \<and> marksOf (events w1) = marksOf (events w)
          \<and> delaysOf (events w1) = delaysOf (events w)" by blast
  moreover have "antigravityTry jp env a rs w =
              (Retry,
               \<lparr>networkRetryCount = networkRetryCount rs + 1,
                lastError = Some (ApiError ''All Antigravity endpoints failed'' NoDetails)\<rparr>,
               (if networkRetryCount rs + 1 \<le> MAX_RETRIES
                then delayFn (getBackoffDelay (networkRetryCount rs + 1))
                else (\<lambda>w. w))
                 (rotatorMark (markAt env) (statusAt env) (accId a)
                    (lastRetryMs env ANTIGRAVITY_API_BASE_URLS DEFAULT_RATE_LIMIT_MS) w1))"
    using tok t by (simp add: antigravityTry_def Let_def)
  ultimately show ?thesis by blast
qed

lemma antigravityTry_not_all429:
  assumes tok: "tokenResult env = Inr tok"
    and notall: "\<not> (\<forall>u\<in>set ANTIGRAVITY_API_BASE_URLS. is429 env u)"
    and res: "antigravityTry jp env a rs w = (out, rs', w')"
  shows "directory w' = directory w \<and> rotatorState w' = rotatorState w
       \<and> marksOf (events w') = marksOf (events w)"
proof -
  obtain o1 cnt ms w1 where
    t: "tryEndpoints jp ANTIGRAVITY_API_BASE_URLS env a tok 0 DEFAULT_RATE_LIMIT_MS w = (o1, cnt, ms, w1)"
    by (metis prod_cases4)
  note f = tryEndpoints_frame [OF t]
  show ?thesis
  proof (cases o1)
    case (EReturned x)
    with tok t res f show ?thesis by (auto simp: antigravityTry_def)
  next
    case (EThrown e)
    with tok t res have "catchBlock e rs w1 = (out, rs', w')" by (simp add: antigravityTry_def)
    from catchBlock_frame [OF this] f show ?thesis by simp
  next
    case EExhausted
    with t tryEndpoints_count have "cnt = length (filter (is429 env) ANTIGRAVITY_API_BASE_URLS)"
      by fastforce
    with notall filter_all_iff [of "is429 env" ANTIGRAVITY_API_BASE_URLS]
    have "cnt \<noteq> 3" by simp
    with tok t res EExhausted f show ?thesis
      by (auto simp: antigravityTry_def Let_def split: if_splits)
  qed
qed

lemma antigravityTry_fetches:
  assumes tok: "tokenResult env = Inr tok"
  shows "\<exists>k\<le>3. fetchesOf (events (snd (snd (antigravityTry jp env a rs w))))
            = fetchesOf (events w) @ map antigravityUrl (take k ANTIGRAVITY_API_BASE_URLS)"
proof -
  obtain o1 cnt ms w1 where
    t: "tryEndpoints jp ANTIGRAVITY_API_BASE_URLS env a tok 0 DEFAULT_RATE_LIMIT_MS w = (o1, cnt, ms, w1)"
    by (metis prod_cases4)
  from tryEndpoints_frame [OF t] obtain k where k: "k \<le> 3"
    "fetchesOf (events w1) = fetchesOf (events w) @ map antigravityUrl (take k ANTIGRAVITY_API_BASE_URLS)"
    by auto
  have "fetchesOf (events (snd (snd (antigravityTry jp env a rs w)))) = fetchesOf (events w1)"
  proof (cases o1)
    case (EReturned x)
    with tok t show ?thesis by (simp add: antigravityTry_def)
  next
    case (EThrown e)
    obtain out rs' w' where c: "catchBlock e rs w1 = (out, rs', w')" by (metis prod_cases3)
    with tok t EThrown catchBlock_frame [OF c] show ?thesis by (simp add: antigravityTry_def)
  next
    case EExhausted
    with tok t show ?thesis by (simp add: antigravityTry_def Let_def)
  qed
  with k show ?thesis by auto
qed

lemma antigravityTry_success:
  assumes tok: "tokenResult env = Inr tok"
    and urls: "ANTIGRAVITY_API_BASE_URLS = pre @ u # post"
    and pre: "\<forall>v\<in>set pre. passedOver env v"
    and suc: "succeedsWith jp env u t"
  shows "\<exists>w'. antigravityTry jp env a rs w = (Returned t, rs, w')
          \<and> directory w' = directory w \<and> rotatorState w' = rotatorState w
          \<and> quotaState w' = incrementUsage (accId a) (quotaState w)
          \<and> marksOf (events w') = marksOf (events w)
          \<and> delaysOf (events w') = delaysOf (events w)
          \<and> incrementsOf (events w') = incrementsOf (events w) @ [accId a]"
proof -
  from tryEndpoints_passed [OF pre suc, of post a tok 0 DEFAULT_RATE_LIMIT_MS w]
  obtain c m w1 where t: "tryEndpoints jp (pre @ u # post) env a tok 0 DEFAULT_RATE_LIMIT_MS w
           = (EReturned t, c, m, trackerIncrement (accId a) w1)"
     and f: "directory w1 = directory w" "rotatorState w1 = rotatorState w"
         "quotaState w1 = quotaState w"
         "marksOf (events w1) = marksOf (events w)"
         "delaysOf (events w1) = delaysOf (events w)"
         "incrementsOf (events w1) = incrementsOf (events w)"
    by blast
  have "antigravityTry jp env a rs w = (Returned t, rs, trackerIncrement (accId a) w1)"
    using tok t urls by (simp add: antigravityTry_def)
  with f show ?thesis by simp
qed

text \<open>
  C4. In an attempt of the extended family that reaches the candidate URLs, the URLs are
  fetched in the order of the list, a prefix of it; the account is marked rate-limited
  exactly when every candidate URL answered 429; and when a candidate answered 429 and a
  later candidate, reached after candidates that were all passed over, succeeds with a
  non-empty text, that text is returned, the usage of the account is incremented and the
  account is not marked.
\<close>

theorem extended_all_429_rule:
  assumes "tokenResult env = Inr tok"
  shows "((\<forall>u\<in>set ANTIGRAVITY_API_BASE_URLS. is429 env u) \<longrightarrow>
           marksOf (events (snd (snd (antigravityTry jsonParse env a rs w))))
             = marksOf (events w)
               @ [(accId a, lastRetryMs env ANTIGRAVITY_API_BASE_URLS DEFAULT_RATE_LIMIT_MS)]
         \<and> map_of (rateLimits (rotatorState (snd (snd (antigravityTry jsonParse env a rs w)))))
               (accId a)
             = Some (markAt env + lastRetryMs env ANTIGRAVITY_API_BASE_URLS DEFAULT_RATE_LIMIT_MS))
       \<and> (\<not> (\<forall>u\<in>set ANTIGRAVITY_API_BASE_URLS. is429 env u) \<longrightarrow>
           marksOf (events (snd (snd (antigravityTry jsonParse env a rs w)))) = marksOf (events w)
         \<and> rotatorState (snd (snd (antigravityTry jsonParse env a rs w))) = rotatorState w
         \<and> directory (snd (snd (antigravityTry jsonParse env a rs w))) = directory w)
       \<and> (\<exists>k\<le>3. fetchesOf (events (snd (snd (antigravityTry jsonParse env a rs w))))
                   = fetchesOf (events w) @ map antigravityUrl (take k ANTIGRAVITY_API_BASE_URLS))
       \<and> (ANTIGRAVITY_API_BASE_URLS = pre @ u # post
            \<and> (\<exists>v\<in>set pre. is429 env v) \<and> (\<forall>v\<in>set pre. passedOver env v)
            \<and> succeedsWith jsonParse env u t \<longrightarrow>
           fst (antigravityTry jsonParse env a rs w) = Returned t
         \<and> marksOf (events (snd (snd (antigravityTry jsonParse env a rs w)))) = marksOf (events w)
         \<and> rotatorState (snd (snd (antigravityTry jsonParse env a rs w))) = rotatorState w
         \<and> incrementsOf (events (snd (snd (antigravityTry jsonParse env a rs w))))
             = incrementsOf (events w) @ [accId a])"
proof (intro conjI impI)
  assume all: "\<forall>u\<in>set ANTIGRAVITY_API_BASE_URLS. is429 env u"
  from antigravityTry_all429 [OF assms all, of w jsonParse a rs]
  obtain w1 where w1: "directory w1 = directory w" "rotatorState w1 = rotatorState w"
      "marksOf (events w1) = marksOf (events w)"
      "antigravityTry jsonParse env a rs w =
              (Retry,
               \<lparr>networkRetryCount = networkRetryCount rs + 1,
                lastError = Some (ApiError ''All Antigravity endpoints failed'' NoDetails)\<rparr>,
               (if networkRetryCount rs + 1 \<le> MAX_RETRIES
                then delayFn (getBackoffDelay (networkRetryCount rs + 1))
                else (\<lambda>w. w))
                 (rotatorMark (markAt env) (statusAt env) (accId a)
                    (lastRetryMs env ANTIGRAVITY_API_BASE_URLS DEFAULT_RATE_LIMIT_MS) w1))"
    by blast
  show "marksOf (events (snd (snd (antigravityTry jsonParse env a rs w))))
             = marksOf (events w)
               @ [(accId a, lastRetryMs env ANTIGRAVITY_API_BASE_URLS DEFAULT_RATE_LIMIT_MS)]"
    using w1 by simp
  show "map_of (rateLimits (rotatorState (snd (snd (antigravityTry jsonParse env a rs w)))))
               (accId a)
             = Some (markAt env + lastRetryMs env ANTIGRAVITY_API_BASE_URLS DEFAULT_RATE_LIMIT_MS)"
    using w1 by (simp add: update_conv')
next
  assume n: "\<not> (\<forall>u\<in>set ANTIGRAVITY_API_BASE_URLS. is429 env u)"
  from antigravityTry_not_all429 [OF assms n, of jsonParse a rs w]
  show "marksOf (events (snd (snd (antigravityTry jsonParse env a rs w)))) = marksOf (events w)"
    and "rotatorState (snd (snd (antigravityTry jsonParse env a rs w))) = rotatorState w"
    and "directory (snd (snd (antigravityTry jsonParse env a rs w))) = directory w"
    by (metis prod.collapse)+
next
  show "\<exists>k\<le>3. fetchesOf (events (snd (snd (antigravityTry jsonParse env a rs w))))
                   = fetchesOf (events w) @ map antigravityUrl (take k ANTIGRAVITY_API_BASE_URLS)"
    by (rule antigravityTry_fetches [OF assms])
next
  assume h: "ANTIGRAVITY_API_BASE_URLS = pre @ u # post
            \<and> (\<exists>v\<in>set pre. is429 env v) \<and> (\<forall>v\<in>set pre. passedOver env v)
            \<and> succeedsWith jsonParse env u t"
  from antigravityTry_success [of env tok pre u post jsonParse t a rs w] assms h
  obtain w' where w': "antigravityTry jsonParse env a rs w = (Returned t, rs, w')"
          "rotatorState w' = rotatorState w"
          "marksOf (events w') = marksOf (events w)"
          "incrementsOf (events w') = incrementsOf (events w) @ [accId a]"
    by blast
  show "fst (antigravityTry jsonParse env a rs w) = Returned t"
    and "marksOf (events (snd (snd (antigravityTry jsonParse env a rs w)))) = marksOf (events w)"
    and "rotatorState (snd (snd (antigravityTry jsonParse env a rs w))) = rotatorState w"
    and "incrementsOf (events (snd (snd (antigravityTry jsonParse env a rs w))))
             = incrementsOf (events w) @ [accId a]"
    using w' by simp_all
qed

lemma parse_demo: "parseAntigravitySSEResponse demoParse ''data: {hello}'' = ''Hello, world''"
  by (simp add: parseAntigravitySSEResponse_def sseLineText_def trim_def isSpace_def demoParse_def
      textOfParts_def Let_def)

theorem extended_all_429_rule_witness:
  "tokenResult firstLimitedThenOk = Inr ''token''
   \<and> fst (antigravityTry demoParse firstLimitedThenOk (acct ''a1'' (Some ''p1'')) initialRetry
             (worldOf [acct ''a1'' (Some ''p1'')])) = Returned ''Hello, world''
   \<and> marksOf (events (snd (snd (antigravityTry demoParse firstLimitedThenOk
             (acct ''a1'' (Some ''p1'')) initialRetry (worldOf [acct ''a1'' (Some ''p1'')]))))) = []
   \<and> tokenResult allLimited = Inr ''token''
   \<and> list_all (is429 allLimited) ANTIGRAVITY_API_BASE_URLS
   \<and> marksOf (events (snd (snd (antigravityTry demoParse allLimited
             (acct ''a1'' (Some ''p1'')) initialRetry (worldOf [acct ''a1'' (Some ''p1'')])))))
       = [(''a1'', 60000)]"
proof -
  let ?a = "acct ''a1'' (Some ''p1'')"
  let ?w = "worldOf [?a]"
  have t1: "tokenResult firstLimitedThenOk = Inr ''token''"
    by (simp add: firstLimitedThenOk_def attemptOf_def)
  have h1: "ANTIGRAVITY_API_BASE_URLS
              = [''https://daily-cloudcode-pa.googleapis.com'']
                @ ''https://cloudcode-pa.googleapis.com''
                # [''https://daily-cloudcode-pa.sandbox.googleapis.com'']
            \<and> (\<exists>v\<in>set [''https://daily-cloudcode-pa.googleapis.com'']. is429 firstLimitedThenOk v)
            \<and> (\<forall>v\<in>set [''https://daily-cloudcode-pa.googleapis.com'']. passedOver firstLimitedThenOk v)
            \<and> succeedsWith demoParse firstLimitedThenOk ''https://cloudcode-pa.googleapis.com''
                 ''Hello, world''"
    by (simp add: ANTIGRAVITY_API_BASE_URLS_def is429_def passedOver_def succeedsWith_def
        firstLimitedThenOk_def attemptOf_def http_def ok_def parse_demo)
  from extended_all_429_rule [OF t1, where pre = "[''https://daily-cloudcode-pa.googleapis.com'']"
      and u = "''https://cloudcode-pa.googleapis.com''"
      and post = "[''https://daily-cloudcode-pa.sandbox.googleapis.com'']"
      and jsonParse = demoParse and t = "''Hello, world''" and a = ?a and rs = initialRetry
      and w = ?w] h1
  have c1: "fst (antigravityTry demoParse firstLimitedThenOk ?a initialRetry ?w) = Returned ''Hello, world''
     \<and> marksOf (events (snd (snd (antigravityTry demoParse firstLimitedThenOk ?a initialRetry ?w))))
        = marksOf (events ?w)"
    by blast
  have t2: "tokenResult allLimited = Inr ''token''"
    by (simp add: allLimited_def attemptOf_def)
  have h2: "\<forall>u\<in>set ANTIGRAVITY_API_BASE_URLS. is429 allLimited u"
    by (simp add: is429_def allLimited_def attemptOf_def http_def)
  have ms: "lastRetryMs allLimited ANTIGRAVITY_API_BASE_URLS DEFAULT_RATE_LIMIT_MS = 60000"
    by (simp add: lastRetryMs_def retryAfterOf_def ANTIGRAVITY_API_BASE_URLS_def allLimited_def
        attemptOf_def http_def retryAfterMsOf_def DEFAULT_RATE_LIMIT_MS_def)
  from extended_all_429_rule [OF t2, where jsonParse = demoParse and a = ?a
      and rs = initialRetry and w = ?w] h2
  have c2: "marksOf (events (snd (snd (antigravityTry demoParse allLimited ?a initialRetry ?w))))
             = marksOf (events ?w) @ [(accId ?a, lastRetryMs allLimited ANTIGRAVITY_API_BASE_URLS DEFAULT_RATE_LIMIT_MS)]"
    by blast
  have e: "marksOf (events ?w) = []" "accId ?a = ''a1''"
    by (simp_all add: worldOf_def acct_def)
  from t1 c1 t2 h2 c2 show ?thesis unfolding ms e by (simp add: list_all_iff)
qed

lemma standardTry_429:
  assumes "tokenResult env = Inr tok" "fetchResult env = Inr r" "status r = 429"
  shows "standardTry model env a rs w =
           (Retry, rs,
            rotatorMark (markAt env) (statusAt env) (accId a)
              (case retryAfterHeader r of Some secs \<Rightarrow> int secs * 1000 | None \<Rightarrow> 60000)
              (emit (Fetch (standardUrl model) tok) w))"
  using assms
  by (simp add: standardTry_def Let_def retryAfterMsOf_def DEFAULT_RATE_LIMIT_MS_def
      split: option.splits)

text \<open>
  C3, as amended. In the standard family, an attempt that receives a 429 passes the
  seconds of \<^verbatim>\<open>Retry-After\<close> times 1000 (60000 when the header is absent) to
  \<^verbatim>\<open>markRateLimited\<close> for the serving account, and the loop goes on to the next account
  selection with the retry counter unchanged and without a delay. In the extended
  family a 429 of one candidate URL only moves on to the next candidate: the account is
  marked when every candidate URL of the attempt answered 429, with the largest of 60000
  and the candidates' \<^verbatim>\<open>Retry-After\<close> values in milliseconds, and is not marked otherwise.
\<close>

theorem rate_limit_handling:
  "(tokenResult env = Inr tok \<and> fetchResult env = Inr r \<and> status r = 429 \<longrightarrow>
      standardTry model env a rs w =
        (Retry, rs,
         rotatorMark (markAt env) (statusAt env) (accId a)
           (case retryAfterHeader r of Some secs \<Rightarrow> int secs * 1000 | None \<Rightarrow> 60000)
           (emit (Fetch (standardUrl model) tok) w))
    \<and> marksOf (events (snd (snd (standardTry model env a rs w))))
        = marksOf (events w)
          @ [(accId a, case retryAfterHeader r of Some secs \<Rightarrow> int secs * 1000 | None \<Rightarrow> 60000)]
    \<and> delaysOf (events (snd (snd (standardTry model env a rs w)))) = delaysOf (events w)
    \<and> map_of (rateLimits (rotatorState (snd (snd (standardTry model env a rs w))))) (accId a)
        = Some (markAt env
                + (case retryAfterHeader r of Some secs \<Rightarrow> int secs * 1000 | None \<Rightarrow> 60000))
    \<and> (networkRetryCount rs \<le> MAX_RETRIES \<and> selectAccount env w0 = (Inr a, w) \<longrightarrow>
         standardLoop model (env # envs) rs w0
           = standardLoop model envs rs (snd (snd (standardTry model env a rs w)))))
   \<and> (tokenResult env = Inr tok \<longrightarrow>
        ((\<forall>u\<in>set ANTIGRAVITY_API_BASE_URLS. is429 env u) \<longrightarrow>
           marksOf (events (snd (snd (antigravityTry jsonParse env a rs w))))
             = marksOf (events w)
               @ [(accId a, Max (insert 60000 (retryAfterOf env ` set ANTIGRAVITY_API_BASE_URLS)))])
      \<and> (\<not> (\<forall>u\<in>set ANTIGRAVITY_API_BASE_URLS. is429 env u) \<longrightarrow>
           marksOf (events (snd (snd (antigravityTry jsonParse env a rs w)))) = marksOf (events w)))"
proof (intro conjI impI)
  assume h: "tokenResult env = Inr tok \<and> fetchResult env = Inr r \<and> status r = 429"
  then have s: "standardTry model env a rs w =
        (Retry, rs,
         rotatorMark (markAt env) (statusAt env) (accId a)
           (case retryAfterHeader r of Some secs \<Rightarrow> int secs * 1000 | None \<Rightarrow> 60000)
           (emit (Fetch (standardUrl model) tok) w))"
    by (intro standardTry_429) simp_all
  then show "standardTry model env a rs w =
        (Retry, rs,
         rotatorMark (markAt env) (statusAt env) (accId a)
           (case retryAfterHeader r of Some secs \<Rightarrow> int secs * 1000 | None \<Rightarrow> 60000)
           (emit (Fetch (standardUrl model) tok) w))" .
  show "marksOf (events (snd (snd (standardTry model env a rs w))))
        = marksOf (events w)
          @ [(accId a, case retryAfterHeader r of Some secs \<Rightarrow> int secs * 1000 | None \<Rightarrow> 60000)]"
    unfolding s by simp
  show "delaysOf (events (snd (snd (standardTry model env a rs w)))) = delaysOf (events w)"
    unfolding s by simp
  show "map_of (rateLimits (rotatorState (snd (snd (standardTry model env a rs w))))) (accId a)
        = Some (markAt env
                + (case retryAfterHeader r of Some secs \<Rightarrow> int secs * 1000 | None \<Rightarrow> 60000))"
    unfolding s by (simp add: update_conv')
  assume "networkRetryCount rs \<le> MAX_RETRIES \<and> selectAccount env w0 = (Inr a, w)"
  then show "standardLoop model (env # envs) rs w0
           = standardLoop model envs rs (snd (snd (standardTry model env a rs w)))"
    using s by simp
next
  assume t: "tokenResult env = Inr tok"
  {
    assume all: "\<forall>u\<in>set ANTIGRAVITY_API_BASE_URLS. is429 env u"
    from antigravityTry_all429 [OF t all, of w jsonParse a rs]
    show "marksOf (events (snd (snd (antigravityTry jsonParse env a rs w))))
             = marksOf (events w)
               @ [(accId a, Max (insert 60000 (retryAfterOf env ` set ANTIGRAVITY_API_BASE_URLS)))]"
      by (auto simp: lastRetryMs_def DEFAULT_RATE_LIMIT_MS_def)
  }
  {
    assume n: "\<not> (\<forall>u\<in>set ANTIGRAVITY_API_BASE_URLS. is429 env u)"
    from antigravityTry_not_all429 [OF t n, of jsonParse a rs w]
    show "marksOf (events (snd (snd (antigravityTry jsonParse env a rs w)))) = marksOf (events w)"
      by (metis prod.collapse)
  }
qed

text \<open>
  In the extended family, when all three candidates answer 429 with
  \<^verbatim>\<open>Retry-After: 30\<close>, the account is marked for 60000 ms, not 30000, the retry counter
  becomes 1 and the backoff delay of 1000 ms is waited; and a 429 of the first candidate
  followed by a success of the second marks nothing.
\<close>

theorem rate_limit_handling_counterexample:
  "map (is429 allLimited) ANTIGRAVITY_API_BASE_URLS = [True, True, True]
   \<and> map (retryAfterOf allLimited) ANTIGRAVITY_API_BASE_URLS = [30 * 1000, 30 * 1000, 30 * 1000]
   \<and> marksOf (events (snd (snd (antigravityTry demoParse allLimited (acct ''a1'' (Some ''p1''))
        initialRetry (worldOf [acct ''a1'' (Some ''p1'')])))))
       = [(''a1'', 60000)]
   \<and> networkRetryCount (fst (snd (antigravityTry demoParse allLimited (acct ''a1'' (Some ''p1''))
        initialRetry (worldOf [acct ''a1'' (Some ''p1'')])))) = 1
   \<and> delaysOf (events (snd (snd (antigravityTry demoParse allLimited (acct ''a1'' (Some ''p1''))
        initialRetry (worldOf [acct ''a1'' (Some ''p1'')])))))
       = [1000]
   \<and> is429 firstLimitedThenOk ''https://daily-cloudcode-pa.googleapis.com''
   \<and> marksOf (events (snd (snd (antigravityTry demoParse firstLimitedThenOk
        (acct ''a1'' (Some ''p1'')) initialRetry (worldOf [acct ''a1'' (Some ''p1'')]))))) = []"
  by (simp add: antigravityTry_def ANTIGRAVITY_API_BASE_URLS_def allLimited_def
      firstLimitedThenOk_def attemptOf_def http_def is429_def retryAfterOf_def retryAfterMsOf_def
      DEFAULT_RATE_LIMIT_MS_def initialRetry_def worldOf_def acct_def MAX_RETRIES_def
      getBackoffDelay_def BASE_RETRY_DELAY_MS_def Let_def ok_def parse_demo)

lemma select_single:
  "selectAccount limitedStd (worldOf [acct ''a1'' None]) = (Inr (acct ''a1'' None), worldOf [acct ''a1'' None])"
  by (simp add: selectAccount_def getNextAccount_def getAvailableAccounts_def worldOf_def
      newRotator_def limitedStd_def attemptOf_def acct_def)

theorem rate_limit_handling_witness:
  "tokenResult limitedStd = Inr ''token''
   \<and> fetchResult limitedStd
       = Inr (http 429 (Some 60) (Inr \<lparr>candidates = None, errorMessage = Some ''Rate limited''\<rparr>))
   \<and> marksOf (events (snd (snd (standardTry ''gemini-2.5-flash'' limitedStd (acct ''a1'' None)
         initialRetry (worldOf [acct ''a1'' None])))))
       = [(''a1'', 60000)]
   \<and> standardLoop ''gemini-2.5-flash'' [limitedStd] initialRetry (worldOf [acct ''a1'' None])
       = standardLoop ''gemini-2.5-flash'' [] initialRetry
           (snd (snd (standardTry ''gemini-2.5-flash'' limitedStd (acct ''a1'' None)
              initialRetry (worldOf [acct ''a1'' None]))))
   \<and> marksOf (events (snd (snd (antigravityTry demoParse allLimited (acct ''a1'' (Some ''p1''))
         initialRetry (worldOf [acct ''a1'' (Some ''p1'')])))))
       = [(''a1'', Max (insert 60000 (retryAfterOf allLimited ` set ANTIGRAVITY_API_BASE_URLS)))]"
proof -
  let ?r = "http 429 (Some 60) (Inr \<lparr>candidates = None, errorMessage = Some ''Rate limited''\<rparr>)"
  let ?a = "acct ''a1'' None" and ?b = "acct ''a1'' (Some ''p1'')"
  have h1: "tokenResult limitedStd = Inr ''token'' \<and> fetchResult limitedStd = Inr ?r \<and> status ?r = 429"
    by (simp add: limitedStd_def attemptOf_def http_def)
  have h2: "networkRetryCount initialRetry \<le> MAX_RETRIES
      \<and> selectAccount limitedStd (worldOf [?a]) = (Inr ?a, worldOf [?a])"
    by (simp add: initialRetry_def select_single)
  note std = rate_limit_handling [where env = limitedStd and tok = "''token''" and r = ?r
      and model = "''gemini-2.5-flash''" and a = ?a and rs = initialRetry and w = "worldOf [?a]"
      and ?w0.0 = "worldOf [?a]" and envs = "[]", THEN conjunct1, rule_format, OF h1]
  from std have c1: "marksOf (events (snd (snd (standardTry ''gemini-2.5-flash'' limitedStd ?a
         initialRetry (worldOf [?a]))))) = [(''a1'', 60000)]"
    by (simp add: http_def worldOf_def acct_def)
  from std h2 have c2: "standardLoop ''gemini-2.5-flash'' [limitedStd] initialRetry (worldOf [?a])
       = standardLoop ''gemini-2.5-flash'' [] initialRetry
           (snd (snd (standardTry ''gemini-2.5-flash'' limitedStd ?a initialRetry (worldOf [?a]))))"
    by blast
  have t2: "tokenResult allLimited = Inr ''token''"
    by (simp add: allLimited_def attemptOf_def)
  have h3: "\<forall>u\<in>set ANTIGRAVITY_API_BASE_URLS. is429 allLimited u"
    by (simp add: is429_def allLimited_def attemptOf_def http_def)
  from rate_limit_handling [where env = allLimited and tok = "''token''" and jsonParse = demoParse
      and a = ?b and rs = initialRetry and w = "worldOf [?b]", THEN conjunct2, THEN mp, OF t2,
      THEN conjunct1, THEN mp, OF h3]
  have c3: "marksOf (events (snd (snd (antigravityTry demoParse allLimited ?b initialRetry (worldOf [?b])))))
       = [(''a1'', Max (insert 60000 (retryAfterOf allLimited ` set ANTIGRAVITY_API_BASE_URLS)))]"
    by (simp add: worldOf_def acct_def)
  from h1 c1 c2 c3 show ?thesis by blast
qed

lemma filterAvailable_none:
  "list_all (\<lambda>a. map_of rl (accId a) = None) accs \<Longrightarrow> filterAvailable now accs rl = (accs, rl)"
  by (induction accs) auto

lemma select_allAvailable:
  assumes "allAvailable w"
  shows "\<exists>a w0. selectAccount env w = (Inr a, w0) \<and> a \<in> set (directory w)
           \<and> directory w0 = directory w
           \<and> rateLimits (rotatorState w0) = rateLimits (rotatorState w)
           \<and> quotaState w0 = quotaState w \<and> events w0 = events w"
proof -
  let ?accs = "directory w" and ?r = "rotatorState w"
  from assms have ne: "?accs \<noteq> []"
    and none: "list_all (\<lambda>a. map_of (rateLimits ?r) (accId a) = None) ?accs"
    by (simp_all add: allAvailable_def)
  from none have "\<forall>a\<in>set ?accs. \<not> limitedAt (selectAt env) (rateLimits ?r) (accId a)"
    by (simp add: list_all_iff limitedAt_def)
  from getNextAccount_none_limited [OF ne this, of "hintAt env"] filterAvailable_none [OF none]
  have "getNextAccount (selectAt env) (hintAt env) ?accs ?r =
          (Inr (?accs ! (currentIndex ?r mod length ?accs)),
           ?r\<lparr>currentIndex := (currentIndex ?r + 1) mod length ?accs\<rparr>)"
    by simp
  moreover have "?accs ! (currentIndex ?r mod length ?accs) \<in> set ?accs"
    using ne by simp
  ultimately show ?thesis by (simp add: selectAccount_def)
qed

lemma allAvailable_cong:
  "allAvailable w \<Longrightarrow> directory w' = directory w \<Longrightarrow>
   rateLimits (rotatorState w') = rateLimits (rotatorState w) \<Longrightarrow> allAvailable w'"
  by (simp add: allAvailable_def)

lemma standardLoop_exhausted:
  "\<not> networkRetryCount rs \<le> MAX_RETRIES \<Longrightarrow>
     standardLoop model envs rs w =
       Some (Inl (ApiError (''Request failed after 3 retries: '' @ lastMessage rs) (RetriesDetail 3)), w)"
  by (cases envs) (simp_all add: MAX_RETRIES_def showNat.simps)

lemma lastMessage_recorded:
  "lastMessage \<lparr>networkRetryCount = n, lastError = Some e\<rparr> = messageOrUnknown e"
  by (simp add: lastMessage_def messageOrUnknown_def)

lemma standardTry_retryable:
  assumes "retryableStd env"
  shows "\<exists>w'. directory w' = directory w \<and> rotatorState w' = rotatorState w
          \<and> marksOf (events w') = marksOf (events w)
          \<and> fetchesOf (events w') = fetchesOf (events w)
               @ (if isl (tokenResult env) then [] else [standardUrl model])
          \<and> (if networkRetryCount rs + 1 \<le> MAX_RETRIES
              then standardTry model env a rs w =
                     (Retry, \<lparr>networkRetryCount = networkRetryCount rs + 1,
                              lastError = Some (recordedStd env)\<rparr>, w')
                   \<and> delaysOf (events w') = delaysOf (events w)
                        @ [getBackoffDelay (networkRetryCount rs + 1)]
              else delaysOf (events w') = delaysOf (events w)
                   \<and> (standardTry model env a rs w =
                        (Retry, \<lparr>networkRetryCount = networkRetryCount rs + 1,
                                 lastError = Some (recordedStd env)\<rparr>, w')
                        \<and> exhaustedStd env =
                            ApiError (''Request failed after 3 retries: ''
                                       @ messageOrUnknown (recordedStd env)) (RetriesDetail 3)
                      \<or> (\<exists>rs'. standardTry model env a rs w = (Thrown (exhaustedStd env), rs', w'))))"
proof (cases "tokenResult env")
  case (Inl e)
  with assms show ?thesis
    by (cases "networkRetryCount rs + 1 \<le> MAX_RETRIES")
      (auto simp: retryableStd_def standardTry_def catchBlock_def recordedStd_def exhaustedStd_def
        Let_def)
next
  case tok: (Inr tok)
  show ?thesis
  proof (cases "fetchResult env")
    case (Inl m)
    with tok show ?thesis
      by (cases "networkRetryCount rs + 1 \<le> MAX_RETRIES")
        (auto simp: standardTry_def catchBlock_def recordedStd_def exhaustedStd_def Let_def)
  next
    case (Inr r)
    with tok assms have st: "status r \<ge> 500" by (simp add: retryableStd_def)
    then have nok: "status r \<noteq> 429" "\<not> ok r" by (simp_all add: ok_def)
    show ?thesis
    proof (cases "body r")
      case (Inl m)
      with tok Inr nok show ?thesis
        by (cases "networkRetryCount rs + 1 \<le> MAX_RETRIES")
          (auto simp: standardTry_def catchBlock_def recordedStd_def exhaustedStd_def Let_def)
    next
      case d: (Inr d)
      with tok Inr nok st show ?thesis
        by (cases "networkRetryCount rs + 1 \<le> MAX_RETRIES")
          (auto simp: standardTry_def catchBlock_def recordedStd_def exhaustedStd_def Let_def)
    qed
  qed
qed

lemma standardLoop_pass_more:
  assumes "allAvailable w" "retryableStd env" "networkRetryCount rs + 1 \<le> MAX_RETRIES"
  shows "\<exists>w'. standardLoop model (env # envs) rs w =
                standardLoop model envs
                  \<lparr>networkRetryCount = networkRetryCount rs + 1,
                   lastError = Some (recordedStd env)\<rparr> w'
          \<and> allAvailable w'
          \<and> marksOf (events w') = marksOf (events w)
          \<and> delaysOf (events w') = delaysOf (events w) @ [getBackoffDelay (networkRetryCount rs + 1)]
          \<and> fetchesOf (events w') = fetchesOf (events w)
               @ (if isl (tokenResult env) then [] else [standardUrl model])"
proof -
  from select_allAvailable [OF assms(1), of env] obtain a w0 where
    s: "selectAccount env w = (Inr a, w0)" "directory w0 = directory w"
       "rateLimits (rotatorState w0) = rateLimits (rotatorState w)" "events w0 = events w"
    by blast
  from standardTry_retryable [OF assms(2), of w0 model rs a] assms(3) obtain w' where
    t: "directory w' = directory w0" "rotatorState w' = rotatorState w0"
       "marksOf (events w') = marksOf (events w0)"
       "fetchesOf (events w') = fetchesOf (events w0)
               @ (if isl (tokenResult env) then [] else [standardUrl model])"
       "standardTry model env a rs w0 =
                     (Retry, \<lparr>networkRetryCount = networkRetryCount rs + 1,
                              lastError = Some (recordedStd env)\<rparr>, w')"
       "delaysOf (events w') = delaysOf (events w0) @ [getBackoffDelay (networkRetryCount rs + 1)]"
    by auto
  have "allAvailable w'"
    using allAvailable_cong [OF assms(1), of w'] s t by simp
  moreover have "standardLoop model (env # envs) rs w =
                standardLoop model envs
                  \<lparr>networkRetryCount = networkRetryCount rs + 1,
                   lastError = Some (recordedStd env)\<rparr> w'"
    using s(1) t(5) assms(3) by simp
  ultimately show ?thesis using s t by auto
qed

lemma standardLoop_pass_last:
  assumes "allAvailable w" "retryableStd env" "networkRetryCount rs = MAX_RETRIES"
  shows "\<exists>w'. standardLoop model (env # envs) rs w = Some (Inl (exhaustedStd env), w')
          \<and> marksOf (events w') = marksOf (events w)
          \<and> delaysOf (events w') = delaysOf (events w)
          \<and> fetchesOf (events w') = fetchesOf (events w)
               @ (if isl (tokenResult env) then [] else [standardUrl model])"
proof -
  from select_allAvailable [OF assms(1), of env] obtain a w0 where
    s: "selectAccount env w = (Inr a, w0)" "directory w0 = directory w"
       "rateLimits (rotatorState w0) = rateLimits (rotatorState w)" "events w0 = events w"
    by blast
  from standardTry_retryable [OF assms(2), of w0 model rs a] assms(3) obtain w' where
    t: "marksOf (events w') = marksOf (events w0)"
       "fetchesOf (events w') = fetchesOf (events w0)
               @ (if isl (tokenResult env) then [] else [standardUrl model])"
       "delaysOf (events w') = delaysOf (events w0)"
       "standardTry model env a rs w0 =
                        (Retry, \<lparr>networkRetryCount = networkRetryCount rs + 1,
                                 lastError = Some (recordedStd env)\<rparr>, w')
                        \<and> exhaustedStd env =
                            ApiError (''Request failed after 3 retries: ''
                                       @ messageOrUnknown (recordedStd env)) (RetriesDetail 3)
                      \<or> (\<exists>rs'. standardTry model env a rs w0 = (Thrown (exhaustedStd env), rs', w'))"
    by auto
  have "standardLoop model (env # envs) rs w = Some (Inl (exhaustedStd env), w')"
    using t(4)
  proof
    assume r: "standardTry model env a rs w0 =
                        (Retry, \<lparr>networkRetryCount = networkRetryCount rs + 1,
                                 lastError = Some (recordedStd env)\<rparr>, w')
                        \<and> exhaustedStd env =
                            ApiError (''Request failed after 3 retries: ''
                                       @ messageOrUnknown (recordedStd env)) (RetriesDetail 3)"
    have "\<not> networkRetryCount \<lparr>networkRetryCount = networkRetryCount rs + 1,
                                 lastError = Some (recordedStd env)\<rparr> \<le> MAX_RETRIES"
      using assms(3) by simp
    from standardLoop_exhausted [OF this, of model envs w'] r s(1) assms(3)
    show ?thesis by (simp add: lastMessage_recorded)
  next
    assume "\<exists>rs'. standardTry model env a rs w0 = (Thrown (exhaustedStd env), rs', w')"
    with s(1) assms(3) show ?thesis by auto
  qed
  with s t show ?thesis by auto
qed

lemma backoff_values [simp]:
  "getBackoffDelay 1 = 1000" "getBackoffDelay 2 = 2000" "getBackoffDelay 3 = 4000"
  "getBackoffDelay (Suc 0) = 1000" "getBackoffDelay (Suc (Suc 0)) = 2000"
  "getBackoffDelay (Suc (Suc (Suc 0))) = 4000"
  by (simp_all add: getBackoffDelay_def BASE_RETRY_DELAY_MS_def)

lemma standard_run_exhausts:
  assumes "allAvailable w" "retryableStd e1" "retryableStd e2" "retryableStd e3" "retryableStd e4"
  shows "\<exists>w'. callStandardApi model (e1 # e2 # e3 # e4 # rest) w = Some (Inl (exhaustedStd e4), w')
     \<and> marksOf (events w') = marksOf (events w)
     \<and> delaysOf (events w') = delaysOf (events w) @ [1000, 2000, 4000]
     \<and> fetchesOf (events w') = fetchesOf (events w)
          @ concat (map (\<lambda>e. if isl (tokenResult e) then [] else [standardUrl model])
                      [e1, e2, e3, e4])"
proof -
  let ?rs = "\<lambda>n e. \<lparr>networkRetryCount = n, lastError = Some (recordedStd e)\<rparr>"
  from standardLoop_pass_more [OF assms(1,2), of initialRetry model "e2 # e3 # e4 # rest"]
  obtain w1 where 1: "standardLoop model (e1 # e2 # e3 # e4 # rest) initialRetry w
        = standardLoop model (e2 # e3 # e4 # rest) (?rs (Suc 0) e1) w1" "allAvailable w1"
      "marksOf (events w1) = marksOf (events w)"
      "delaysOf (events w1) = delaysOf (events w) @ [1000]"
      "fetchesOf (events w1) = fetchesOf (events w)
          @ (if isl (tokenResult e1) then [] else [standardUrl model])"
    by (auto simp: initialRetry_def MAX_RETRIES_def simp del: standardLoop.simps)
  from standardLoop_pass_more [OF 1(2) assms(3), of "?rs (Suc 0) e1" model "e3 # e4 # rest"]
  obtain w2 where 2: "standardLoop model (e2 # e3 # e4 # rest) (?rs (Suc 0) e1) w1
        = standardLoop model (e3 # e4 # rest) (?rs (Suc (Suc 0)) e2) w2" "allAvailable w2"
      "marksOf (events w2) = marksOf (events w1)"
      "delaysOf (events w2) = delaysOf (events w1) @ [2000]"
      "fetchesOf (events w2) = fetchesOf (events w1)
          @ (if isl (tokenResult e2) then [] else [standardUrl model])"
    by (auto simp: MAX_RETRIES_def simp del: standardLoop.simps)
  from standardLoop_pass_more [OF 2(2) assms(4), of "?rs (Suc (Suc 0)) e2" model "e4 # rest"]
  obtain w3 where 3: "standardLoop model (e3 # e4 # rest) (?rs (Suc (Suc 0)) e2) w2
        = standardLoop model (e4 # rest) (?rs (Suc (Suc (Suc 0))) e3) w3" "allAvailable w3"
      "marksOf (events w3) = marksOf (events w2)"
      "delaysOf (events w3) = delaysOf (events w2) @ [4000]"
      "fetchesOf (events w3) = fetchesOf (events w2)
          @ (if isl (tokenResult e3) then [] else [standardUrl model])"
    by (auto simp: MAX_RETRIES_def numeral_3_eq_3 simp del: standardLoop.simps)
  from standardLoop_pass_last [OF 3(2) assms(5), of "?rs (Suc (Suc (Suc 0))) e3" model rest]
  obtain w4 where 4: "standardLoop model (e4 # rest) (?rs (Suc (Suc (Suc 0))) e3) w3 = Some (Inl (exhaustedStd e4), w4)"
      "marksOf (events w4) = marksOf (events w3)"
      "delaysOf (events w4) = delaysOf (events w3)"
      "fetchesOf (events w4) = fetchesOf (events w3)
          @ (if isl (tokenResult e4) then [] else [standardUrl model])"
    by (auto simp: MAX_RETRIES_def simp del: standardLoop.simps)
  have "callStandardApi model (e1 # e2 # e3 # e4 # rest) w = Some (Inl (exhaustedStd e4), w4)"
    unfolding callStandardApi_def using 1(1) 2(1) 3(1) 4(1) by (simp del: standardLoop.simps)
  moreover have "marksOf (events w4) = marksOf (events w)"
    using 1 2 3 4 by simp
  moreover have "delaysOf (events w4) = delaysOf (events w) @ [1000, 2000, 4000]"
    using 1 2 3 4 by simp
  moreover have "fetchesOf (events w4) = fetchesOf (events w)
          @ concat (map (\<lambda>e. if isl (tokenResult e) then [] else [standardUrl model])
                      [e1, e2, e3, e4])"
    using 1(5) 2(5) 3(5) 4(4) by simp
  ultimately show ?thesis by blast
qed

lemma standard_run_pending:
  assumes "allAvailable w" "list_all retryableStd es" "networkRetryCount rs + length es \<le> MAX_RETRIES"
  shows "standardLoop model es rs w = None"
  using assms
proof (induction es arbitrary: rs w)
  case Nil
  then show ?case by simp
next
  case (Cons e es)
  from Cons.prems have r: "retryableStd e" "list_all retryableStd es"
    and n: "networkRetryCount rs + 1 \<le> MAX_RETRIES" by simp_all
  from standardLoop_pass_more [OF Cons.prems(1) r(1) n, of model es]
  obtain w' where w': "standardLoop model (e # es) rs w =
                standardLoop model es
                  \<lparr>networkRetryCount = networkRetryCount rs + 1,
                   lastError = Some (recordedStd e)\<rparr> w'" "allAvailable w'"
    by blast
  have "standardLoop model es \<lparr>networkRetryCount = networkRetryCount rs + 1,
                   lastError = Some (recordedStd e)\<rparr> w' = None"
    using Cons.prems(3) by (intro Cons.IH [OF w'(2) r(2)]) simp
  with w'(1) show ?case by (simp del: standardLoop.simps)
qed

lemma antigravityLoop_exhausted:
  "\<not> networkRetryCount rs \<le> MAX_RETRIES \<Longrightarrow>
     antigravityLoop jp envs rs w =
       Some (Inl (ApiError (''Antigravity request failed after 3 retries: '' @ lastMessage rs)
                   (RetriesDetail 3)), w)"
  by (cases envs) (simp_all add: MAX_RETRIES_def showNat.simps)

lemma tryEndpoints_unavailable:
  "list_all (\<lambda>u. case endpointResult env u of Inl m \<Rightarrow> True | Inr r \<Rightarrow> status r \<ge> 500) urls \<Longrightarrow>
     \<exists>w'. tryEndpoints jp urls env a tok cnt ms w = (EExhausted, cnt, ms, w')
          \<and> fetchesOf (events w') = fetchesOf (events w) @ map antigravityUrl urls"
proof (induction urls arbitrary: w)
  case Nil
  then show ?case by simp
next
  case (Cons u urls)
  let ?w1 = "emit (Fetch (antigravityUrl u) tok) w"
  from Cons.prems have rest: "list_all (\<lambda>u. case endpointResult env u of Inl m \<Rightarrow> True | Inr r \<Rightarrow> status r \<ge> 500) urls"
    and u: "case endpointResult env u of Inl m \<Rightarrow> True | Inr r \<Rightarrow> status r \<ge> 500" by simp_all
  from u have "tryEndpoints jp (u # urls) env a tok cnt ms w = tryEndpoints jp urls env a tok cnt ms ?w1"
    by (auto simp: Let_def split: sum.splits)
  with Cons.IH [OF rest, of ?w1] show ?case by auto
qed

lemma antigravityTry_retryable:
  assumes "retryableExt env"
  shows "\<exists>w'. directory w' = directory w \<and> rotatorState w' = rotatorState w
          \<and> marksOf (events w') = marksOf (events w)
          \<and> fetchesOf (events w') = fetchesOf (events w)
               @ (if isl (tokenResult env) then [] else map antigravityUrl ANTIGRAVITY_API_BASE_URLS)
          \<and> delaysOf (events w') = delaysOf (events w)
               @ (if networkRetryCount rs + 1 \<le> MAX_RETRIES
                  then [getBackoffDelay (networkRetryCount rs + 1)] else [])
          \<and> antigravityTry jp env a rs w =
                     (Retry, \<lparr>networkRetryCount = networkRetryCount rs + 1,
                              lastError = Some (recordedExt env)\<rparr>, w')"
proof (cases "tokenResult env")
  case (Inl e)
  with assms show ?thesis
    by (cases "networkRetryCount rs + 1 \<le> MAX_RETRIES")
      (auto simp: retryableExt_def antigravityTry_def catchBlock_def recordedExt_def Let_def)
next
  case (Inr tok)
  with assms have "list_all (\<lambda>u. case endpointResult env u of Inl m \<Rightarrow> True | Inr r \<Rightarrow> status r \<ge> 500)
            ANTIGRAVITY_API_BASE_URLS"
    by (simp add: retryableExt_def)
  from tryEndpoints_unavailable [OF this, of jp a tok 0 DEFAULT_RATE_LIMIT_MS w]
  obtain w1 where t: "tryEndpoints jp ANTIGRAVITY_API_BASE_URLS env a tok 0 DEFAULT_RATE_LIMIT_MS w
      = (EExhausted, 0, DEFAULT_RATE_LIMIT_MS, w1)"
    and f: "fetchesOf (events w1) = fetchesOf (events w) @ map antigravityUrl ANTIGRAVITY_API_BASE_URLS"
    by blast
  from tryEndpoints_frame [OF t] Inr t f show ?thesis
    by (cases "networkRetryCount rs + 1 \<le> MAX_RETRIES")
      (auto simp: antigravityTry_def recordedExt_def Let_def)
qed

lemma antigravityLoop_pass:
  assumes "allAvailable w" "allHaveProject w" "retryableExt env" "networkRetryCount rs \<le> MAX_RETRIES"
  shows "\<exists>w'. antigravityLoop jp (env # envs) rs w =
                antigravityLoop jp envs
                  \<lparr>networkRetryCount = networkRetryCount rs + 1,
                   lastError = Some (recordedExt env)\<rparr> w'
          \<and> allAvailable w' \<and> allHaveProject w'
          \<and> marksOf (events w') = marksOf (events w)
          \<and> delaysOf (events w') = delaysOf (events w)
               @ (if networkRetryCount rs + 1 \<le> MAX_RETRIES
                  then [getBackoffDelay (networkRetryCount rs + 1)] else [])
          \<and> fetchesOf (events w') = fetchesOf (events w)
               @ (if isl (tokenResult env) then [] else map antigravityUrl ANTIGRAVITY_API_BASE_URLS)"
proof -
  from select_allAvailable [OF assms(1), of env] obtain a w0 where
    s: "selectAccount env w = (Inr a, w0)" "a \<in> set (directory w)" "directory w0 = directory w"
       "rateLimits (rotatorState w0) = rateLimits (rotatorState w)" "events w0 = events w"
    by blast
  from s(2) assms(2) have p: "\<not> noProjectId a" by (simp add: allHaveProject_def list_all_iff)
  from antigravityTry_retryable [OF assms(3), of w0 rs jp a] obtain w' where
    t: "directory w' = directory w0" "rotatorState w' = rotatorState w0"
       "marksOf (events w') = marksOf (events w0)"
       "delaysOf (events w') = delaysOf (events w0)
               @ (if networkRetryCount rs + 1 \<le> MAX_RETRIES
                  then [getBackoffDelay (networkRetryCount rs + 1)] else [])"
       "antigravityTry jp env a rs w0 =
                     (Retry, \<lparr>networkRetryCount = networkRetryCount rs + 1,
                              lastError = Some (recordedExt env)\<rparr>, w')"
       "fetchesOf (events w') = fetchesOf (events w0)
               @ (if isl (tokenResult env) then [] else map antigravityUrl ANTIGRAVITY_API_BASE_URLS)"
    by blast
  have "allAvailable w'"
    using allAvailable_cong [OF assms(1), of w'] s t by simp
  moreover have "allHaveProject w'"
    using assms(2) s t by (simp add: allHaveProject_def)
  moreover have "antigravityLoop jp (env # envs) rs w =
                antigravityLoop jp envs
                  \<lparr>networkRetryCount = networkRetryCount rs + 1,
                   lastError = Some (recordedExt env)\<rparr> w'"
    using s(1) p t(5) assms(4) by simp
  ultimately show ?thesis using s t by auto
qed

lemma extended_run_exhausts:
  assumes "allAvailable w" "allHaveProject w"
    "retryableExt e1" "retryableExt e2" "retryableExt e3" "retryableExt e4"
  shows "\<exists>w'. callAntigravityApi jp (e1 # e2 # e3 # e4 # rest) w = Some (Inl (exhaustedExt e4), w')
     \<and> marksOf (events w') = marksOf (events w)
     \<and> delaysOf (events w') = delaysOf (events w) @ [1000, 2000, 4000]
     \<and> fetchesOf (events w') = fetchesOf (events w)
          @ concat (map (\<lambda>e. if isl (tokenResult e) then []
                              else map antigravityUrl ANTIGRAVITY_API_BASE_URLS) [e1, e2, e3, e4])"
proof -
  let ?rs = "\<lambda>n e. \<lparr>networkRetryCount = n, lastError = Some (recordedExt e)\<rparr>"
  from antigravityLoop_pass [OF assms(1,2,3), of initialRetry jp "e2 # e3 # e4 # rest"]
  obtain w1 where 1: "antigravityLoop jp (e1 # e2 # e3 # e4 # rest) initialRetry w
        = antigravityLoop jp (e2 # e3 # e4 # rest) (?rs (Suc 0) e1) w1"
      "allAvailable w1" "allHaveProject w1"
      "marksOf (events w1) = marksOf (events w)"
      "delaysOf (events w1) = delaysOf (events w) @ [1000]"
      "fetchesOf (events w1) = fetchesOf (events w)
          @ (if isl (tokenResult e1) then [] else map antigravityUrl ANTIGRAVITY_API_BASE_URLS)"
    by (auto simp: initialRetry_def MAX_RETRIES_def simp del: antigravityLoop.simps)
  from antigravityLoop_pass [OF 1(2,3) assms(4), of "?rs (Suc 0) e1" jp "e3 # e4 # rest"]
  obtain w2 where 2: "antigravityLoop jp (e2 # e3 # e4 # rest) (?rs (Suc 0) e1) w1
        = antigravityLoop jp (e3 # e4 # rest) (?rs (Suc (Suc 0)) e2) w2"
      "allAvailable w2" "allHaveProject w2"
      "marksOf (events w2) = marksOf (events w1)"
      "delaysOf (events w2) = delaysOf (events w1) @ [2000]"
      "fetchesOf (events w2) = fetchesOf (events w1)
          @ (if isl (tokenResult e2) then [] else map antigravityUrl ANTIGRAVITY_API_BASE_URLS)"
    by (auto simp: MAX_RETRIES_def simp del: antigravityLoop.simps)
  from antigravityLoop_pass [OF 2(2,3) assms(5), of "?rs (Suc (Suc 0)) e2" jp "e4 # rest"]
  obtain w3 where 3: "antigravityLoop jp (e3 # e4 # rest) (?rs (Suc (Suc 0)) e2) w2
        = antigravityLoop jp (e4 # rest) (?rs (Suc (Suc (Suc 0))) e3) w3"
      "allAvailable w3" "allHaveProject w3"
      "marksOf (events w3) = marksOf (events w2)"
      "delaysOf (events w3) = delaysOf (events w2) @ [4000]"
      "fetchesOf (events w3) = fetchesOf (events w2)
          @ (if isl (tokenResult e3) then [] else map antigravityUrl ANTIGRAVITY_API_BASE_URLS)"
    by (auto simp: MAX_RETRIES_def numeral_3_eq_3 simp del: antigravityLoop.simps)
  from antigravityLoop_pass [OF 3(2,3) assms(6), of "?rs (Suc (Suc (Suc 0))) e3" jp rest]
  obtain w4 where 4: "antigravityLoop jp (e4 # rest) (?rs (Suc (Suc (Suc 0))) e3) w3
        = antigravityLoop jp rest (?rs (Suc (Suc (Suc (Suc 0)))) e4) w4"
      "marksOf (events w4) = marksOf (events w3)"
      "delaysOf (events w4) = delaysOf (events w3)"
      "fetchesOf (events w4) = fetchesOf (events w3)
          @ (if isl (tokenResult e4) then [] else map antigravityUrl ANTIGRAVITY_API_BASE_URLS)"
    by (auto simp: MAX_RETRIES_def numeral_3_eq_3 simp del: antigravityLoop.simps)
  have "antigravityLoop jp rest (?rs (Suc (Suc (Suc (Suc 0)))) e4) w4 = Some (Inl (exhaustedExt e4), w4)"
    by (subst antigravityLoop_exhausted)
      (simp_all add: MAX_RETRIES_def exhaustedExt_def lastMessage_recorded)
  then have "callAntigravityApi jp (e1 # e2 # e3 # e4 # rest) w = Some (Inl (exhaustedExt e4), w4)"
    unfolding callAntigravityApi_def using 1(1) 2(1) 3(1) 4(1)
    by (simp del: antigravityLoop.simps)
  moreover have "marksOf (events w4) = marksOf (events w)"
    using 1 2 3 4 by simp
  moreover have "delaysOf (events w4) = delaysOf (events w) @ [1000, 2000, 4000]"
    using 1 2 3 4 by simp
  moreover have "fetchesOf (events w4) = fetchesOf (events w)
          @ concat (map (\<lambda>e. if isl (tokenResult e) then []
                              else map antigravityUrl ANTIGRAVITY_API_BASE_URLS) [e1, e2, e3, e4])"
    using 1(6) 2(6) 3(6) 4(4) by simp
  ultimately show ?thesis by blast
qed

lemma transientStd_retryable: "transientStd env \<Longrightarrow> retryableStd env"
  by (auto simp: transientStd_def retryableStd_def split: sum.splits)

lemma transientExt_retryable: "transientExt env \<Longrightarrow> retryableExt env"
  by (auto simp: transientExt_def retryableExt_def split: sum.splits)

lemma errorMessageOf_nonempty: "errorMessageOf r d \<noteq> []"
  by (simp add: errorMessageOf_def split: option.splits)

lemma exhaustedStd_transient:
  assumes "transientStd env"
  shows "isApiError (exhaustedStd env)
       \<and> (\<exists>p. message (exhaustedStd env) =
                p @ (if failureMessageStd env = [] then ''Unknown error'' else failureMessageStd env))"
proof -
  from assms obtain tok where tok: "tokenResult env = Inr tok"
    by (auto simp: transientStd_def split: sum.splits)
  show ?thesis
  proof (cases "fetchResult env")
    case (Inl m)
    with tok show ?thesis
      by (auto simp: exhaustedStd_def failureMessageStd_def messageOrUnknown_def)
  next
    case (Inr r)
    with tok show ?thesis
      by (cases "body r")
        (auto simp: exhaustedStd_def failureMessageStd_def messageOrUnknown_def
          errorMessageOf_nonempty)
  qed
qed

lemma exhaustedExt_transient:
  "transientExt env \<Longrightarrow>
     exhaustedExt env =
       ApiError ''Antigravity request failed after 3 retries: All Antigravity endpoints failed''
         (RetriesDetail 3)"
  by (auto simp: transientExt_def exhaustedExt_def recordedExt_def messageOrUnknown_def
      split: sum.splits)

lemma transient_fetches:
  "transientStd e1 \<Longrightarrow> transientStd e2 \<Longrightarrow> transientStd e3 \<Longrightarrow> transientStd e4 \<Longrightarrow>
     concat (map (\<lambda>e. if isl (tokenResult e) then [] else [standardUrl model]) [e1, e2, e3, e4])
       = replicate 4 (standardUrl model)"
  by (auto simp: transientStd_def numeral_eq_Suc split: sum.splits)

lemma authFails_retryable: "authFails env \<Longrightarrow> retryableStd env \<and> retryableExt env"
  by (cases "tokenResult env"; cases "projl (tokenResult env)")
    (auto simp: authFails_def retryableStd_def retryableExt_def)

lemma extended_run_pending:
  assumes "allAvailable w" "allHaveProject w" "list_all retryableExt es"
    "networkRetryCount rs + length es \<le> MAX_RETRIES"
  shows "antigravityLoop jp es rs w = None"
  using assms
proof (induction es arbitrary: rs w)
  case Nil
  then show ?case by simp
next
  case (Cons e es)
  from Cons.prems have r: "retryableExt e" "list_all retryableExt es"
    and n: "networkRetryCount rs \<le> MAX_RETRIES" by simp_all
  from antigravityLoop_pass [OF Cons.prems(1,2) r(1) n, of jp es]
  obtain w' where w': "antigravityLoop jp (e # es) rs w =
                antigravityLoop jp es
                  \<lparr>networkRetryCount = networkRetryCount rs + 1,
                   lastError = Some (recordedExt e)\<rparr> w'" "allAvailable w'" "allHaveProject w'"
    by blast
  have "antigravityLoop jp es \<lparr>networkRetryCount = networkRetryCount rs + 1,
                   lastError = Some (recordedExt e)\<rparr> w' = None"
    using Cons.prems(4) by (intro Cons.IH [OF w'(2,3) r(2)]) simp
  with w'(1) show ?case by (simp del: antigravityLoop.simps)
qed

lemma auth_try:
  assumes "tokenResult env = Inl (AuthenticationError m)"
  shows "standardTry model env a rs w =
           (Retry, \<lparr>networkRetryCount = networkRetryCount rs + 1,
                    lastError = Some (AuthenticationError m)\<rparr>,
            if networkRetryCount rs + 1 \<le> MAX_RETRIES
            then delayFn (getBackoffDelay (networkRetryCount rs + 1)) w else w)"
    and "antigravityTry jsonParse env a rs w =
           (Retry, \<lparr>networkRetryCount = networkRetryCount rs + 1,
                    lastError = Some (AuthenticationError m)\<rparr>,
            if networkRetryCount rs + 1 \<le> MAX_RETRIES
            then delayFn (getBackoffDelay (networkRetryCount rs + 1)) w else w)"
  using assms by (simp_all add: standardTry_def antigravityTry_def catchBlock_def Let_def)

text \<open>
  How far the defect reaches: every authentication error of \<^verbatim>\<open>getAccessToken\<close> takes the
  path of a network failure, in both families: the attempt adds one to the retry counter, records
  the error as the last error, waits the backoff delay while the counter stays within
  the budget, and the loop selects an account again. With accounts available, a call
  does not settle on up to three such failures in a row, and on the fourth it raises an
  API error whose message wraps the message of the last authentication error, after
  delays of 1000, 2000 and 4000 ms and without any fetch.
\<close>

lemma authentication_failure_retried:
  "(tokenResult env = Inl (AuthenticationError m) \<longrightarrow>
      standardTry model env a rs w =
        (Retry, \<lparr>networkRetryCount = networkRetryCount rs + 1,
                 lastError = Some (AuthenticationError m)\<rparr>,
         if networkRetryCount rs + 1 \<le> MAX_RETRIES
         then delayFn (getBackoffDelay (networkRetryCount rs + 1)) w else w)
    \<and> antigravityTry jsonParse env a rs w =
        (Retry, \<lparr>networkRetryCount = networkRetryCount rs + 1,
                 lastError = Some (AuthenticationError m)\<rparr>,
         if networkRetryCount rs + 1 \<le> MAX_RETRIES
         then delayFn (getBackoffDelay (networkRetryCount rs + 1)) w else w))
   \<and> (allAvailable w \<and> (isAntigravityModel model \<longrightarrow> allHaveProject w)
        \<and> list_all authFails es \<and> length es \<le> 3 \<longrightarrow>
        callApi jsonParse model es w = None)
   \<and> (allAvailable w \<and> (isAntigravityModel model \<longrightarrow> allHaveProject w)
        \<and> authFails e1 \<and> authFails e2 \<and> authFails e3
        \<and> tokenResult e4 = Inl (AuthenticationError m) \<longrightarrow>
        (\<exists>w'. callApi jsonParse model (e1 # e2 # e3 # e4 # rest) w
               = Some (Inl (ApiError
                    ((if isAntigravityModel model then ''Antigravity request failed after 3 retries: ''
                      else ''Request failed after 3 retries: '')
                     @ (if m = [] then ''Unknown error'' else m))
                    (RetriesDetail 3)), w')
            \<and> delaysOf (events w') = delaysOf (events w) @ [1000, 2000, 4000]
            \<and> fetchesOf (events w') = fetchesOf (events w)
            \<and> marksOf (events w') = marksOf (events w)))"
proof (intro conjI impI)
  assume "tokenResult env = Inl (AuthenticationError m)"
  from auth_try [OF this]
  show "standardTry model env a rs w =
        (Retry, \<lparr>networkRetryCount = networkRetryCount rs + 1,
                 lastError = Some (AuthenticationError m)\<rparr>,
         if networkRetryCount rs + 1 \<le> MAX_RETRIES
         then delayFn (getBackoffDelay (networkRetryCount rs + 1)) w else w)"
    and "antigravityTry jsonParse env a rs w =
        (Retry, \<lparr>networkRetryCount = networkRetryCount rs + 1,
                 lastError = Some (AuthenticationError m)\<rparr>,
         if networkRetryCount rs + 1 \<le> MAX_RETRIES
         then delayFn (getBackoffDelay (networkRetryCount rs + 1)) w else w)"
    by blast+
next
  assume h: "allAvailable w \<and> (isAntigravityModel model \<longrightarrow> allHaveProject w)
        \<and> list_all authFails es \<and> length es \<le> 3"
  then have r: "list_all retryableStd es" "list_all retryableExt es"
    by (auto simp: list_all_iff authFails_retryable)
  show "callApi jsonParse model es w = None"
  proof (cases "isAntigravityModel model")
    case True
    with h extended_run_pending [OF _ _ r(2), of w initialRetry jsonParse] show ?thesis
      by (simp add: callApi_def callAntigravityApi_def initialRetry_def MAX_RETRIES_def)
  next
    case False
    with h standard_run_pending [OF _ r(1), of w initialRetry model] show ?thesis
      by (simp add: callApi_def callStandardApi_def initialRetry_def MAX_RETRIES_def)
  qed
next
  assume h: "allAvailable w \<and> (isAntigravityModel model \<longrightarrow> allHaveProject w)
        \<and> authFails e1 \<and> authFails e2 \<and> authFails e3
        \<and> tokenResult e4 = Inl (AuthenticationError m)"
  then have a4: "authFails e4" by (simp add: authFails_def)
  have il: "isl (tokenResult e)" if "authFails e" for e
    using that by (auto simp: authFails_def split: sum.splits)
  show "\<exists>w'. callApi jsonParse model (e1 # e2 # e3 # e4 # rest) w
               = Some (Inl (ApiError
                    ((if isAntigravityModel model then ''Antigravity request failed after 3 retries: ''
                      else ''Request failed after 3 retries: '')
                     @ (if m = [] then ''Unknown error'' else m))
                    (RetriesDetail 3)), w')
            \<and> delaysOf (events w') = delaysOf (events w) @ [1000, 2000, 4000]
            \<and> fetchesOf (events w') = fetchesOf (events w)
            \<and> marksOf (events w') = marksOf (events w)"
  proof (cases "isAntigravityModel model")
    case True
    have ex: "exhaustedExt e4 = ApiError (''Antigravity request failed after 3 retries: ''
                     @ (if m = [] then ''Unknown error'' else m)) (RetriesDetail 3)"
      using h by (simp add: exhaustedExt_def recordedExt_def messageOrUnknown_def)
    from extended_run_exhausts [of w e1 e2 e3 e4 jsonParse rest] h a4 True
    show ?thesis unfolding ex
      by (auto simp: callApi_def authFails_retryable il)
  next
    case False
    have ex: "exhaustedStd e4 = ApiError (''Request failed after 3 retries: ''
                     @ (if m = [] then ''Unknown error'' else m)) (RetriesDetail 3)"
      using h by (simp add: exhaustedStd_def messageOrUnknown_def)
    from standard_run_exhausts [of w e1 e2 e3 e4 model rest] h a4 False
    show ?thesis unfolding ex
      by (auto simp: callApi_def authFails_retryable il)
  qed
qed

lemma accountUnknown_facts:
  "tokenResult accountUnknown = Inl (AuthenticationError ''Account not found: a1'')"
  "authFails accountUnknown"
  "\<not> isAntigravityModel ''gemini-2.5-flash''"
  "allAvailable (worldOf [acct ''a1'' None])"
  "events (worldOf [acct ''a1'' None]) = []"
  by (simp_all add: accountUnknown_def attemptOf_def authFails_def isAntigravityModel_def
      allAvailable_def worldOf_def newRotator_def acct_def)

lemma authentication_failure_retried_example:
  "tokenResult accountUnknown = Inl (AuthenticationError ''Account not found: a1'')
   \<and> allAvailable (worldOf [acct ''a1'' None])
   \<and> fst (standardTry ''gemini-2.5-flash'' accountUnknown (acct ''a1'' None) initialRetry
            (worldOf [acct ''a1'' None])) = Retry
   \<and> callApi demoParse ''gemini-2.5-flash'' [accountUnknown, accountUnknown, accountUnknown]
        (worldOf [acct ''a1'' None]) = None
   \<and> (\<exists>w'. callApi demoParse ''gemini-2.5-flash''
              [accountUnknown, accountUnknown, accountUnknown, accountUnknown]
              (worldOf [acct ''a1'' None])
            = Some (Inl (ApiError ''Request failed after 3 retries: Account not found: a1''
                          (RetriesDetail 3)), w')
          \<and> delaysOf (events w') = [1000, 2000, 4000]
          \<and> fetchesOf (events w') = [])"
proof -
  let ?w = "worldOf [acct ''a1'' None]" and ?e = accountUnknown
  note f = accountUnknown_facts
  note T = authentication_failure_retried [where jsonParse = demoParse
      and model = "''gemini-2.5-flash''" and w = ?w and m = "''Account not found: a1''"]
  from T [where env = ?e and a = "acct ''a1'' None" and rs = initialRetry, THEN conjunct1] f(1)
  have c1: "fst (standardTry ''gemini-2.5-flash'' ?e (acct ''a1'' None) initialRetry ?w) = Retry"
    by simp
  from T [where es = "[?e, ?e, ?e]", THEN conjunct2, THEN conjunct1] f
  have c2: "callApi demoParse ''gemini-2.5-flash'' [?e, ?e, ?e] ?w = None"
    by simp
  from T [where ?e1.0 = ?e and ?e2.0 = ?e and ?e3.0 = ?e and ?e4.0 = ?e and rest = "[]",
      THEN conjunct2, THEN conjunct2] f
  have c3: "\<exists>w'. callApi demoParse ''gemini-2.5-flash'' [?e, ?e, ?e, ?e] ?w
            = Some (Inl (ApiError ''Request failed after 3 retries: Account not found: a1''
                          (RetriesDetail 3)), w')
          \<and> delaysOf (events w') = [1000, 2000, 4000]
          \<and> fetchesOf (events w') = []"
    by auto
  from f(1,4) c1 c2 c3 show ?thesis by blast
qed

text \<open>
  C6. An authentication error of \<^verbatim>\<open>getAccessToken\<close> is not surfaced on its first
  occurrence. With one account whose token cannot be obtained (\<^verbatim>\<open>Account not found\<close>),
  the call has not settled after the first failure; after four failures the caller
  receives an API error, not the authentication error, and the delays 1000, 2000 and
  4000 ms were waited.
\<close>

theorem authentication_error_not_surfaced:
  "tokenResult accountUnknown = Inl (AuthenticationError ''Account not found: a1'')
   \<and> callApi demoParse ''gemini-2.5-flash'' [accountUnknown] (worldOf [acct ''a1'' None]) = None
   \<and> map_option fst
        (callApi demoParse ''gemini-2.5-flash''
           [accountUnknown, accountUnknown, accountUnknown, accountUnknown]
           (worldOf [acct ''a1'' None]))
       = Some (Inl (ApiError ''Request failed after 3 retries: Account not found: a1''
                     (RetriesDetail 3)))
   \<and> delaysOf (events (snd (the
        (callApi demoParse ''gemini-2.5-flash''
           [accountUnknown, accountUnknown, accountUnknown, accountUnknown]
           (worldOf [acct ''a1'' None])))))
       = [1000, 2000, 4000]"
proof -
  let ?w = "worldOf [acct ''a1'' None]" and ?e = accountUnknown
  note f = accountUnknown_facts
  have r: "retryableStd ?e" using f(2) by (simp add: authFails_retryable)
  have "standardLoop ''gemini-2.5-flash'' [?e] initialRetry ?w = None"
    by (rule standard_run_pending [OF f(4)])
      (simp_all add: r initialRetry_def MAX_RETRIES_def)
  then have c1: "callApi demoParse ''gemini-2.5-flash'' [?e] ?w = None"
    using f(3) by (simp add: callApi_def callStandardApi_def)
  have ex: "exhaustedStd ?e = ApiError ''Request failed after 3 retries: Account not found: a1''
                     (RetriesDetail 3)"
    using f(1) by (simp add: exhaustedStd_def messageOrUnknown_def)
  from standard_run_exhausts [OF f(4) r r r r, of "''gemini-2.5-flash''" "[]"]
  obtain w' where "callStandardApi ''gemini-2.5-flash'' [?e, ?e, ?e, ?e] ?w
        = Some (Inl (exhaustedStd ?e), w')"
      "delaysOf (events w') = delaysOf (events ?w) @ [1000, 2000, 4000]"
    by blast
  then have c2: "map_option fst (callApi demoParse ''gemini-2.5-flash'' [?e, ?e, ?e, ?e] ?w)
       = Some (Inl (ApiError ''Request failed after 3 retries: Account not found: a1''
                     (RetriesDetail 3)))"
    and c3: "delaysOf (events (snd (the (callApi demoParse ''gemini-2.5-flash'' [?e, ?e, ?e, ?e] ?w))))
       = [1000, 2000, 4000]"
    using f(3,5) ex by (simp_all add: callApi_def)
  from f(1) c1 c2 c3 show ?thesis by blast
qed

lemma selectAccount_frame:
  "selectAccount env w = (res, w0) \<Longrightarrow>
     directory w0 = directory w \<and> events w0 = events w \<and> quotaState w0 = quotaState w"
  by (auto simp: selectAccount_def split: prod.splits)

lemma selectAccount_some:
  assumes "\<exists>a\<in>set (directory w). \<not> limitedAt (selectAt env) (rateLimits (rotatorState w)) (accId a)"
  shows "\<exists>b w0. selectAccount env w = (Inr b, w0) \<and> b \<in> set (directory w)
           \<and> \<not> limitedAt (selectAt env) (rateLimits (rotatorState w)) (accId b)
           \<and> directory w0 = directory w \<and> events w0 = events w
           \<and> rateLimits (rotatorState w0)
               = snd (filterAvailable (selectAt env) (directory w) (rateLimits (rotatorState w)))"
proof -
  let ?accs = "directory w" and ?r = "rotatorState w"
  from getNextAccount_scan [OF assms, of "hintAt env"] obtain j where j: "j < length ?accs"
    "getNextAccount (selectAt env) (hintAt env) ?accs ?r =
       (Inr (?accs ! ((currentIndex ?r + j) mod length ?accs)),
        ?r\<lparr>rateLimits := snd (filterAvailable (selectAt env) ?accs (rateLimits ?r)),
           currentIndex := (currentIndex ?r + j + 1) mod length ?accs\<rparr>)"
    "\<not> limitedAt (selectAt env) (rateLimits ?r)
        (accId (?accs ! ((currentIndex ?r + j) mod length ?accs)))"
    by blast
  from j(1) have "?accs ! ((currentIndex ?r + j) mod length ?accs) \<in> set ?accs"
    by (intro nth_mem mod_less_divisor) auto
  with j(2,3) show ?thesis by (simp add: selectAccount_def)
qed

lemma antigravityLoop_skips_forever:
  assumes "networkRetryCount rs \<le> MAX_RETRIES"
    and "\<forall>a\<in>set (directory w). \<not> noProjectId a \<longrightarrow>
           (\<forall>e\<in>set envs. limitedAt (selectAt e) (rateLimits (rotatorState w)) (accId a))"
    and "envs \<noteq> [] \<longrightarrow>
           (\<exists>a\<in>set (directory w).
              \<not> limitedAt (selectAt (hd envs)) (rateLimits (rotatorState w)) (accId a))"
  shows "antigravityLoop jp envs rs w = None"
  using assms
proof (induction envs arbitrary: w)
  case Nil
  then show ?case by simp
next
  case (Cons env envs)
  let ?rl = "rateLimits (rotatorState w)"
  from Cons.prems(3) have "\<exists>a\<in>set (directory w). \<not> limitedAt (selectAt env) ?rl (accId a)"
    by simp
  from selectAccount_some [OF this] obtain b w0 where
    s: "selectAccount env w = (Inr b, w0)" "b \<in> set (directory w)"
       "\<not> limitedAt (selectAt env) ?rl (accId b)"
       "directory w0 = directory w"
       "rateLimits (rotatorState w0) = snd (filterAvailable (selectAt env) (directory w) ?rl)"
    by blast
  let ?new = "rateLimits (rotatorState w0)"
  from s(2,3) Cons.prems(2) have np: "noProjectId b" by auto
  have b0: "map_of ?new (accId b) = None"
    using s(2,3,5) by (simp add: filterAvailable_map_of)
  have keep: "\<forall>a\<in>set (directory w0). \<not> noProjectId a \<longrightarrow>
           (\<forall>e\<in>set envs. limitedAt (selectAt e) ?new (accId a))"
  proof (intro ballI impI)
    fix a e assume a: "a \<in> set (directory w0)" "\<not> noProjectId a" and e: "e \<in> set envs"
    with Cons.prems(2) s(4) have l: "limitedAt (selectAt env) ?rl (accId a)"
      "limitedAt (selectAt e) ?rl (accId a)" by auto
    from l(1) have "map_of ?new (accId a) = map_of ?rl (accId a)"
      using s(5) by (simp add: filterAvailable_map_of)
    with l(2) show "limitedAt (selectAt e) ?new (accId a)" by (simp add: limitedAt_def)
  qed
  have some: "envs \<noteq> [] \<longrightarrow>
           (\<exists>a\<in>set (directory w0). \<not> limitedAt (selectAt (hd envs)) ?new (accId a))"
  proof
    have "\<not> limitedAt (selectAt (hd envs)) ?new (accId b)"
      using b0 by (simp add: limitedAt_def)
    with s(2,4) show "\<exists>a\<in>set (directory w0). \<not> limitedAt (selectAt (hd envs)) ?new (accId a)"
      by auto
  qed
  have "antigravityLoop jp envs rs w0 = None"
    by (rule Cons.IH [OF Cons.prems(1) keep some])
  with s(1) np Cons.prems(1) show ?case by simp
qed

text \<open>
  C10. The extended family is chosen for a model id that starts with \<^verbatim>\<open>gemini-3\<close> or
  \<^verbatim>\<open>claude-\<close>. A pass that selects an account without project id goes on to the next
  pass with the retry state, the log, the directory and the quotas as they were (only
  the rotator has moved). Hence, when the rotator returns an account at the first
  selection and every account with a project id is rate-limited at every selection of
  the run, the call has not settled however many passes its environment answers: it
  neither returns nor raises.
\<close>

theorem missing_project_never_settles:
  "(isAntigravityModel model \<longleftrightarrow> prefix ''gemini-3'' model \<or> prefix ''claude-'' model)
   \<and> (networkRetryCount rs \<le> MAX_RETRIES \<and> selectAccount env w = (Inr a, w0) \<and> noProjectId a \<longrightarrow>
        antigravityLoop jsonParse (env # envs) rs w = antigravityLoop jsonParse envs rs w0
      \<and> events w0 = events w \<and> directory w0 = directory w \<and> quotaState w0 = quotaState w)
   \<and> (isAntigravityModel model
        \<and> (\<forall>a\<in>set (directory w). \<not> noProjectId a \<longrightarrow>
              (\<forall>e\<in>set envs. limitedAt (selectAt e) (rateLimits (rotatorState w)) (accId a)))
        \<and> (envs \<noteq> [] \<longrightarrow>
              (\<exists>a\<in>set (directory w).
                 \<not> limitedAt (selectAt (hd envs)) (rateLimits (rotatorState w)) (accId a))) \<longrightarrow>
        callApi jsonParse model envs w = None)"
proof (intro conjI impI)
  show "isAntigravityModel model \<longleftrightarrow> prefix ''gemini-3'' model \<or> prefix ''claude-'' model"
    by (simp add: isAntigravityModel_def)
next
  assume h: "networkRetryCount rs \<le> MAX_RETRIES \<and> selectAccount env w = (Inr a, w0) \<and> noProjectId a"
  then show "antigravityLoop jsonParse (env # envs) rs w = antigravityLoop jsonParse envs rs w0"
    by simp
  from h selectAccount_frame [of env w "Inr a" w0]
  show "events w0 = events w" and "directory w0 = directory w" and "quotaState w0 = quotaState w"
    by simp_all
next
  assume h: "isAntigravityModel model
        \<and> (\<forall>a\<in>set (directory w). \<not> noProjectId a \<longrightarrow>
              (\<forall>e\<in>set envs. limitedAt (selectAt e) (rateLimits (rotatorState w)) (accId a)))
        \<and> (envs \<noteq> [] \<longrightarrow>
              (\<exists>a\<in>set (directory w).
                 \<not> limitedAt (selectAt (hd envs)) (rateLimits (rotatorState w)) (accId a)))"
  have "antigravityLoop jsonParse envs initialRetry w = None"
    using h by (intro antigravityLoop_skips_forever) (simp_all add: initialRetry_def)
  with h show "callApi jsonParse model envs w = None"
    by (simp add: callApi_def callAntigravityApi_def)
qed

theorem missing_project_never_settles_witness:
  "isAntigravityModel ''gemini-3-pro''
   \<and> list_all noProjectId (directory twoWithoutProject)
   \<and> (\<exists>a\<in>set (directory twoWithoutProject).
         \<not> limitedAt 0 (rateLimits (rotatorState twoWithoutProject)) (accId a))
   \<and> callApi demoParse ''gemini-3-pro'' [networkDown, allLimited, firstLimitedThenOk]
        twoWithoutProject = None
   \<and> selectAccount networkDown twoWithoutProject
       = (Inr (acct ''a1'' None),
          twoWithoutProject\<lparr>rotatorState := \<lparr>rateLimits = [], currentIndex = 1\<rparr>\<rparr>)
   \<and> antigravityLoop demoParse [networkDown, allLimited] initialRetry twoWithoutProject
       = antigravityLoop demoParse [allLimited] initialRetry
           (twoWithoutProject\<lparr>rotatorState := \<lparr>rateLimits = [], currentIndex = 1\<rparr>\<rparr>)"
proof -
  let ?w = twoWithoutProject
  let ?envs = "[networkDown, allLimited, firstLimitedThenOk]"
  have m: "isAntigravityModel ''gemini-3-pro''" by (simp add: isAntigravityModel_def)
  have np: "\<forall>a\<in>set (directory ?w). noProjectId a"
    by (simp add: twoWithoutProject_def worldOf_def noProjectId_def acct_def)
  have av: "\<exists>a\<in>set (directory ?w). \<not> limitedAt 0 (rateLimits (rotatorState ?w)) (accId a)"
    by (auto simp: twoWithoutProject_def worldOf_def newRotator_def limitedAt_def)
  have hd: "selectAt (hd ?envs) = 0" by (simp add: networkDown_def attemptOf_def)
  have h: "isAntigravityModel ''gemini-3-pro''
        \<and> (\<forall>a\<in>set (directory ?w). \<not> noProjectId a \<longrightarrow>
              (\<forall>e\<in>set ?envs. limitedAt (selectAt e) (rateLimits (rotatorState ?w)) (accId a)))
        \<and> (?envs \<noteq> [] \<longrightarrow>
              (\<exists>a\<in>set (directory ?w).
                 \<not> limitedAt (selectAt (hd ?envs)) (rateLimits (rotatorState ?w)) (accId a)))"
    using m np av unfolding hd by blast
  from missing_project_never_settles [where model = "''gemini-3-pro''" and w = ?w and envs = ?envs
      and jsonParse = demoParse, THEN conjunct2, THEN conjunct2, THEN mp, OF h]
  have c1: "callApi demoParse ''gemini-3-pro'' ?envs ?w = None" .
  have s: "selectAccount networkDown ?w
       = (Inr (acct ''a1'' None), ?w\<lparr>rotatorState := \<lparr>rateLimits = [], currentIndex = 1\<rparr>\<rparr>)"
    by (simp add: selectAccount_def getNextAccount_def getAvailableAccounts_def
        twoWithoutProject_def worldOf_def newRotator_def networkDown_def attemptOf_def acct_def)
  have h2: "networkRetryCount initialRetry \<le> MAX_RETRIES
      \<and> selectAccount networkDown ?w
          = (Inr (acct ''a1'' None), ?w\<lparr>rotatorState := \<lparr>rateLimits = [], currentIndex = 1\<rparr>\<rparr>)
      \<and> noProjectId (acct ''a1'' None)"
    using s by (simp add: initialRetry_def noProjectId_def acct_def)
  from missing_project_never_settles [where rs = initialRetry and env = networkDown and w = ?w
      and a = "acct ''a1'' None" and envs = "[allLimited]" and jsonParse = demoParse
      and ?w0.0 = "?w\<lparr>rotatorState := \<lparr>rateLimits = [], currentIndex = 1\<rparr>\<rparr>",
      THEN conjunct2, THEN conjunct1, THEN mp, OF h2]
  have c2: "antigravityLoop demoParse [networkDown, allLimited] initialRetry ?w
       = antigravityLoop demoParse [allLimited] initialRetry
           (?w\<lparr>rotatorState := \<lparr>rateLimits = [], currentIndex = 1\<rparr>\<rparr>)"
    by blast
  from m np av c1 s c2 show ?thesis unfolding list_all_iff by blast
qed

text \<open>
  C7. A successful answer increments the serving account's usage, but on the standard
  family the text returned is that of the first part alone. For a first candidate with
  the parts \<^verbatim>\<open>Hello, \<close> and \<^verbatim>\<open>world\<close> the call returns \<^verbatim>\<open>Hello, \<close>, where
  \<^const>\<open>transformFromAntigravity\<close> returns \<^verbatim>\<open>Hello, world\<close> for the same candidates. For a
  first part with empty text followed by a part with text the call raises
  \<^verbatim>\<open>Empty response: no text content\<close>, where \<^const>\<open>transformFromAntigravity\<close> returns the
  text of the second part.
\<close>

theorem standard_text_first_part_only:
  "extractStandardResponseText \<lparr>candidates = Some twoParts, errorMessage = None\<rparr> = Inr ''Hello, ''
   \<and> transformFromAntigravity (Some twoParts) = Inr ''Hello, world''
   \<and> callApi demoParse ''gemini-2.5-flash'' [okWith twoParts] (worldOf [acct ''a1'' None])
       = Some (Inr ''Hello, '',
               \<lparr>directory = [acct ''a1'' None], rotatorState = newRotator, quotaState = [],
                events = [Fetch (standardUrl ''gemini-2.5-flash'') ''token'', IncrementUsage ''a1'']\<rparr>)
   \<and> extractStandardResponseText \<lparr>candidates = Some emptyFirstPart, errorMessage = None\<rparr>
       = Inl (ApiError ''Empty response: no text content'' ResponseDetail)
   \<and> transformFromAntigravity (Some emptyFirstPart) = Inr ''world''
   \<and> map_option fst
        (callApi demoParse ''gemini-2.5-flash'' [okWith emptyFirstPart] (worldOf [acct ''a1'' None]))
       = Some (Inl (ApiError ''Empty response: no text content'' ResponseDetail))"
  by (simp add: extractStandardResponseText_def transformFromAntigravity_def twoParts_def
      emptyFirstPart_def okWith_def attemptOf_def http_def callApi_def callStandardApi_def
      isAntigravityModel_def initialRetry_def MAX_RETRIES_def selectAccount_def getNextAccount_def
      getAvailableAccounts_def worldOf_def newRotator_def standardTry_def ok_def catchBlock_def
      trackerIncrement_def incrementUsage_def emit_def acct_def Let_def)

lemma transientExt_failsAt:
  "transientExt env \<longleftrightarrow> \<not> isl (tokenResult env) \<and> list_all (failsAt env) ANTIGRAVITY_API_BASE_URLS"
  by (auto simp: transientExt_def failsAt_def list_all_iff split: sum.splits)

lemma failsAt_passedOver: "failsAt env u \<Longrightarrow> passedOver env u \<and> \<not> is429 env u"
  by (auto simp: failsAt_def passedOver_def is429_def split: sum.splits)

lemma tryEndpoints_fails_then_ok:
  assumes "list_all (failsAt env) pre" "succeedsWith jp env u t"
  shows "\<exists>w1. tryEndpoints jp (pre @ u # post) env a tok cnt ms w
           = (EReturned t, cnt, ms, trackerIncrement (accId a) w1)
         \<and> delaysOf (events w1) = delaysOf (events w)
         \<and> fetchesOf (events w1) = fetchesOf (events w) @ map antigravityUrl (pre @ [u])"
  using assms(1)
proof (induction pre arbitrary: w)
  case Nil
  from assms(2) show ?case
    by (auto simp: succeedsWith_def ok_def Let_def split: sum.splits)
next
  case (Cons v pre)
  then have v: "failsAt env v" and rest: "list_all (failsAt env) pre" by simp_all
  from failsAt_passedOver [OF v] tryEndpoints_pass [of env v jp "pre @ u # post" a tok cnt ms w]
  have "tryEndpoints jp ((v # pre) @ u # post) env a tok cnt ms w
          = tryEndpoints jp (pre @ u # post) env a tok cnt ms (emit (Fetch (antigravityUrl v) tok) w)"
    by simp
  with Cons.IH [OF rest, of "emit (Fetch (antigravityUrl v) tok) w"] show ?case by auto
qed

lemma antigravityTry_fails_then_ok:
  assumes tok: "tokenResult env = Inr tok"
    and urls: "ANTIGRAVITY_API_BASE_URLS = pre @ u # post"
    and pre: "list_all (failsAt env) pre"
    and suc: "succeedsWith jp env u t"
  shows "\<exists>w'. antigravityTry jp env a rs w = (Returned t, rs, w')
          \<and> delaysOf (events w') = delaysOf (events w)
          \<and> fetchesOf (events w') = fetchesOf (events w) @ map antigravityUrl (pre @ [u])"
proof -
  from tryEndpoints_fails_then_ok [OF pre suc, of post a tok 0 DEFAULT_RATE_LIMIT_MS w]
  obtain w1 where t: "tryEndpoints jp (pre @ u # post) env a tok 0 DEFAULT_RATE_LIMIT_MS w
           = (EReturned t, 0, DEFAULT_RATE_LIMIT_MS, trackerIncrement (accId a) w1)"
     and f: "delaysOf (events w1) = delaysOf (events w)"
         "fetchesOf (events w1) = fetchesOf (events w) @ map antigravityUrl (pre @ [u])"
    by blast
  have "antigravityTry jp env a rs w = (Returned t, rs, trackerIncrement (accId a) w1)"
    using tok t urls by (simp add: antigravityTry_def)
  with f show ?thesis by simp
qed

lemma exhaustedStd_network:
  "tokenResult e = Inr tok \<Longrightarrow> fetchResult e = Inl m \<Longrightarrow>
     exhaustedStd e = ApiError (''Request failed after 3 retries: ''
                                 @ (if m = [] then ''Unknown error'' else m)) (RetriesDetail 3)"
  by (simp add: exhaustedStd_def messageOrUnknown_def)

lemma exhaustedStd_server:
  "tokenResult e = Inr tok \<Longrightarrow> fetchResult e = Inr r \<Longrightarrow> body r = Inr d \<Longrightarrow>
     exhaustedStd e =
       ApiError (''API error: '' @
                  (case errorMessage d of
                     None \<Rightarrow> ''HTTP '' @ showNat (status r)
                   | Some m \<Rightarrow> if m = [] then ''HTTP '' @ showNat (status r) else m))
         (StatusDetail (status r))"
  by (simp add: exhaustedStd_def errorMessageOf_def)

lemma extended_fetches:
  "transientExt e1 \<Longrightarrow> transientExt e2 \<Longrightarrow> transientExt e3 \<Longrightarrow> transientExt e4 \<Longrightarrow>
     concat (map (\<lambda>e. if isl (tokenResult e) then []
                       else map antigravityUrl ANTIGRAVITY_API_BASE_URLS) [e1, e2, e3, e4])
       = concat (replicate 4 (map antigravityUrl ANTIGRAVITY_API_BASE_URLS))"
  by (auto simp: transientExt_def numeral_eq_Suc split: sum.splits)

text \<open>
  C2, as amended. In the standard family every attempt that ends in a network failure or
  in a response with a status of at least 500 adds one to the retry counter, and while
  the counter stays within the budget of 3 the dispatcher then waits
  \<open>1000 * 2 ^ (k - 1)\<close> ms, \<open>k\<close> being the new value of the counter. With accounts
  available, a call whose first four attempts fail in this way settles at the fourth and
  not before, after delays of 1000, 2000 and 4000 ms and exactly four fetches, with an
  API error that wraps the message of the last failure: \<^verbatim>\<open>Request failed after 3 retries: \<close>
  and the message of the rejected \<^verbatim>\<open>fetch\<close>, or \<^verbatim>\<open>API error: \<close> and the error message of
  the last 5xx response (\<^verbatim>\<open>HTTP \<close> and the status when it has none).

  In the extended family a network failure or a 5xx response at one candidate URL costs
  nothing: the next candidate URL is tried, and when a later candidate succeeds the
  attempt returns with the retry state as it was and without any delay. An attempt in
  which all three candidate URLs fail in this way adds one to the same counter, with the
  same delays, after one fetch of each candidate URL in order; the fourth such attempt in
  a row settles the call with an API error that wraps the fixed message
  \<^verbatim>\<open>All Antigravity endpoints failed\<close>, and fewer leave it unsettled.
\<close>

theorem transient_retry_policy:
  "(transientStd env \<and> networkRetryCount rs + 1 \<le> MAX_RETRIES \<longrightarrow>
      fst (standardTry model env a rs w) = Retry
    \<and> networkRetryCount (fst (snd (standardTry model env a rs w))) = networkRetryCount rs + 1
    \<and> delaysOf (events (snd (snd (standardTry model env a rs w))))
        = delaysOf (events w) @ [1000 * 2 ^ networkRetryCount rs])
   \<and> (\<not> isAntigravityModel model \<and> allAvailable w
        \<and> transientStd e1 \<and> transientStd e2 \<and> transientStd e3 \<and> transientStd e4 \<longrightarrow>
        (\<exists>w'. callApi jsonParse model (e1 # e2 # e3 # e4 # rest) w = Some (Inl (exhaustedStd e4), w')
            \<and> delaysOf (events w') = delaysOf (events w) @ [1000, 2000, 4000]
            \<and> fetchesOf (events w') = fetchesOf (events w) @ replicate 4 (standardUrl model)
            \<and> marksOf (events w') = marksOf (events w))
      \<and> isApiError (exhaustedStd e4)
      \<and> (\<exists>p. message (exhaustedStd e4) =
                p @ (if failureMessageStd e4 = [] then ''Unknown error'' else failureMessageStd e4)))
   \<and> (\<not> isAntigravityModel model \<and> allAvailable w
        \<and> list_all transientStd es \<and> length es \<le> 3 \<longrightarrow>
        callApi jsonParse model es w = None)
   \<and> (tokenResult e4 = Inr tok \<and> fetchResult e4 = Inl m \<longrightarrow>
        exhaustedStd e4 = ApiError (''Request failed after 3 retries: ''
                                     @ (if m = [] then ''Unknown error'' else m)) (RetriesDetail 3))
   \<and> (tokenResult e4 = Inr tok \<and> fetchResult e4 = Inr r \<and> body r = Inr d
        \<and> errorMessage d = Some m \<and> m \<noteq> [] \<longrightarrow>
        exhaustedStd e4 = ApiError (''API error: '' @ m) (StatusDetail (status r)))
   \<and> (tokenResult e4 = Inr tok \<and> fetchResult e4 = Inr r \<and> body r = Inr d
        \<and> errorMessage d = None \<longrightarrow>
        exhaustedStd e4 = ApiError (''API error: HTTP '' @ showNat (status r)) (StatusDetail (status r)))
   \<and> (tokenResult env = Inr tok \<and> ANTIGRAVITY_API_BASE_URLS = pre @ u # post
        \<and> list_all (failsAt env) pre \<and> succeedsWith jsonParse env u t \<longrightarrow>
        fst (antigravityTry jsonParse env a rs w) = Returned t
      \<and> fst (snd (antigravityTry jsonParse env a rs w)) = rs
      \<and> delaysOf (events (snd (snd (antigravityTry jsonParse env a rs w)))) = delaysOf (events w)
      \<and> fetchesOf (events (snd (snd (antigravityTry jsonParse env a rs w))))
          = fetchesOf (events w) @ map antigravityUrl (pre @ [u]))
   \<and> (tokenResult env = Inr tok \<and> list_all (failsAt env) ANTIGRAVITY_API_BASE_URLS
        \<and> networkRetryCount rs + 1 \<le> MAX_RETRIES \<longrightarrow>
        fst (antigravityTry jsonParse env a rs w) = Retry
      \<and> fst (snd (antigravityTry jsonParse env a rs w))
          = \<lparr>networkRetryCount = networkRetryCount rs + 1,
             lastError = Some (ApiError ''All Antigravity endpoints failed'' NoDetails)\<rparr>
      \<and> delaysOf (events (snd (snd (antigravityTry jsonParse env a rs w))))
          = delaysOf (events w) @ [1000 * 2 ^ networkRetryCount rs]
      \<and> fetchesOf (events (snd (snd (antigravityTry jsonParse env a rs w))))
          = fetchesOf (events w) @ map antigravityUrl ANTIGRAVITY_API_BASE_URLS)
   \<and> (isAntigravityModel model \<and> allAvailable w \<and> allHaveProject w
        \<and> transientExt e1 \<and> transientExt e2 \<and> transientExt e3 \<and> transientExt e4 \<longrightarrow>
        (\<exists>w'. callApi jsonParse model (e1 # e2 # e3 # e4 # rest) w
               = Some (Inl (ApiError
                   ''Antigravity request failed after 3 retries: All Antigravity endpoints failed''
                   (RetriesDetail 3)), w')
            \<and> delaysOf (events w') = delaysOf (events w) @ [1000, 2000, 4000]
            \<and> fetchesOf (events w') = fetchesOf (events w)
                 @ concat (replicate 4 (map antigravityUrl ANTIGRAVITY_API_BASE_URLS))
            \<and> marksOf (events w') = marksOf (events w)))
   \<and> (isAntigravityModel model \<and> allAvailable w \<and> allHaveProject w
        \<and> list_all transientExt es \<and> length es \<le> 3 \<longrightarrow>
        callApi jsonParse model es w = None)"
proof (intro conjI impI)
  assume h: "transientStd env \<and> networkRetryCount rs + 1 \<le> MAX_RETRIES"
  from standardTry_retryable [OF transientStd_retryable, of env w model rs a] h
  obtain w' where t: "standardTry model env a rs w =
                     (Retry, \<lparr>networkRetryCount = networkRetryCount rs + 1,
                              lastError = Some (recordedStd env)\<rparr>, w')"
      "delaysOf (events w') = delaysOf (events w) @ [getBackoffDelay (networkRetryCount rs + 1)]"
    by auto
  show "fst (standardTry model env a rs w) = Retry"
    and "networkRetryCount (fst (snd (standardTry model env a rs w))) = networkRetryCount rs + 1"
    and "delaysOf (events (snd (snd (standardTry model env a rs w))))
        = delaysOf (events w) @ [1000 * 2 ^ networkRetryCount rs]"
    using t by (simp_all add: getBackoffDelay_def BASE_RETRY_DELAY_MS_def)
next
  assume h: "\<not> isAntigravityModel model \<and> allAvailable w
        \<and> transientStd e1 \<and> transientStd e2 \<and> transientStd e3 \<and> transientStd e4"
  from standard_run_exhausts [of w e1 e2 e3 e4 model rest] h transient_fetches [of e1 e2 e3 e4 model]
  show "\<exists>w'. callApi jsonParse model (e1 # e2 # e3 # e4 # rest) w = Some (Inl (exhaustedStd e4), w')
            \<and> delaysOf (events w') = delaysOf (events w) @ [1000, 2000, 4000]
            \<and> fetchesOf (events w') = fetchesOf (events w) @ replicate 4 (standardUrl model)
            \<and> marksOf (events w') = marksOf (events w)"
    by (auto simp: callApi_def transientStd_retryable)
  from h exhaustedStd_transient [of e4]
  show "isApiError (exhaustedStd e4)"
    and "\<exists>p. message (exhaustedStd e4) =
                p @ (if failureMessageStd e4 = [] then ''Unknown error'' else failureMessageStd e4)"
    by blast+
next
  assume h: "\<not> isAntigravityModel model \<and> allAvailable w
        \<and> list_all transientStd es \<and> length es \<le> 3"
  then have "list_all retryableStd es"
    by (auto simp: list_all_iff transientStd_retryable)
  from standard_run_pending [OF _ this, of w initialRetry model] h
  show "callApi jsonParse model es w = None"
    by (simp add: callApi_def callStandardApi_def initialRetry_def MAX_RETRIES_def)
next
  assume "tokenResult e4 = Inr tok \<and> fetchResult e4 = Inl m"
  then show "exhaustedStd e4 = ApiError (''Request failed after 3 retries: ''
                                     @ (if m = [] then ''Unknown error'' else m)) (RetriesDetail 3)"
    using exhaustedStd_network [of e4 tok m] by simp
next
  assume "tokenResult e4 = Inr tok \<and> fetchResult e4 = Inr r \<and> body r = Inr d
        \<and> errorMessage d = Some m \<and> m \<noteq> []"
  then show "exhaustedStd e4 = ApiError (''API error: '' @ m) (StatusDetail (status r))"
    using exhaustedStd_server [of e4 tok r d] by simp
next
  assume "tokenResult e4 = Inr tok \<and> fetchResult e4 = Inr r \<and> body r = Inr d
        \<and> errorMessage d = None"
  then show "exhaustedStd e4 = ApiError (''API error: HTTP '' @ showNat (status r)) (StatusDetail (status r))"
    using exhaustedStd_server [of e4 tok r d] by simp
next
  assume h: "tokenResult env = Inr tok \<and> ANTIGRAVITY_API_BASE_URLS = pre @ u # post
        \<and> list_all (failsAt env) pre \<and> succeedsWith jsonParse env u t"
  from antigravityTry_fails_then_ok [of env tok pre u post jsonParse t a rs w] h
  obtain w' where t: "antigravityTry jsonParse env a rs w = (Returned t, rs, w')"
      "delaysOf (events w') = delaysOf (events w)"
      "fetchesOf (events w') = fetchesOf (events w) @ map antigravityUrl (pre @ [u])"
    by blast
  show "fst (antigravityTry jsonParse env a rs w) = Returned t"
    and "fst (snd (antigravityTry jsonParse env a rs w)) = rs"
    and "delaysOf (events (snd (snd (antigravityTry jsonParse env a rs w)))) = delaysOf (events w)"
    and "fetchesOf (events (snd (snd (antigravityTry jsonParse env a rs w))))
          = fetchesOf (events w) @ map antigravityUrl (pre @ [u])"
    using t by simp_all
next
  assume h: "tokenResult env = Inr tok \<and> list_all (failsAt env) ANTIGRAVITY_API_BASE_URLS
        \<and> networkRetryCount rs + 1 \<le> MAX_RETRIES"
  then have tr: "transientExt env" by (simp add: transientExt_failsAt)
  from antigravityTry_retryable [OF transientExt_retryable [OF tr], of w rs jsonParse a] h
  obtain w' where t: "antigravityTry jsonParse env a rs w =
                     (Retry, \<lparr>networkRetryCount = networkRetryCount rs + 1,
                              lastError = Some (recordedExt env)\<rparr>, w')"
      "delaysOf (events w') = delaysOf (events w) @ [getBackoffDelay (networkRetryCount rs + 1)]"
      "fetchesOf (events w') = fetchesOf (events w) @ map antigravityUrl ANTIGRAVITY_API_BASE_URLS"
    by auto
  have rec: "recordedExt env = ApiError ''All Antigravity endpoints failed'' NoDetails"
    using h by (simp add: recordedExt_def)
  show "fst (antigravityTry jsonParse env a rs w) = Retry"
    and "fst (snd (antigravityTry jsonParse env a rs w))
          = \<lparr>networkRetryCount = networkRetryCount rs + 1,
             lastError = Some (ApiError ''All Antigravity endpoints failed'' NoDetails)\<rparr>"
    and "delaysOf (events (snd (snd (antigravityTry jsonParse env a rs w))))
          = delaysOf (events w) @ [1000 * 2 ^ networkRetryCount rs]"
    and "fetchesOf (events (snd (snd (antigravityTry jsonParse env a rs w))))
          = fetchesOf (events w) @ map antigravityUrl ANTIGRAVITY_API_BASE_URLS"
    using t rec by (simp_all add: getBackoffDelay_def BASE_RETRY_DELAY_MS_def)
next
  assume h: "isAntigravityModel model \<and> allAvailable w \<and> allHaveProject w
        \<and> transientExt e1 \<and> transientExt e2 \<and> transientExt e3 \<and> transientExt e4"
  from extended_run_exhausts [of w e1 e2 e3 e4 jsonParse rest] h exhaustedExt_transient [of e4]
    extended_fetches [of e1 e2 e3 e4]
  show "\<exists>w'. callApi jsonParse model (e1 # e2 # e3 # e4 # rest) w
               = Some (Inl (ApiError
                   ''Antigravity request failed after 3 retries: All Antigravity endpoints failed''
                   (RetriesDetail 3)), w')
            \<and> delaysOf (events w') = delaysOf (events w) @ [1000, 2000, 4000]
            \<and> fetchesOf (events w') = fetchesOf (events w)
                 @ concat (replicate 4 (map antigravityUrl ANTIGRAVITY_API_BASE_URLS))
            \<and> marksOf (events w') = marksOf (events w)"
    by (auto simp: callApi_def transientExt_retryable)
next
  assume h: "isAntigravityModel model \<and> allAvailable w \<and> allHaveProject w
        \<and> list_all transientExt es \<and> length es \<le> 3"
  then have "list_all retryableExt es"
    by (auto simp: list_all_iff transientExt_retryable)
  from extended_run_pending [OF _ _ this, of w initialRetry jsonParse] h
  show "callApi jsonParse model es w = None"
    by (simp add: callApi_def callAntigravityApi_def initialRetry_def MAX_RETRIES_def)
qed

text \<open>
  In the extended family a 503 of the first candidate URL followed by a success of the
  second returns the text with the retry state untouched and no delay; three rejected
  fetches of one attempt cost one unit of the budget; and after four such attempts the
  error raised carries \<^verbatim>\<open>All Antigravity endpoints failed\<close>, not the message
  \<^verbatim>\<open>Network error\<close> of the last failure.
\<close>

theorem transient_retry_policy_counterexample:
  "tokenResult firstDownThenOk = Inr ''token''
   \<and> endpointResult firstDownThenOk ''https://daily-cloudcode-pa.googleapis.com''
       = Inr (http 503 None (Inr []))
   \<and> fst (antigravityTry demoParse firstDownThenOk (acct ''a1'' (Some ''p1'')) initialRetry
             (worldOf [acct ''a1'' (Some ''p1'')])) = Returned ''Hello, world''
   \<and> fst (snd (antigravityTry demoParse firstDownThenOk (acct ''a1'' (Some ''p1'')) initialRetry
             (worldOf [acct ''a1'' (Some ''p1'')]))) = initialRetry
   \<and> delaysOf (events (snd (snd (antigravityTry demoParse firstDownThenOk
             (acct ''a1'' (Some ''p1'')) initialRetry (worldOf [acct ''a1'' (Some ''p1'')]))))) = []
   \<and> map_option fst (callApi demoParse ''gemini-3-pro'' [firstDownThenOk]
                        (worldOf [acct ''a1'' (Some ''p1'')]))
       = Some (Inr ''Hello, world'')
   \<and> tokenResult networkDown = Inr ''token''
   \<and> map (endpointResult networkDown) ANTIGRAVITY_API_BASE_URLS
       = [Inl ''Network error'', Inl ''Network error'', Inl ''Network error'']
   \<and> networkRetryCount (fst (snd (antigravityTry demoParse networkDown (acct ''a1'' (Some ''p1''))
             initialRetry (worldOf [acct ''a1'' (Some ''p1'')])))) = 1
   \<and> fetchesOf (events (snd (snd (antigravityTry demoParse networkDown (acct ''a1'' (Some ''p1''))
             initialRetry (worldOf [acct ''a1'' (Some ''p1'')])))))
       = map antigravityUrl ANTIGRAVITY_API_BASE_URLS
   \<and> map_option fst (callApi demoParse ''gemini-3-pro''
                        [networkDown, networkDown, networkDown, networkDown]
                        (worldOf [acct ''a1'' (Some ''p1'')]))
       = Some (Inl (ApiError
            ''Antigravity request failed after 3 retries: All Antigravity endpoints failed''
            (RetriesDetail 3)))"
proof -
  let ?a = "acct ''a1'' (Some ''p1'')"
  let ?w = "worldOf [?a]"
  have t1: "antigravityTry demoParse firstDownThenOk ?a initialRetry ?w
      = (Returned ''Hello, world'', initialRetry,
         trackerIncrement ''a1''
           (emit (Fetch (antigravityUrl ''https://cloudcode-pa.googleapis.com'') ''token'')
             (emit (Fetch (antigravityUrl ''https://daily-cloudcode-pa.googleapis.com'') ''token'') ?w)))"
    by (simp add: antigravityTry_def ANTIGRAVITY_API_BASE_URLS_def firstDownThenOk_def attemptOf_def
        http_def ok_def parse_demo acct_def Let_def)
  have s1: "selectAccount firstDownThenOk ?w = (Inr ?a, ?w)"
    by (simp add: selectAccount_def getNextAccount_def getAvailableAccounts_def worldOf_def
        newRotator_def firstDownThenOk_def attemptOf_def acct_def)
  have np: "\<not> noProjectId ?a" by (simp add: noProjectId_def acct_def)
  have c1: "map_option fst (callApi demoParse ''gemini-3-pro'' [firstDownThenOk] ?w)
       = Some (Inr ''Hello, world'')"
    using s1 t1 np
    by (simp add: callApi_def isAntigravityModel_def callAntigravityApi_def initialRetry_def
        MAX_RETRIES_def)
  have t2: "antigravityTry demoParse networkDown ?a initialRetry ?w
      = (Retry, \<lparr>networkRetryCount = 1,
                 lastError = Some (ApiError ''All Antigravity endpoints failed'' NoDetails)\<rparr>,
         delayFn 1000
           (emit (Fetch (antigravityUrl ''https://daily-cloudcode-pa.sandbox.googleapis.com'') ''token'')
             (emit (Fetch (antigravityUrl ''https://cloudcode-pa.googleapis.com'') ''token'')
               (emit (Fetch (antigravityUrl ''https://daily-cloudcode-pa.googleapis.com'') ''token'') ?w))))"
    by (simp add: antigravityTry_def ANTIGRAVITY_API_BASE_URLS_def networkDown_def attemptOf_def
        initialRetry_def MAX_RETRIES_def Let_def)
  have tr: "retryableExt networkDown"
    by (simp add: retryableExt_def networkDown_def attemptOf_def ANTIGRAVITY_API_BASE_URLS_def)
  have av: "allAvailable ?w" "allHaveProject ?w"
    by (simp_all add: allAvailable_def allHaveProject_def worldOf_def newRotator_def
        noProjectId_def acct_def)
  from extended_run_exhausts [OF av tr tr tr tr, of demoParse "[]"]
  have c2: "map_option fst (callApi demoParse ''gemini-3-pro''
                        [networkDown, networkDown, networkDown, networkDown] ?w)
       = Some (Inl (ApiError
            ''Antigravity request failed after 3 retries: All Antigravity endpoints failed''
            (RetriesDetail 3)))"
    by (auto simp: callApi_def isAntigravityModel_def exhaustedExt_def recordedExt_def
        messageOrUnknown_def networkDown_def attemptOf_def)
  have e: "tokenResult firstDownThenOk = Inr ''token''"
      "endpointResult firstDownThenOk ''https://daily-cloudcode-pa.googleapis.com''
       = Inr (http 503 None (Inr []))"
      "tokenResult networkDown = Inr ''token''"
      "map (endpointResult networkDown) ANTIGRAVITY_API_BASE_URLS
       = [Inl ''Network error'', Inl ''Network error'', Inl ''Network error'']"
    by (simp_all add: firstDownThenOk_def networkDown_def attemptOf_def ANTIGRAVITY_API_BASE_URLS_def)
  have ew: "events ?w = []" by (simp add: worldOf_def)
  show ?thesis
    unfolding t1 t2 using c1 c2 e
    by (simp add: ew ANTIGRAVITY_API_BASE_URLS_def)
qed

theorem transient_retry_policy_witness:
  "\<not> isAntigravityModel ''gemini-2.5-flash'' \<and> allAvailable (worldOf [acct ''a1'' None])
   \<and> transientStd networkDown
   \<and> (\<exists>w'. callApi demoParse ''gemini-2.5-flash''
              [networkDown, networkDown, networkDown, networkDown] (worldOf [acct ''a1'' None])
            = Some (Inl (ApiError ''Request failed after 3 retries: Network error''
                          (RetriesDetail 3)), w')
          \<and> delaysOf (events w') = [1000, 2000, 4000]
          \<and> fetchesOf (events w') = replicate 4 (standardUrl ''gemini-2.5-flash''))
   \<and> callApi demoParse ''gemini-2.5-flash'' [networkDown, networkDown, networkDown]
        (worldOf [acct ''a1'' None]) = None
   \<and> delaysOf (events (snd (snd (standardTry ''gemini-2.5-flash'' networkDown (acct ''a1'' None)
        \<lparr>networkRetryCount = 2, lastError = None\<rparr> (worldOf [acct ''a1'' None])))))
       = [4000]
   \<and> transientStd serverDown
   \<and> (\<exists>w'. callApi demoParse ''gemini-2.5-flash''
              [networkDown, networkDown, networkDown, serverDown] (worldOf [acct ''a1'' None])
            = Some (Inl (ApiError ''API error: overloaded'' (StatusDetail 503)), w')
          \<and> delaysOf (events w') = [1000, 2000, 4000])
   \<and> transientStd serverDownBare
   \<and> (\<exists>w'. callApi demoParse ''gemini-2.5-flash''
              [serverDown, serverDown, serverDown, serverDownBare] (worldOf [acct ''a1'' None])
            = Some (Inl (ApiError ''API error: HTTP 503'' (StatusDetail 503)), w')
          \<and> delaysOf (events w') = [1000, 2000, 4000])
   \<and> isAntigravityModel ''gemini-3-pro'' \<and> allHaveProject (worldOf [acct ''a1'' (Some ''p1'')])
   \<and> list_all (failsAt firstDownThenOk) [''https://daily-cloudcode-pa.googleapis.com'']
   \<and> succeedsWith demoParse firstDownThenOk ''https://cloudcode-pa.googleapis.com'' ''Hello, world''
   \<and> fst (snd (antigravityTry demoParse firstDownThenOk (acct ''a1'' (Some ''p1''))
        \<lparr>networkRetryCount = 2, lastError = None\<rparr> (worldOf [acct ''a1'' (Some ''p1'')])))
       = \<lparr>networkRetryCount = 2, lastError = None\<rparr>
   \<and> fetchesOf (events (snd (snd (antigravityTry demoParse firstDownThenOk
        (acct ''a1'' (Some ''p1'')) \<lparr>networkRetryCount = 2, lastError = None\<rparr>
        (worldOf [acct ''a1'' (Some ''p1'')])))))
       = [antigravityUrl ''https://daily-cloudcode-pa.googleapis.com'',
          antigravityUrl ''https://cloudcode-pa.googleapis.com'']
   \<and> transientExt networkDown
   \<and> (\<exists>w'. callApi demoParse ''gemini-3-pro''
              [networkDown, networkDown, networkDown, networkDown]
              (worldOf [acct ''a1'' (Some ''p1'')])
            = Some (Inl (ApiError
                 ''Antigravity request failed after 3 retries: All Antigravity endpoints failed''
                 (RetriesDetail 3)), w')
          \<and> delaysOf (events w') = [1000, 2000, 4000]
          \<and> length (fetchesOf (events w')) = 12)
   \<and> callApi demoParse ''gemini-3-pro'' [networkDown, networkDown, networkDown]
        (worldOf [acct ''a1'' (Some ''p1'')]) = None
   \<and> delaysOf (events (snd (snd (antigravityTry demoParse networkDown (acct ''a1'' (Some ''p1''))
        \<lparr>networkRetryCount = 0, lastError = None\<rparr> (worldOf [acct ''a1'' (Some ''p1'')])))))
       = [1000]"
proof -
  let ?w = "worldOf [acct ''a1'' None]" and ?v = "worldOf [acct ''a1'' (Some ''p1'')]"
  let ?n = networkDown and ?s = serverDown and ?b = serverDownBare and ?f = firstDownThenOk
  let ?u1 = "''https://daily-cloudcode-pa.googleapis.com''"
  let ?u2 = "''https://cloudcode-pa.googleapis.com''"
  let ?u3 = "''https://daily-cloudcode-pa.sandbox.googleapis.com''"
  have m: "\<not> isAntigravityModel ''gemini-2.5-flash''" "isAntigravityModel ''gemini-3-pro''"
    by (simp_all add: isAntigravityModel_def)
  have av: "allAvailable ?w" "allAvailable ?v" "allHaveProject ?v"
    by (simp_all add: allAvailable_def allHaveProject_def worldOf_def newRotator_def
        noProjectId_def acct_def)
  have tr: "transientStd ?n" "transientExt ?n" "transientStd ?s" "transientStd ?b"
    by (simp_all add: transientStd_def transientExt_def networkDown_def serverDown_def
        serverDownBare_def attemptOf_def http_def ANTIGRAVITY_API_BASE_URLS_def)
  have ev: "events ?w = []" "events ?v = []" by (simp_all add: worldOf_def)
  note T = transient_retry_policy [where jsonParse = demoParse]
  have ex: "exhaustedStd ?n = ApiError ''Request failed after 3 retries: Network error'' (RetriesDetail 3)"
    using T [where ?e4.0 = ?n and tok = "''token''" and m = "''Network error''",
        THEN conjunct2, THEN conjunct2, THEN conjunct2, THEN conjunct1]
    by (simp add: networkDown_def attemptOf_def)
  have exs: "exhaustedStd ?s = ApiError ''API error: overloaded'' (StatusDetail 503)"
    using T [where ?e4.0 = ?s and tok = "''token''" and m = "''overloaded''"
        and r = "http 503 None (Inr \<lparr>candidates = None, errorMessage = Some ''overloaded''\<rparr>)"
        and d = "\<lparr>candidates = None, errorMessage = Some ''overloaded''\<rparr>",
        THEN conjunct2, THEN conjunct2, THEN conjunct2, THEN conjunct2, THEN conjunct1]
    by (simp add: serverDown_def attemptOf_def http_def)
  have exb: "exhaustedStd ?b = ApiError ''API error: HTTP 503'' (StatusDetail 503)"
    using T [where ?e4.0 = ?b and tok = "''token''"
        and r = "http 503 None (Inr \<lparr>candidates = None, errorMessage = None\<rparr>)"
        and d = "\<lparr>candidates = None, errorMessage = None\<rparr>",
        THEN conjunct2, THEN conjunct2, THEN conjunct2, THEN conjunct2, THEN conjunct2,
        THEN conjunct1]
    by (simp add: serverDownBare_def attemptOf_def http_def showNat.simps)
  from T [where model = "''gemini-2.5-flash''" and w = ?w and ?e1.0 = ?n and ?e2.0 = ?n
      and ?e3.0 = ?n and ?e4.0 = ?n and rest = "[]", THEN conjunct2, THEN conjunct1] m(1) av(1) tr(1)
  have c1: "\<exists>w'. callApi demoParse ''gemini-2.5-flash'' [?n, ?n, ?n, ?n] ?w
            = Some (Inl (ApiError ''Request failed after 3 retries: Network error''
                          (RetriesDetail 3)), w')
          \<and> delaysOf (events w') = [1000, 2000, 4000]
          \<and> fetchesOf (events w') = replicate 4 (standardUrl ''gemini-2.5-flash'')"
    unfolding ex ev by auto
  from T [where model = "''gemini-2.5-flash''" and w = ?w and es = "[?n, ?n, ?n]",
      THEN conjunct2, THEN conjunct2, THEN conjunct1] m(1) av(1) tr(1)
  have c2: "callApi demoParse ''gemini-2.5-flash'' [?n, ?n, ?n] ?w = None"
    by simp
  from T [where env = ?n and rs = "\<lparr>networkRetryCount = 2, lastError = None\<rparr>"
      and model = "''gemini-2.5-flash''" and a = "acct ''a1'' None" and w = ?w, THEN conjunct1] tr(1)
  have c3: "delaysOf (events (snd (snd (standardTry ''gemini-2.5-flash'' ?n (acct ''a1'' None)
        \<lparr>networkRetryCount = 2, lastError = None\<rparr> ?w)))) = [4000]"
    unfolding ev by (simp add: MAX_RETRIES_def)
  from T [where model = "''gemini-2.5-flash''" and w = ?w and ?e1.0 = ?n and ?e2.0 = ?n
      and ?e3.0 = ?n and ?e4.0 = ?s and rest = "[]", THEN conjunct2, THEN conjunct1] m(1) av(1) tr(1,3)
  have c4: "\<exists>w'. callApi demoParse ''gemini-2.5-flash'' [?n, ?n, ?n, ?s] ?w
            = Some (Inl (ApiError ''API error: overloaded'' (StatusDetail 503)), w')
          \<and> delaysOf (events w') = [1000, 2000, 4000]"
    unfolding exs ev by auto
  from T [where model = "''gemini-2.5-flash''" and w = ?w and ?e1.0 = ?s and ?e2.0 = ?s
      and ?e3.0 = ?s and ?e4.0 = ?b and rest = "[]", THEN conjunct2, THEN conjunct1] m(1) av(1) tr(3,4)
  have c5: "\<exists>w'. callApi demoParse ''gemini-2.5-flash'' [?s, ?s, ?s, ?b] ?w
            = Some (Inl (ApiError ''API error: HTTP 503'' (StatusDetail 503)), w')
          \<and> delaysOf (events w') = [1000, 2000, 4000]"
    unfolding exb ev by auto
  have f1: "list_all (failsAt ?f) [?u1]"
    by (simp add: failsAt_def firstDownThenOk_def attemptOf_def http_def)
  have f2: "succeedsWith demoParse ?f ?u2 ''Hello, world''"
    by (simp add: succeedsWith_def firstDownThenOk_def attemptOf_def http_def ok_def parse_demo)
  have f3: "tokenResult ?f = Inr ''token'' \<and> ANTIGRAVITY_API_BASE_URLS = [?u1] @ ?u2 # [?u3]
        \<and> list_all (failsAt ?f) [?u1] \<and> succeedsWith demoParse ?f ?u2 ''Hello, world''"
    using f1 f2 by (simp add: firstDownThenOk_def attemptOf_def ANTIGRAVITY_API_BASE_URLS_def)
  from T [where env = ?f and tok = "''token''" and pre = "[?u1]" and u = ?u2 and post = "[?u3]"
      and t = "''Hello, world''" and a = "acct ''a1'' (Some ''p1'')"
      and rs = "\<lparr>networkRetryCount = 2, lastError = None\<rparr>" and w = ?v,
      THEN conjunct2, THEN conjunct2, THEN conjunct2, THEN conjunct2, THEN conjunct2,
      THEN conjunct2, THEN conjunct1, THEN mp, OF f3]
  have c6: "fst (snd (antigravityTry demoParse ?f (acct ''a1'' (Some ''p1''))
                \<lparr>networkRetryCount = 2, lastError = None\<rparr> ?v))
              = \<lparr>networkRetryCount = 2, lastError = None\<rparr>"
    and c7: "fetchesOf (events (snd (snd (antigravityTry demoParse ?f (acct ''a1'' (Some ''p1''))
                \<lparr>networkRetryCount = 2, lastError = None\<rparr> ?v))))
              = [antigravityUrl ?u1, antigravityUrl ?u2]"
    unfolding ev by simp_all
  from T [where model = "''gemini-3-pro''" and w = ?v and ?e1.0 = ?n and ?e2.0 = ?n
      and ?e3.0 = ?n and ?e4.0 = ?n and rest = "[]", THEN conjunct2, THEN conjunct2,
      THEN conjunct2, THEN conjunct2, THEN conjunct2, THEN conjunct2, THEN conjunct2,
      THEN conjunct2, THEN conjunct1] m(2) av(2,3) tr(2)
  have c8: "\<exists>w'. callApi demoParse ''gemini-3-pro'' [?n, ?n, ?n, ?n] ?v
            = Some (Inl (ApiError
                 ''Antigravity request failed after 3 retries: All Antigravity endpoints failed''
                 (RetriesDetail 3)), w')
          \<and> delaysOf (events w') = [1000, 2000, 4000]
          \<and> length (fetchesOf (events w')) = 12"
    unfolding ev by (auto simp: ANTIGRAVITY_API_BASE_URLS_def numeral_eq_Suc)
  from T [where model = "''gemini-3-pro''" and w = ?v and es = "[?n, ?n, ?n]",
      THEN conjunct2, THEN conjunct2, THEN conjunct2, THEN conjunct2, THEN conjunct2,
      THEN conjunct2, THEN conjunct2, THEN conjunct2, THEN conjunct2] m(2) av(2,3) tr(2)
  have c9: "callApi demoParse ''gemini-3-pro'' [?n, ?n, ?n] ?v = None"
    by simp
  have fa: "tokenResult ?n = Inr ''token'' \<and> list_all (failsAt ?n) ANTIGRAVITY_API_BASE_URLS
        \<and> networkRetryCount \<lparr>networkRetryCount = 0, lastError = None\<rparr> + 1 \<le> MAX_RETRIES"
    by (simp add: failsAt_def networkDown_def attemptOf_def ANTIGRAVITY_API_BASE_URLS_def
        MAX_RETRIES_def)
  from T [where env = ?n and tok = "''token''" and rs = "\<lparr>networkRetryCount = 0, lastError = None\<rparr>"
      and a = "acct ''a1'' (Some ''p1'')" and w = ?v,
      THEN conjunct2, THEN conjunct2, THEN conjunct2, THEN conjunct2, THEN conjunct2,
      THEN conjunct2, THEN conjunct2, THEN conjunct1, THEN mp, OF fa]
  have c10: "delaysOf (events (snd (snd (antigravityTry demoParse ?n (acct ''a1'' (Some ''p1''))
        \<lparr>networkRetryCount = 0, lastError = None\<rparr> ?v)))) = [1000]"
    unfolding ev by simp
  from m av tr c1 c2 c3 c4 c5 f1 f2 c6 c7 c8 c9 c10 show ?thesis by blast
qed

section \<open>Token manager with invocations in flight: properties\<close>

text \<open>
  A single invocation in the model with invocations in flight does what the sequential
  model does: the same result and the same state of the token manager.
\<close>

lemmas step_defs =
  invokeGetAccessToken_def validCachedToken_def validStoredToken_def
  startGetAccount_def loadedGetAccount_def setPhase_def setRefresh_def enterRefreshToken_def
  resumeGetAccessToken_def resumeRefreshToken_def resumeDoRefresh_def actualRefreshToken_def
  replyResult_def endpointSettled_def reloadSettled_def saveSettled_def cacheRefreshed_def

lemma callTokenEndpoint_reply:
  "callTokenEndpoint env rt tm =
     (replyResult (endpointReply env) (nowGranted env),
      logCall (TokenEndpointCall (actualRefreshToken rt)) tm)"
  by (simp add: callTokenEndpoint_def replyResult_def actualRefreshToken_def Let_def
      split: tokenReply.splits sum.splits prod.splits)

lemma alone_hit:
  assumes "validCachedToken (nowCache env) i tm = Some tok"
  shows "resultOf (deliverAll (alone env c i) (idle tm)) c = Some (Inr tok)"
    and "manager (deliverAll (alone env c i) (idle tm)) = tm"
    and "getAccessToken env i tm = (Inr tok, tm)"
  using assms
  by (auto simp: alone_def idle_def step_defs resultOf_def getAccessToken_def
      split: option.splits if_splits)

lemma doRefresh_agrees:
  assumes st: "storageCache tm1 = Some st" "find (\<lambda>a. accId a = i) (storedAccounts st) = Some a"
  shows "resultOf (deliverAll (refreshAlone env c) (refreshing tm1 c i a)) c
           = Some (fst (doRefresh env i tm1))
       \<and> manager (deliverAll (refreshAlone env c) (refreshing tm1 c i a))
           = snd (doRefresh env i tm1)"
proof (cases "refreshToken a = []")
  case True
  with st show ?thesis
    by (simp add: refreshing_def refreshAlone_def step_defs resultOf_def doRefresh_def getAccount_tm_def)
next
  case False
  show ?thesis
  proof (cases "replyResult (endpointReply env) (nowGranted env)")
    case (Inl e)
    with st False show ?thesis
      by (simp add: refreshing_def refreshAlone_def step_defs resultOf_def doRefresh_def getAccount_tm_def
          callTokenEndpoint_reply)
  next
    case (Inr g)
    obtain tok ex where g: "g = (tok, ex)" by (cases g)
    show ?thesis
    proof (cases "reloadResult env")
      case (Inl m)
      with st False Inr g show ?thesis
        by (simp add: refreshing_def refreshAlone_def resultOf_def doRefresh_def getAccount_tm_def
          callTokenEndpoint_reply updateAccountToken_def setRefresh_def setPhase_def
          resumeDoRefresh_def endpointSettled_def reloadSettled_def resumeRefreshToken_def Let_def)
    next
      case Inr2: (Inr st2)
      show ?thesis
      proof (cases "findIndex (\<lambda>a. accId a = i) (storedAccounts st2)")
        case None
        with st False Inr g Inr2 show ?thesis
          by (simp add: refreshing_def refreshAlone_def resultOf_def doRefresh_def getAccount_tm_def
            callTokenEndpoint_reply updateAccountToken_def setRefresh_def setPhase_def
            resumeDoRefresh_def endpointSettled_def reloadSettled_def resumeRefreshToken_def Let_def)
      next
        case (Some k)
        with st False Inr g Inr2 show ?thesis
          by (cases "saveResult env")
            (simp_all add: refreshing_def refreshAlone_def resultOf_def doRefresh_def getAccount_tm_def
              callTokenEndpoint_reply updateAccountToken_def setRefresh_def setPhase_def
              resumeDoRefresh_def endpointSettled_def reloadSettled_def saveSettled_def
              cacheRefreshed_def resumeRefreshToken_def Let_def logCall_def cacheToken_def)
      qed
    qed
  qed
qed

lemma deliverAll_append: "deliverAll (xs @ ys) s = deliverAll ys (deliverAll xs s)"
  by (induction xs arbitrary: s) simp_all

lemma settledAlone_stays:
  "deliverAll (refreshAlone env c) (settledAlone tm1 c i r) = settledAlone tm1 c i r"
  by (simp add: refreshAlone_def settledAlone_def)

lemma alone_split:
  "alone env c i =
     [Invoke c GetAccessTokenCall i (nowCache env),
      LoadSettles (Invocation c) (loadResult env) 0 0,
      Resume (Invocation c) (nowStored env)] @ refreshAlone env c"
  by (simp add: alone_def refreshAlone_def)

lemma alone_start:
  assumes "validCachedToken (nowCache env) i tm = None"
  shows "deliverAll [Invoke c GetAccessTokenCall i (nowCache env),
      LoadSettles (Invocation c) (loadResult env) 0 0,
      Resume (Invocation c) (nowStored env)] (idle tm) =
     (case getAccount_tm env i tm of
        (Inl e, tm1) \<Rightarrow> settledAlone tm1 c i (Inl e)
      | (Inr None, tm1) \<Rightarrow>
          settledAlone tm1 c i (Inl (AuthenticationError (''Account not found: '' @ i)))
      | (Inr (Some a), tm1) \<Rightarrow>
          (case validStoredToken (nowStored env) a of
             Some (tok, ex) \<Rightarrow> settledAlone (cacheToken i tok ex tm1) c i (Inr tok)
           | None \<Rightarrow> refreshing tm1 c i a))"
proof (cases "storageCache tm")
  case None
  with assms show ?thesis
    by (cases "loadResult env")
      (auto simp: idle_def invokeGetAccessToken_def startGetAccount_def loadedGetAccount_def
        setPhase_def setRefresh_def resumeGetAccessToken_def enterRefreshToken_def
        getAccount_tm_def settledAlone_def refreshing_def logCall_def cacheToken_def
        split: option.splits)
next
  case (Some st)
  with assms show ?thesis
    by (auto simp: idle_def invokeGetAccessToken_def startGetAccount_def loadedGetAccount_def
        setPhase_def setRefresh_def resumeGetAccessToken_def enterRefreshToken_def
        getAccount_tm_def settledAlone_def refreshing_def
        split: option.splits)
qed

lemma getAccount_tm_cached:
  "getAccount_tm env i tm = (Inr (Some a), tm1) \<Longrightarrow>
     \<exists>st. storageCache tm1 = Some st \<and> find (\<lambda>a. accId a = i) (storedAccounts st) = Some a"
  by (auto simp: getAccount_tm_def logCall_def split: option.splits sum.splits)

lemma fromStorage_stored:
  "fromStorageOrRefresh env i tm =
     (case getAccount_tm env i tm of
        (Inl e, tm1) \<Rightarrow> (Inl e, tm1)
      | (Inr None, tm1) \<Rightarrow> (Inl (AuthenticationError (''Account not found: '' @ i)), tm1)
      | (Inr (Some a), tm1) \<Rightarrow>
          (case validStoredToken (nowStored env) a of
             Some (tok, ex) \<Rightarrow> (Inr tok, cacheToken i tok ex tm1)
           | None \<Rightarrow> doRefresh env i tm1))"
  by (auto simp: fromStorageOrRefresh_def validStoredToken_def refreshToken_tm_def
      split: prod.splits sum.splits option.splits)

lemma getAccessToken_miss:
  "validCachedToken now i tm = None \<Longrightarrow> nowCache env = now \<Longrightarrow>
     getAccessToken env i tm = fromStorageOrRefresh env i tm"
  by (auto simp: validCachedToken_def getAccessToken_def split: option.splits if_splits)

lemma alone_agrees:
  "resultOf (deliverAll (alone env c i) (idle tm)) c = Some (fst (getAccessToken env i tm))
   \<and> manager (deliverAll (alone env c i) (idle tm)) = snd (getAccessToken env i tm)"
proof (cases "validCachedToken (nowCache env) i tm")
  case (Some tok)
  from alone_hit [OF this] show ?thesis by simp
next
  case None
  note g = getAccessToken_miss [OF None refl]
  obtain r tm1 where ga: "getAccount_tm env i tm = (r, tm1)" by (cases "getAccount_tm env i tm")
  have obs: "\<And>t r'. resultOf (settledAlone t c i r') c = Some r' \<and> manager (settledAlone t c i r') = t"
    by (simp add: settledAlone_def resultOf_def)
  show ?thesis
  proof (cases r)
    case (Inl e)
    with ga show ?thesis
      unfolding alone_split deliverAll_append alone_start [OF None] g fromStorage_stored
      by (simp add: settledAlone_stays obs)
  next
    case (Inr ao)
    show ?thesis
    proof (cases ao)
      case None
      with ga Inr show ?thesis
        unfolding alone_split deliverAll_append alone_start [OF \<open>validCachedToken (nowCache env) i tm = None\<close>]
          g fromStorage_stored
        by (simp add: settledAlone_stays obs)
    next
      case (Some a)
      from ga Inr Some have "getAccount_tm env i tm = (Inr (Some a), tm1)" by simp
      from getAccount_tm_cached [OF this]
      obtain st where st: "storageCache tm1 = Some st"
          "find (\<lambda>a. accId a = i) (storedAccounts st) = Some a" by auto
      show ?thesis
      proof (cases "validStoredToken (nowStored env) a")
        case None
        with ga Inr Some doRefresh_agrees [OF st, of env c] show ?thesis
          unfolding alone_split deliverAll_append
            alone_start [OF \<open>validCachedToken (nowCache env) i tm = None\<close>] g fromStorage_stored
          by simp
      next
        case (Some te)
        obtain tok ex where "te = (tok, ex)" by (cases te)
        with ga Inr \<open>ao = Some a\<close> Some show ?thesis
          unfolding alone_split deliverAll_append
            alone_start [OF \<open>validCachedToken (nowCache env) i tm = None\<close>] g fromStorage_stored
          by (simp add: settledAlone_stays obs)
      qed
    qed
  qed
qed

text \<open>
  What the map \<^verbatim>\<open>refreshPromises\<close> achieves, in every run from an idle token manager.
\<close>

lemma consistent_idle: "consistent (idle tm)"
  by (simp add: consistent_def idle_def pendingRefresh_def)

lemma consistentD:
  assumes "consistent s"
  shows "pendingRefresh s i f \<Longrightarrow> map_of (refreshPromises s) i = Some f"
    and "map_of (refreshPromises s) i = Some f \<Longrightarrow> \<exists>p. refreshes s f = Some (i, p)"
    and "map_of (refreshPromises s) i = Some f \<Longrightarrow>
           invocations s f = Some \<lparr>forAccount = i, phase = InRefresh f\<rparr>"
    and "invocations s c = Some v \<Longrightarrow> phase v = InGetAccount aw \<Longrightarrow> refreshes s c = None"
    and "invocations s c = Some v \<Longrightarrow> phase v = InRefresh f \<Longrightarrow>
           \<exists>p. refreshes s f = Some (forAccount v, p)"
    and "invocations s c = Some v \<Longrightarrow> phase v = InRefresh c \<Longrightarrow>
           map_of (refreshPromises s) (forAccount v) = Some c"
    and "invocations s f = None \<Longrightarrow> refreshes s f = None"
proof -
  note c = assms [unfolded consistent_def]
  show "pendingRefresh s i f \<Longrightarrow> map_of (refreshPromises s) i = Some f"
    using c [THEN conjunct1] by simp
  show "map_of (refreshPromises s) i = Some f \<Longrightarrow> \<exists>p. refreshes s f = Some (i, p)"
    using c [THEN conjunct2, THEN conjunct1] by simp
  show "map_of (refreshPromises s) i = Some f \<Longrightarrow>
           invocations s f = Some \<lparr>forAccount = i, phase = InRefresh f\<rparr>"
    using c [THEN conjunct2, THEN conjunct2, THEN conjunct1] by simp
  show "invocations s c = Some v \<Longrightarrow> phase v = InGetAccount aw \<Longrightarrow> refreshes s c = None"
    using c [THEN conjunct2, THEN conjunct2, THEN conjunct2, THEN conjunct1] by simp
  show "invocations s c = Some v \<Longrightarrow> phase v = InRefresh f \<Longrightarrow>
           \<exists>p. refreshes s f = Some (forAccount v, p)"
    using c [THEN conjunct2, THEN conjunct2, THEN conjunct2, THEN conjunct2, THEN conjunct1]
    by simp
  show "invocations s c = Some v \<Longrightarrow> phase v = InRefresh c \<Longrightarrow>
           map_of (refreshPromises s) (forAccount v) = Some c"
    using c [THEN conjunct2, THEN conjunct2, THEN conjunct2, THEN conjunct2, THEN conjunct2,
        THEN conjunct1]
    by simp
  show "invocations s f = None \<Longrightarrow> refreshes s f = None"
    using c [THEN conjunct2, THEN conjunct2, THEN conjunct2, THEN conjunct2, THEN conjunct2,
        THEN conjunct2]
    by simp
qed

lemma consistentI:
  assumes "\<And>i f. pendingRefresh s i f \<Longrightarrow> map_of (refreshPromises s) i = Some f"
    and "\<And>i f. map_of (refreshPromises s) i = Some f \<Longrightarrow> \<exists>p. refreshes s f = Some (i, p)"
    and "\<And>i f. map_of (refreshPromises s) i = Some f \<Longrightarrow>
           invocations s f = Some \<lparr>forAccount = i, phase = InRefresh f\<rparr>"
    and "\<And>c v aw. invocations s c = Some v \<Longrightarrow> phase v = InGetAccount aw \<Longrightarrow> refreshes s c = None"
    and "\<And>c v f. invocations s c = Some v \<Longrightarrow> phase v = InRefresh f \<Longrightarrow>
           \<exists>p. refreshes s f = Some (forAccount v, p)"
    and "\<And>c v. invocations s c = Some v \<Longrightarrow> phase v = InRefresh c \<Longrightarrow>
           map_of (refreshPromises s) (forAccount v) = Some c"
    and "\<And>f. invocations s f = None \<Longrightarrow> refreshes s f = None"
  shows "consistent s"
  unfolding consistent_def
  apply (intro conjI allI impI)
  subgoal by (rule assms(1))
  subgoal by (rule assms(2))
  subgoal by (rule assms(3))
  subgoal by (rule assms(4))
  subgoal by (rule assms(5))
  subgoal by (rule assms(6))
  subgoal by (rule assms(7))
  done

lemma consistent_setRefresh:
  assumes c: "consistent s" and f: "refreshes s f = Some (i, p)" and np: "\<not> settledRefresh p"
  shows "consistent (setRefresh f i p' (s\<lparr>manager := tm'\<rparr>))" (is "consistent ?s'")
proof (rule consistentI)
  have r: "refreshes ?s' = (refreshes s)(f \<mapsto> (i, p'))"
    and m: "refreshPromises ?s' = refreshPromises s" and v: "invocations ?s' = invocations s"
    by (simp_all add: setRefresh_def)
  have pf: "pendingRefresh s i f" using f np by (simp add: pendingRefresh_def)
  note D = consistentD [OF c]
  show "map_of (refreshPromises ?s') j = Some g" if "pendingRefresh ?s' j g" for j g
  proof (cases "g = f")
    case True
    with that have "j = i" by (simp add: pendingRefresh_def r)
    with True D(1) [OF pf] show ?thesis by (simp add: m)
  next
    case False
    with that have "pendingRefresh s j g" by (simp add: pendingRefresh_def r)
    from D(1) [OF this] show ?thesis by (simp add: m)
  qed
  show "\<exists>q. refreshes ?s' g = Some (j, q)" if "map_of (refreshPromises ?s') j = Some g" for j g
  proof -
    from that D(2) [of j g] obtain q where q: "refreshes s g = Some (j, q)" by (auto simp: m)
    show ?thesis
    proof (cases "g = f")
      case True
      with q f show ?thesis by (simp add: setRefresh_def)
    next
      case False
      with q show ?thesis by (simp add: r)
    qed
  qed
  show "invocations ?s' g = Some \<lparr>forAccount = j, phase = InRefresh g\<rparr>"
    if "map_of (refreshPromises ?s') j = Some g" for j g
    using that D(3) [of j g] by (simp add: m v)
  show "refreshes ?s' k = None" if "invocations ?s' k = Some w" "phase w = InGetAccount aw" for k w aw
  proof -
    from that D(4) [of k w aw] have "refreshes s k = None" by (simp add: v)
    with f have "k \<noteq> f" by auto
    with \<open>refreshes s k = None\<close> show ?thesis by (simp add: r)
  qed
  show "\<exists>q. refreshes ?s' g = Some (forAccount w, q)"
    if "invocations ?s' k = Some w" "phase w = InRefresh g" for k w g
  proof -
    from that D(5) [of k w g] obtain q where q: "refreshes s g = Some (forAccount w, q)"
      by (auto simp: v)
    show ?thesis
    proof (cases "g = f")
      case True
      with q f show ?thesis by (simp add: setRefresh_def)
    next
      case False
      with q show ?thesis by (simp add: r)
    qed
  qed
  show "map_of (refreshPromises ?s') (forAccount w) = Some k"
    if "invocations ?s' k = Some w" "phase w = InRefresh k" for k w
    using that D(6) [of k w] by (simp add: m v)
  show "refreshes ?s' g = None" if "invocations ?s' g = None" for g
  proof -
    from that D(7) [of g] have n: "refreshes s g = None" by (simp add: v)
    with f have "g \<noteq> f" by auto
    with n show ?thesis by (simp add: r)
  qed
qed

lemma consistent_setPhase:
  assumes c: "consistent s" and f: "refreshes s c = None" and np: "\<forall>f. p \<noteq> InRefresh f"
  shows "consistent (setPhase c i p (s\<lparr>manager := tm'\<rparr>))" (is "consistent ?s'")
proof (rule consistentI)
  have r: "refreshes ?s' = refreshes s"
    and m: "refreshPromises ?s' = refreshPromises s"
    and v: "invocations ?s' = (invocations s)(c \<mapsto> \<lparr>forAccount = i, phase = p\<rparr>)"
    by (simp_all add: setPhase_def)
  note D = consistentD [OF c]
  have pr: "pendingRefresh ?s' = pendingRefresh s" by (simp add: pendingRefresh_def r fun_eq_iff)
  have nc: "g \<noteq> c" if "map_of (refreshPromises s) j = Some g" for j g
    using D(2) [OF that] f by auto
  show "map_of (refreshPromises ?s') j = Some g" if "pendingRefresh ?s' j g" for j g
    using that D(1) [of j g] by (simp add: pr m)
  show "\<exists>q. refreshes ?s' g = Some (j, q)" if "map_of (refreshPromises ?s') j = Some g" for j g
    using that D(2) [of j g] by (simp add: m r)
  show "invocations ?s' g = Some \<lparr>forAccount = j, phase = InRefresh g\<rparr>"
    if "map_of (refreshPromises ?s') j = Some g" for j g
    using that D(3) [of j g] nc [of j g] by (simp add: m v)
  show "refreshes ?s' k = None" if "invocations ?s' k = Some w" "phase w = InGetAccount aw" for k w aw
    using that D(4) [of k w aw] f by (cases "k = c") (simp_all add: v r)
  show "\<exists>q. refreshes ?s' g = Some (forAccount w, q)"
    if "invocations ?s' k = Some w" "phase w = InRefresh g" for k w g
  proof (cases "k = c")
    case True
    with that np show ?thesis by (auto simp: v)
  next
    case False
    with that D(5) [of k w g] show ?thesis by (simp add: v r)
  qed
  show "map_of (refreshPromises ?s') (forAccount w) = Some k"
    if "invocations ?s' k = Some w" "phase w = InRefresh k" for k w
  proof (cases "k = c")
    case True
    with that np show ?thesis by (auto simp: v)
  next
    case False
    with that D(6) [of k w] show ?thesis by (simp add: v m)
  qed
  show "refreshes ?s' g = None" if "invocations ?s' g = None" for g
  proof (cases "g = c")
    case True
    with f show ?thesis by (simp add: r)
  next
    case False
    with that D(7) [of g] show ?thesis by (simp add: v r)
  qed
qed

lemma consistent_join:
  assumes c: "consistent s" and f: "refreshes s c = None"
    and e: "map_of (refreshPromises s) i = Some f"
  shows "consistent (setPhase c i (InRefresh f) s)"
proof -
  define s' where "s' = setPhase c i (InRefresh f) s"
  have r: "refreshes s' = refreshes s"
    and m: "refreshPromises s' = refreshPromises s"
    and v: "invocations s' = (invocations s)(c \<mapsto> \<lparr>forAccount = i, phase = InRefresh f\<rparr>)"
    by (simp_all add: s'_def setPhase_def)
  note D = consistentD [OF c]
  have pr: "pendingRefresh s' = pendingRefresh s" by (simp add: pendingRefresh_def r fun_eq_iff)
  have nc: "g \<noteq> c" if "map_of (refreshPromises s) j = Some g" for j g
    using D(2) [OF that] f by auto
  from D(2) [OF e] obtain p where p: "refreshes s f = Some (i, p)" by blast
  have fc: "f \<noteq> c" using nc [OF e] .
  have "consistent s'"
  proof (rule consistentI)
    show "map_of (refreshPromises s') j = Some g" if "pendingRefresh s' j g" for j g
      using that D(1) [of j g] by (simp add: pr m)
    show "\<exists>q. refreshes s' g = Some (j, q)" if "map_of (refreshPromises s') j = Some g" for j g
      using that D(2) [of j g] by (simp add: m r)
    show "invocations s' g = Some \<lparr>forAccount = j, phase = InRefresh g\<rparr>"
      if "map_of (refreshPromises s') j = Some g" for j g
      using that D(3) [of j g] nc [of j g] by (simp add: m v)
    show "refreshes s' k = None" if "invocations s' k = Some w" "phase w = InGetAccount aw" for k w aw
      using that D(4) [of k w aw] by (cases "k = c") (auto simp: v r)
    show "\<exists>q. refreshes s' g = Some (forAccount w, q)"
      if "invocations s' k = Some w" "phase w = InRefresh g" for k w g
    proof (cases "k = c")
      case True
      with that p show ?thesis by (auto simp: v r)
    next
      case False
      with that D(5) [of k w g] show ?thesis by (simp add: v r)
    qed
    show "map_of (refreshPromises s') (forAccount w) = Some k"
      if "invocations s' k = Some w" "phase w = InRefresh k" for k w
    proof (cases "k = c")
      case True
      with that fc show ?thesis by (auto simp: v)
    next
      case False
      with that D(6) [of k w] show ?thesis by (simp add: v m)
    qed
    show "refreshes s' g = None" if "invocations s' g = None" for g
    proof (cases "g = c")
      case True
      with f show ?thesis by (simp add: r)
    next
      case False
      with that D(7) [of g] show ?thesis by (simp add: v r)
    qed
  qed
  then show ?thesis by (simp add: s'_def)
qed

lemma consistent_start:
  assumes c: "consistent s" and f: "refreshes s c = None"
    and e: "map_of (refreshPromises s) i = None"
  shows "consistent (setPhase c i (InRefresh c)
           (setRefresh c i (RGetAccount aw)
              (s\<lparr>manager := tm, refreshPromises := AList.update i c (refreshPromises s)\<rparr>)))"
proof -
  define s' where "s' = setPhase c i (InRefresh c)
           (setRefresh c i (RGetAccount aw)
              (s\<lparr>manager := tm, refreshPromises := AList.update i c (refreshPromises s)\<rparr>))"
  have r: "refreshes s' = (refreshes s)(c \<mapsto> (i, RGetAccount aw))"
    and m: "map_of (refreshPromises s') = (map_of (refreshPromises s))(i \<mapsto> c)"
    and v: "invocations s' = (invocations s)(c \<mapsto> \<lparr>forAccount = i, phase = InRefresh c\<rparr>)"
    by (simp_all add: s'_def setPhase_def setRefresh_def update_conv')
  note D = consistentD [OF c]
  have nc: "g \<noteq> c" if "map_of (refreshPromises s) j = Some g" for j g
    using D(2) [OF that] f by auto
  have "consistent s'"
  proof (rule consistentI)
    show "map_of (refreshPromises s') j = Some g" if "pendingRefresh s' j g" for j g
    proof (cases "g = c")
      case True
      with that have "j = i" by (simp add: pendingRefresh_def r)
      with True show ?thesis by (simp add: m)
    next
      case False
      with that have "pendingRefresh s j g" by (simp add: pendingRefresh_def r)
      from D(1) [OF this] e show ?thesis by (auto simp: m)
    qed
    show "\<exists>q. refreshes s' g = Some (j, q)" if "map_of (refreshPromises s') j = Some g" for j g
    proof (cases "j = i")
      case True
      with that show ?thesis by (auto simp: m r)
    next
      case False
      with that have g: "map_of (refreshPromises s) j = Some g" by (simp add: m)
      from D(2) [OF g] nc [OF g] show ?thesis by (simp add: r)
    qed
    show "invocations s' g = Some \<lparr>forAccount = j, phase = InRefresh g\<rparr>"
      if "map_of (refreshPromises s') j = Some g" for j g
    proof (cases "j = i")
      case True
      with that show ?thesis by (auto simp: m v)
    next
      case False
      with that have g: "map_of (refreshPromises s) j = Some g" by (simp add: m)
      from D(3) [OF g] nc [OF g] show ?thesis by (simp add: v)
    qed
    show "refreshes s' k = None" if "invocations s' k = Some w" "phase w = InGetAccount aw'" for k w aw'
    proof (cases "k = c")
      case True
      with that show ?thesis by (auto simp: v)
    next
      case False
      with that D(4) [of k w aw'] show ?thesis by (simp add: v r)
    qed
    show "\<exists>q. refreshes s' g = Some (forAccount w, q)"
      if "invocations s' k = Some w" "phase w = InRefresh g" for k w g
    proof (cases "k = c")
      case True
      with that show ?thesis by (auto simp: v r)
    next
      case False
      with that D(5) [of k w g] obtain q where q: "refreshes s g = Some (forAccount w, q)"
        by (auto simp: v)
      with f have "g \<noteq> c" by auto
      with q show ?thesis by (simp add: r)
    qed
    show "map_of (refreshPromises s') (forAccount w) = Some k"
      if "invocations s' k = Some w" "phase w = InRefresh k" for k w
    proof (cases "k = c")
      case True
      with that show ?thesis by (auto simp: v m)
    next
      case False
      with that D(6) [of k w] have g: "map_of (refreshPromises s) (forAccount w) = Some k"
        by (simp add: v)
      with e have "forAccount w \<noteq> i" by auto
      with g show ?thesis by (simp add: m)
    qed
    show "refreshes s' g = None" if "invocations s' g = None" for g
    proof (cases "g = c")
      case True
      with that show ?thesis by (simp add: v)
    next
      case False
      with that D(7) [of g] show ?thesis by (simp add: v r)
    qed
  qed
  then show ?thesis by (simp add: s'_def)
qed

lemma consistent_enterRefreshToken:
  assumes "consistent s" "refreshes s c = None"
  shows "consistent (enterRefreshToken c i s)"
proof (cases "map_of (refreshPromises s) i")
  case None
  obtain aw tm where "startGetAccount i (manager s) = (aw, tm)"
    by (cases "startGetAccount i (manager s)")
  with None consistent_start [OF assms None, of aw tm] show ?thesis
    by (simp add: enterRefreshToken_def)
next
  case (Some f)
  with consistent_join [OF assms Some] show ?thesis by (simp add: enterRefreshToken_def)
qed

lemma consistent_leave:
  assumes c: "consistent s"
    and w: "invocations s c = Some \<lparr>forAccount = i, phase = InRefresh f\<rparr>"
    and fr: "refreshes s f = Some (j, RSettled r)"
  shows "consistent (setPhase c i (Settled r)
           (if f = c then s\<lparr>refreshPromises := AList.delete i (refreshPromises s)\<rparr> else s))"
proof -
  define s' where "s' = setPhase c i (Settled r)
           (if f = c then s\<lparr>refreshPromises := AList.delete i (refreshPromises s)\<rparr> else s)"
  have r: "refreshes s' = refreshes s"
    and m: "map_of (refreshPromises s')
              = (if f = c then (map_of (refreshPromises s))(i := None) else map_of (refreshPromises s))"
    and v: "invocations s' = (invocations s)(c \<mapsto> \<lparr>forAccount = i, phase = Settled r\<rparr>)"
    by (simp_all add: s'_def setPhase_def delete_conv')
  note D = consistentD [OF c]
  have pr: "pendingRefresh s' = pendingRefresh s" by (simp add: pendingRefresh_def r fun_eq_iff)
  have own: "f = c \<and> k = i" if "map_of (refreshPromises s) k = Some c" for k
    using D(3) [OF that] w by auto
  have keep: "map_of (refreshPromises s) k = Some g" if "map_of (refreshPromises s') k = Some g" for k g
    using that by (auto simp: m split: if_splits)
  have kept: "map_of (refreshPromises s') k = Some g"
    if a: "map_of (refreshPromises s) k = Some g" "g \<noteq> c" for k g
  proof (cases "f = c \<and> k = i")
    case True
    then have "phase \<lparr>forAccount = i, phase = InRefresh f\<rparr> = InRefresh c" by simp
    from D(6) [OF w this] have "map_of (refreshPromises s) i = Some c" by simp
    with a True show ?thesis by simp
  next
    case False
    with a show ?thesis by (auto simp: m)
  qed
  have "consistent s'"
  proof (rule consistentI)
    show "map_of (refreshPromises s') k = Some g" if "pendingRefresh s' k g" for k g
    proof -
      from that have p: "pendingRefresh s k g" by (simp add: pr)
      from D(1) [OF p] have e: "map_of (refreshPromises s) k = Some g" .
      have "g \<noteq> c"
      proof
        assume gc: "g = c"
        with e own [of k] have "f = c" "k = i" by simp_all
        with p fr gc show False by (simp add: pendingRefresh_def settledRefresh_def)
      qed
      from kept [OF e this] show ?thesis .
    qed
    show "\<exists>q. refreshes s' g = Some (k, q)" if "map_of (refreshPromises s') k = Some g" for k g
      using D(2) [OF keep [OF that]] by (simp add: r)
    show "invocations s' g = Some \<lparr>forAccount = k, phase = InRefresh g\<rparr>"
      if "map_of (refreshPromises s') k = Some g" for k g
    proof -
      from keep [OF that] have e: "map_of (refreshPromises s) k = Some g" .
      have "g \<noteq> c"
      proof
        assume gc: "g = c"
        with e own [of k] have "f = c" "k = i" by simp_all
        with that show False by (simp add: m)
      qed
      with D(3) [OF e] show ?thesis by (simp add: v)
    qed
    show "refreshes s' k = None" if "invocations s' k = Some u" "phase u = InGetAccount aw" for k u aw
      using that D(4) [of k u aw] by (cases "k = c") (auto simp: v r)
    show "\<exists>q. refreshes s' g = Some (forAccount u, q)"
      if "invocations s' k = Some u" "phase u = InRefresh g" for k u g
      using that D(5) [of k u g] by (cases "k = c") (auto simp: v r)
    show "map_of (refreshPromises s') (forAccount u) = Some k"
      if "invocations s' k = Some u" "phase u = InRefresh k" for k u
    proof (cases "k = c")
      case True
      with that show ?thesis by (auto simp: v)
    next
      case False
      with that have u: "invocations s k = Some u" by (simp add: v)
      from D(6) [OF u that(2)] have e: "map_of (refreshPromises s) (forAccount u) = Some k" .
      from kept [OF e False] show ?thesis .
    qed
    show "refreshes s' g = None" if "invocations s' g = None" for g
      using that D(7) [of g] by (cases "g = c") (auto simp: v r)
  qed
  then show ?thesis by (simp add: s'_def)
qed

lemma consistent_refresh_step:
  assumes c: "consistent s" and f: "refreshes s f = Some (i, p)" and np: "\<not> settledRefresh p"
  shows "consistent (setRefresh f i p' s)"
    and "consistent (resumeDoRefresh f i r s)"
    and "consistent (endpointSettled f i reply now s)"
    and "consistent (reloadSettled f i tok ex lr now now' s)"
    and "consistent (saveSettled f i tok ex st' sr s)"
    and "consistent (cacheRefreshed f i tok ex s)"
    and "consistent (setRefresh f i p' (s\<lparr>manager := tm'\<rparr>))"
proof -
  note S = consistent_setRefresh [OF c f np]
  show "consistent (setRefresh f i p' (s\<lparr>manager := tm'\<rparr>))" by (rule S)
  show 0: "consistent (setRefresh f i q s)" for q
    using S [of q "manager s"] by simp
  show "consistent (resumeDoRefresh f i r s)"
    by (simp add: resumeDoRefresh_def 0 S split: sum.splits option.splits)
  show "consistent (endpointSettled f i reply now s)"
    by (simp add: endpointSettled_def 0 S split: sum.splits prod.splits)
  show "consistent (reloadSettled f i tok ex lr now now' s)"
    by (simp add: reloadSettled_def 0 S Let_def split: sum.splits option.splits)
  show "consistent (saveSettled f i tok ex st' sr s)"
    by (simp add: saveSettled_def 0 S split: option.splits)
  show "consistent (cacheRefreshed f i tok ex s)"
    by (simp add: cacheRefreshed_def S)
qed

lemma consistent_invocation_step:
  assumes c: "consistent s" and f: "refreshes s c = None"
  shows "consistent (invokeGetAccessToken c i now s)"
    and "consistent (resumeGetAccessToken c i r now s)"
    and "consistent (case loadedGetAccount i lr (manager s) of
                       (aw, tm) \<Rightarrow> setPhase c i (InGetAccount aw) (s\<lparr>manager := tm\<rparr>))"
proof -
  note P = consistent_setPhase [OF c f]
  have 0: "consistent (setPhase c i q s)" if "\<forall>g. q \<noteq> InRefresh g" for q
    using P [OF that, of i "manager s"] by simp
  show "consistent (invokeGetAccessToken c i now s)"
    by (simp add: invokeGetAccessToken_def 0 P split: option.splits prod.splits)
  show "consistent (resumeGetAccessToken c i r now s)"
    by (simp add: resumeGetAccessToken_def 0 P consistent_enterRefreshToken [OF c f]
        split: sum.splits option.splits prod.splits)
  show "consistent (case loadedGetAccount i lr (manager s) of
                       (aw, tm) \<Rightarrow> setPhase c i (InGetAccount aw) (s\<lparr>manager := tm\<rparr>))"
    by (simp add: P split: prod.splits)
qed

lemma consistent_deliver:
  assumes c: "consistent s"
  shows "consistent (deliver e s)"
proof (cases e)
  case (Invoke k m i now)
  show ?thesis
  proof (cases "invocations s k")
    case None
    from consistentD(7) [OF c None] have f: "refreshes s k = None" .
    from None Invoke consistent_invocation_step(1) [OF c f] consistent_enterRefreshToken [OF c f]
    show ?thesis by (cases m) simp_all
  next
    case (Some v)
    with Invoke c show ?thesis by simp
  qed
next
  case (LoadSettles t lr now now')
  show ?thesis
  proof (cases t)
    case (Invocation k)
    show ?thesis
    proof (cases "invocations s k")
      case None
      with LoadSettles Invocation c show ?thesis by simp
    next
      case (Some v)
      show ?thesis
      proof (cases "phase v = InGetAccount Loading")
        case True
        from consistentD(4) [OF c Some True] have f: "refreshes s k = None" .
        from consistent_invocation_step(3) [OF c f] LoadSettles Invocation Some True
        show ?thesis by simp
      next
        case False
        with LoadSettles Invocation Some c show ?thesis
          by (simp split: invocationPhase.splits awaited.splits)
      qed
    qed
  next
    case (Refresh f)
    show ?thesis
    proof (cases "refreshes s f")
      case None
      with LoadSettles Refresh c show ?thesis by simp
    next
      case (Some ip)
      obtain i p where ip: "ip = (i, p)" by (cases ip)
      show ?thesis
      proof (cases "settledRefresh p")
        case True
        with LoadSettles Refresh Some ip c show ?thesis
          by (simp add: settledRefresh_def split: refreshPhase.splits)
      next
        case False
        note R = consistent_refresh_step [OF c Some [unfolded ip] False]
        from LoadSettles Refresh Some ip c R show ?thesis
          by (simp split: refreshPhase.splits awaited.splits prod.splits)
      qed
    qed
  qed
next
  case (Resume t now)
  show ?thesis
  proof (cases t)
    case (Invocation k)
    show ?thesis
    proof (cases "invocations s k")
      case None
      with Resume Invocation c show ?thesis by simp
    next
      case (Some v)
      show ?thesis
      proof (cases "phase v")
        case (InGetAccount aw)
        from consistentD(4) [OF c Some InGetAccount] have f: "refreshes s k = None" .
        from consistent_invocation_step(2) [OF c f] Resume Invocation Some InGetAccount c
        show ?thesis by (simp split: awaited.splits)
      next
        case (InRefresh f)
        have v: "v = \<lparr>forAccount = forAccount v, phase = InRefresh f\<rparr>"
          using InRefresh by (cases v) simp
        from Some v have w: "invocations s k = Some \<lparr>forAccount = forAccount v, phase = InRefresh f\<rparr>"
          by simp
        have "consistent (resumeRefreshToken k (forAccount v) f s)"
        proof (cases "refreshes s f")
          case None
          with c show ?thesis by (simp add: resumeRefreshToken_def)
        next
          case (Some jp)
          obtain j p where jp: "jp = (j, p)" by (cases jp)
          show ?thesis
          proof (cases p)
            case (RSettled r)
            from consistent_leave [OF c w Some [unfolded jp RSettled]] Some jp RSettled
            show ?thesis by (simp add: resumeRefreshToken_def)
          qed (use Some jp c in \<open>simp_all add: resumeRefreshToken_def\<close>)
        qed
        with Resume Invocation Some InRefresh show ?thesis by simp
      next
        case (Settled r)
        with Resume Invocation Some c show ?thesis by simp
      qed
    qed
  next
    case (Refresh f)
    show ?thesis
    proof (cases "refreshes s f")
      case None
      with Resume Refresh c show ?thesis by simp
    next
      case (Some ip)
      obtain i p where ip: "ip = (i, p)" by (cases ip)
      show ?thesis
      proof (cases "settledRefresh p")
        case True
        with Resume Refresh Some ip c show ?thesis
          by (simp add: settledRefresh_def split: refreshPhase.splits)
      next
        case False
        note R = consistent_refresh_step [OF c Some [unfolded ip] False]
        from Resume Refresh Some ip c R show ?thesis
          by (simp split: refreshPhase.splits awaited.splits)
      qed
    qed
  qed
next
  case (EndpointSettles f reply now)
  show ?thesis
  proof (cases "refreshes s f")
    case None
    with EndpointSettles c show ?thesis by simp
  next
    case (Some ip)
    obtain i p where ip: "ip = (i, p)" by (cases ip)
    show ?thesis
    proof (cases "settledRefresh p")
      case True
      with EndpointSettles Some ip c show ?thesis
        by (simp add: settledRefresh_def split: refreshPhase.splits)
    next
      case False
      note R = consistent_refresh_step [OF c Some [unfolded ip] False]
      from EndpointSettles Some ip c R show ?thesis
        by (simp split: refreshPhase.splits)
    qed
  qed
next
  case (SaveSettles f sr)
  show ?thesis
  proof (cases "refreshes s f")
    case None
    with SaveSettles c show ?thesis by simp
  next
    case (Some ip)
    obtain i p where ip: "ip = (i, p)" by (cases ip)
    show ?thesis
    proof (cases "settledRefresh p")
      case True
      with SaveSettles Some ip c show ?thesis
        by (simp add: settledRefresh_def split: refreshPhase.splits)
    next
      case False
      note R = consistent_refresh_step [OF c Some [unfolded ip] False]
      from SaveSettles Some ip c R show ?thesis
        by (simp split: refreshPhase.splits)
    qed
  qed
qed

lemma consistent_deliverAll: "consistent s \<Longrightarrow> consistent (deliverAll es s)"
  by (induction es arbitrary: s) (simp_all add: consistent_deliver)

lemma setPhase_frame:
  "refreshes (setPhase c i p s) = refreshes s"
  "k \<noteq> c \<Longrightarrow> invocations (setPhase c i p s) k = invocations s k"
  "invocations (setPhase c i p s) c = Some \<lparr>forAccount = i, phase = p\<rparr>"
  by (simp_all add: setPhase_def)

lemma setRefresh_frame:
  "invocations (setRefresh f i p s) = invocations s"
  "g \<noteq> f \<Longrightarrow> refreshes (setRefresh f i p s) g = refreshes s g"
  by (simp_all add: setRefresh_def)

lemma enterRefreshToken_frame:
  "k \<noteq> c \<Longrightarrow> invocations (enterRefreshToken c i s) k = invocations s k"
  "g \<noteq> c \<Longrightarrow> refreshes (enterRefreshToken c i s) g = refreshes s g"
  by (simp_all add: enterRefreshToken_def setPhase_def setRefresh_def
      split: option.splits prod.splits)

lemma invocation_step_frame:
  "k \<noteq> c \<Longrightarrow> invocations (invokeGetAccessToken c i now s) k = invocations s k"
  "refreshes (invokeGetAccessToken c i now s) = refreshes s"
  "k \<noteq> c \<Longrightarrow> invocations (resumeGetAccessToken c i r now s) k = invocations s k"
  "g \<noteq> c \<Longrightarrow> refreshes (resumeGetAccessToken c i r now s) g = refreshes s g"
  "k \<noteq> c \<Longrightarrow> invocations (resumeRefreshToken c i f s) k = invocations s k"
  "refreshes (resumeRefreshToken c i f s) = refreshes s"
  by (simp_all add: invokeGetAccessToken_def resumeGetAccessToken_def resumeRefreshToken_def
      enterRefreshToken_frame setPhase_def
      split: option.splits prod.splits sum.splits refreshPhase.splits)

lemma refresh_step_frame:
  "invocations (resumeDoRefresh f i r s) = invocations s"
  "invocations (endpointSettled f i reply now s) = invocations s"
  "invocations (reloadSettled f i tok ex lr now now' s) = invocations s"
  "invocations (saveSettled f i tok ex st' sr s) = invocations s"
  "invocations (cacheRefreshed f i tok ex s) = invocations s"
  "g \<noteq> f \<Longrightarrow> refreshes (resumeDoRefresh f i r s) g = refreshes s g"
  "g \<noteq> f \<Longrightarrow> refreshes (endpointSettled f i reply now s) g = refreshes s g"
  "g \<noteq> f \<Longrightarrow> refreshes (reloadSettled f i tok ex lr now now' s) g = refreshes s g"
  "g \<noteq> f \<Longrightarrow> refreshes (saveSettled f i tok ex st' sr s) g = refreshes s g"
  "g \<noteq> f \<Longrightarrow> refreshes (cacheRefreshed f i tok ex s) g = refreshes s g"
  by (simp_all add: resumeDoRefresh_def endpointSettled_def reloadSettled_def saveSettled_def
      cacheRefreshed_def setRefresh_def Let_def
      split: option.splits prod.splits sum.splits)

lemmas frames = setPhase_frame setRefresh_frame enterRefreshToken_frame invocation_step_frame
  refresh_step_frame

lemma settled_refresh_stays:
  assumes c: "consistent s" and f: "refreshes s f = Some (i, RSettled r)"
  shows "refreshes (deliver e s) f = Some (i, RSettled r)"
proof (cases e)
  case (Invoke k m j now)
  show ?thesis
  proof (cases "invocations s k")
    case None
    from consistentD(7) [OF c None] f have "f \<noteq> k" by auto
    with None Invoke f show ?thesis by (cases m) (simp_all add: frames)
  next
    case (Some v)
    with Invoke f show ?thesis by simp
  qed
next
  case (LoadSettles t lr now now')
  show ?thesis
  proof (cases t)
    case (Invocation k)
    with LoadSettles f show ?thesis
      by (simp add: frames split: option.splits invocationPhase.splits awaited.splits prod.splits)
  next
    case (Refresh g)
    with LoadSettles f show ?thesis
      by (cases "g = f")
        (simp_all add: frames split: option.splits refreshPhase.splits awaited.splits prod.splits)
  qed
next
  case (Resume t now)
  show ?thesis
  proof (cases t)
    case (Invocation k)
    show ?thesis
    proof (cases "invocations s k")
      case None
      with Resume Invocation f show ?thesis by simp
    next
      case (Some v)
      show ?thesis
      proof (cases "phase v")
        case (InGetAccount aw)
        from consistentD(4) [OF c Some InGetAccount] f have "f \<noteq> k" by auto
        with Resume Invocation Some InGetAccount f show ?thesis
          by (simp add: frames split: awaited.splits)
      next
        case (InRefresh g)
        with Resume Invocation Some f show ?thesis by (simp add: frames)
      next
        case (Settled r')
        with Resume Invocation Some f show ?thesis by simp
      qed
    qed
  next
    case (Refresh g)
    with Resume f show ?thesis
      by (cases "g = f")
        (simp_all add: frames split: option.splits refreshPhase.splits awaited.splits prod.splits)
  qed
next
  case (EndpointSettles g reply now)
  with f show ?thesis
    by (cases "g = f") (simp_all add: frames split: option.splits refreshPhase.splits prod.splits)
next
  case (SaveSettles g sr)
  with f show ?thesis
    by (cases "g = f") (simp_all add: frames split: option.splits refreshPhase.splits prod.splits)
qed

lemma settled_invocation_stays:
  assumes v: "invocations s c = Some v" "phase v = Settled r"
  shows "invocations (deliver e s) c = Some v"
proof (cases e)
  case (Invoke k m j now)
  with v show ?thesis
    by (cases "k = c"; cases m) (simp_all add: frames split: option.splits)
next
  case (LoadSettles t lr now now')
  show ?thesis
  proof (cases t)
    case (Invocation k)
    with LoadSettles v show ?thesis
      by (cases "k = c")
        (simp_all add: frames split: option.splits invocationPhase.splits awaited.splits prod.splits)
  next
    case (Refresh g)
    with LoadSettles v show ?thesis
      by (simp add: frames split: option.splits refreshPhase.splits awaited.splits prod.splits)
  qed
next
  case (Resume t now)
  show ?thesis
  proof (cases t)
    case (Invocation k)
    with Resume v show ?thesis
      by (cases "k = c")
        (simp_all add: frames split: option.splits invocationPhase.splits awaited.splits)
  next
    case (Refresh g)
    with Resume v show ?thesis
      by (simp add: frames split: option.splits refreshPhase.splits awaited.splits prod.splits)
  qed
next
  case (EndpointSettles g reply now)
  with v show ?thesis by (simp add: frames split: option.splits refreshPhase.splits prod.splits)
next
  case (SaveSettles g sr)
  with v show ?thesis by (simp add: frames split: option.splits refreshPhase.splits prod.splits)
qed

lemma waiting_invocation_step:
  assumes v: "invocations s c = Some \<lparr>forAccount = i, phase = InRefresh f\<rparr>"
  shows "invocations (deliver e s) c = Some \<lparr>forAccount = i, phase = InRefresh f\<rparr>
       \<or> (\<exists>j r. refreshes s f = Some (j, RSettled r)
              \<and> invocations (deliver e s) c = Some \<lparr>forAccount = i, phase = Settled r\<rparr>)"
proof (cases e)
  case (Invoke k m j now)
  with v show ?thesis
    by (cases "k = c"; cases m) (simp_all add: frames split: option.splits)
next
  case (LoadSettles t lr now now')
  show ?thesis
  proof (cases t)
    case (Invocation k)
    with LoadSettles v show ?thesis
      by (cases "k = c")
        (simp_all add: frames split: option.splits invocationPhase.splits awaited.splits prod.splits)
  next
    case (Refresh g)
    with LoadSettles v show ?thesis
      by (simp add: frames split: option.splits refreshPhase.splits awaited.splits prod.splits)
  qed
next
  case (Resume t now)
  show ?thesis
  proof (cases t)
    case (Invocation k)
    show ?thesis
    proof (cases "k = c")
      case True
      with Resume Invocation v show ?thesis
        by (auto simp: resumeRefreshToken_def setPhase_def split: option.splits refreshPhase.splits)
    next
      case False
      with Resume Invocation v show ?thesis
        by (simp add: frames split: option.splits invocationPhase.splits awaited.splits)
    qed
  next
    case (Refresh g)
    with Resume v show ?thesis
      by (simp add: frames split: option.splits refreshPhase.splits awaited.splits prod.splits)
  qed
next
  case (EndpointSettles g reply now)
  with v show ?thesis by (simp add: frames split: option.splits refreshPhase.splits prod.splits)
next
  case (SaveSettles g sr)
  with v show ?thesis by (simp add: frames split: option.splits refreshPhase.splits prod.splits)
qed

lemma settled_with_refresh_stays:
  assumes "consistent s" "refreshes s f = Some (j, RSettled r)"
    "invocations s c = Some \<lparr>forAccount = i, phase = Settled r\<rparr>"
  shows "refreshes (deliverAll es s) f = Some (j, RSettled r)
       \<and> invocations (deliverAll es s) c = Some \<lparr>forAccount = i, phase = Settled r\<rparr>"
  using assms
proof (induction es arbitrary: s)
  case Nil
  then show ?case by simp
next
  case (Cons e es)
  from Cons.prems show ?case
    by (simp add: Cons.IH consistent_deliver settled_refresh_stays settled_invocation_stays)
qed

lemma awaited_result:
  assumes "consistent s" "invocations s c = Some \<lparr>forAccount = i, phase = InRefresh f\<rparr>"
    "resultOf (deliverAll es s) c = Some r"
  shows "\<exists>j. refreshes (deliverAll es s) f = Some (j, RSettled r)"
  using assms
proof (induction es arbitrary: s)
  case Nil
  then show ?case by (simp add: resultOf_def)
next
  case (Cons e es)
  from waiting_invocation_step [OF Cons.prems(2), of e]
  show ?case
  proof
    assume "invocations (deliver e s) c = Some \<lparr>forAccount = i, phase = InRefresh f\<rparr>"
    from Cons.IH [OF consistent_deliver [OF Cons.prems(1)] this] Cons.prems(3)
    show ?thesis by simp
  next
    assume "\<exists>j r'. refreshes s f = Some (j, RSettled r')
              \<and> invocations (deliver e s) c = Some \<lparr>forAccount = i, phase = Settled r'\<rparr>"
    then obtain j r' where a: "refreshes s f = Some (j, RSettled r')"
        "invocations (deliver e s) c = Some \<lparr>forAccount = i, phase = Settled r'\<rparr>" by blast
    from settled_refresh_stays [OF Cons.prems(1) a(1), of e]
    have b: "refreshes (deliver e s) f = Some (j, RSettled r')" .
    from settled_with_refresh_stays [OF consistent_deliver [OF Cons.prems(1)] b a(2), of es]
    have "refreshes (deliverAll es (deliver e s)) f = Some (j, RSettled r')"
      "invocations (deliverAll es (deliver e s)) c = Some \<lparr>forAccount = i, phase = Settled r'\<rparr>"
      by simp_all
    with Cons.prems(3) show ?thesis by (auto simp: resultOf_def)
  qed
qed

lemma endpointCallsOf_append [simp]:
  "endpointCallsOf (xs @ ys) = endpointCallsOf xs @ endpointCallsOf ys"
  by (induction xs rule: endpointCallsOf.induct) simp_all

lemma endpoint_calls_enter:
  "endpointCallsOf (calls (manager (enterRefreshToken c i s))) = endpointCallsOf (calls (manager s))"
  by (simp add: enterRefreshToken_def setPhase_def setRefresh_def startGetAccount_def logCall_def
      split: option.splits prod.splits)

lemma endpoint_calls_deliver:
  "endpointCallsOf (calls (manager (deliver e s)))
     = endpointCallsOf (calls (manager s)) @ requestOf e s"
proof (cases e)
  case (Invoke k m j now)
  then show ?thesis
    by (cases m)
      (simp_all add: requestOf_def invokeGetAccessToken_def endpoint_calls_enter setPhase_def
        startGetAccount_def logCall_def split: option.splits prod.splits)
next
  case (LoadSettles t lr now now')
  then show ?thesis
    by (cases t)
      (simp_all add: requestOf_def loadedGetAccount_def reloadSettled_def setPhase_def
        setRefresh_def logCall_def Let_def
        split: option.splits invocationPhase.splits refreshPhase.splits awaited.splits
          prod.splits sum.splits)
next
  case (Resume t now)
  show ?thesis
  proof (cases t)
    case (Invocation k)
    with Resume show ?thesis
      by (simp add: requestOf_def resumeGetAccessToken_def resumeRefreshToken_def
          endpoint_calls_enter setPhase_def cacheToken_def
          split: option.splits invocationPhase.splits refreshPhase.splits awaited.splits
            prod.splits sum.splits)
  next
    case (Refresh f)
    with Resume show ?thesis
      by (simp add: requestOf_def resumeDoRefresh_def cacheRefreshed_def setRefresh_def
          logCall_def cacheToken_def
          split: option.splits refreshPhase.splits awaited.splits prod.splits sum.splits)
  qed
next
  case (EndpointSettles f reply now)
  then show ?thesis
    by (simp add: requestOf_def endpointSettled_def setRefresh_def logCall_def
        split: option.splits refreshPhase.splits prod.splits sum.splits)
next
  case (SaveSettles f sr)
  then show ?thesis
    by (simp add: requestOf_def saveSettled_def setRefresh_def
        split: option.splits refreshPhase.splits prod.splits)
qed

text \<open>
  For every run from an idle token manager: at most one \<^verbatim>\<open>doRefresh\<close> is pending for an
  account id; an invocation that enters \<^verbatim>\<open>refreshToken\<close> while a promise is registered
  for its id only takes that promise; an invocation that waits for a \<^verbatim>\<open>doRefresh\<close>
  settles with the result of that \<^verbatim>\<open>doRefresh\<close>; a request reaches the token endpoint
  only when a \<^verbatim>\<open>doRefresh\<close> goes on after \<^verbatim>\<open>getAccount\<close>; and an invocation that enters
  \<^verbatim>\<open>refreshToken\<close> with no promise registered for its id starts a \<^verbatim>\<open>doRefresh\<close> and
  registers it, whatever is registered for other ids.
\<close>

lemma single_flight_mechanism:
  "(pendingRefresh (deliverAll es (idle tm)) i f \<and> pendingRefresh (deliverAll es (idle tm)) i f'
      \<longrightarrow> f = f')
   \<and> (map_of (refreshPromises s) i = Some f \<longrightarrow>
        enterRefreshToken c i s = setPhase c i (InRefresh f) s)
   \<and> (invocations (deliverAll es (idle tm)) c = Some \<lparr>forAccount = i, phase = InRefresh f\<rparr>
        \<and> resultOf (deliverAll es' (deliverAll es (idle tm))) c = Some r \<longrightarrow>
        (\<exists>j. refreshes (deliverAll es' (deliverAll es (idle tm))) f = Some (j, RSettled r)))
   \<and> endpointCallsOf (calls (manager (deliver e s)))
       = endpointCallsOf (calls (manager s)) @ requestOf e s
   \<and> (map_of (refreshPromises s) i = None \<longrightarrow>
        (\<exists>aw. refreshes (enterRefreshToken c i s) c = Some (i, RGetAccount aw))
      \<and> map_of (refreshPromises (enterRefreshToken c i s))
          = (map_of (refreshPromises s))(i \<mapsto> c))"
proof (intro conjI impI)
  note c = consistent_deliverAll [OF consistent_idle, of es tm]
  assume a: "pendingRefresh (deliverAll es (idle tm)) i f \<and> pendingRefresh (deliverAll es (idle tm)) i f'"
  from consistentD(1) [OF c, of i f] consistentD(1) [OF c, of i f'] a
  show "f = f'" by simp
next
  assume "map_of (refreshPromises s) i = Some f"
  then show "enterRefreshToken c i s = setPhase c i (InRefresh f) s"
    by (simp add: enterRefreshToken_def)
next
  note c = consistent_deliverAll [OF consistent_idle, of es tm]
  assume "invocations (deliverAll es (idle tm)) c = Some \<lparr>forAccount = i, phase = InRefresh f\<rparr>
        \<and> resultOf (deliverAll es' (deliverAll es (idle tm))) c = Some r"
  with awaited_result [OF c]
  show "\<exists>j. refreshes (deliverAll es' (deliverAll es (idle tm))) f = Some (j, RSettled r)"
    by blast
next
  show "endpointCallsOf (calls (manager (deliver e s)))
       = endpointCallsOf (calls (manager s)) @ requestOf e s"
    by (rule endpoint_calls_deliver)
next
  assume n: "map_of (refreshPromises s) i = None"
  then show "\<exists>aw. refreshes (enterRefreshToken c i s) c = Some (i, RGetAccount aw)"
    by (simp add: enterRefreshToken_def setPhase_def setRefresh_def split: prod.splits)
  from n show "map_of (refreshPromises (enterRefreshToken c i s))
          = (map_of (refreshPromises s))(i \<mapsto> c)"
    by (simp add: enterRefreshToken_def setPhase_def setRefresh_def update_conv' split: prod.splits)
qed



lemmas inFlight_defs =
  idle_def newTokenManager_def invokeGetAccessToken_def validCachedToken_def validStoredToken_def
  startGetAccount_def loadedGetAccount_def setPhase_def setRefresh_def enterRefreshToken_def
  resumeGetAccessToken_def resumeRefreshToken_def resumeDoRefresh_def actualRefreshToken_def
  replyResult_def endpointSettled_def reloadSettled_def saveSettled_def cacheRefreshed_def
  logCall_def cacheToken_def wrapRefreshError_def isExpired_def TOKEN_EXPIRY_BUFFER_MS_def
  coldStorage_def storageOf_def storedAcct_def acct_def refreshSteps_def resultOf_def Let_def

text \<open>
  C1. Two invocations of \<^verbatim>\<open>getAccessToken\<close> for one account, made in the same turn while no
  unexpired token is cached or stored. When both loads of the storage settle before the
  first invocation goes on, the second finds the entry of the first in
  \<^verbatim>\<open>refreshPromises\<close>: one request reaches the token endpoint and both receive its token.
  When the load of the second settles after the refresh of the first has ended, the
  second goes on with the account as it had been stored, finds no entry, and starts a
  refresh of its own: two requests reach the token endpoint and the two callers receive
  different tokens; and when the first refresh had failed, the first caller receives the
  error and the second a token.
\<close>

theorem single_flight_missed_by_late_load:
  "validCachedToken 0 ''a1'' newTokenManager = None
   \<and> map (validStoredToken 0) (storedAccounts coldStorage) = [None]
   \<and> resultOf (deliverAll bothLoadedFirst (idle newTokenManager)) 1 = Some (Inr ''token-1'')
   \<and> resultOf (deliverAll bothLoadedFirst (idle newTokenManager)) 2 = Some (Inr ''token-1'')
   \<and> endpointCallsOf (calls (manager (deliverAll bothLoadedFirst (idle newTokenManager))))
       = [''refresh-a1'']
   \<and> resultOf (deliverAll secondLoadedLate (idle newTokenManager)) 1 = Some (Inr ''token-1'')
   \<and> resultOf (deliverAll secondLoadedLate (idle newTokenManager)) 2 = Some (Inr ''token-2'')
   \<and> endpointCallsOf (calls (manager (deliverAll secondLoadedLate (idle newTokenManager))))
       = [''refresh-a1'', ''refresh-a1'']
   \<and> resultOf (deliverAll firstRefreshFails (idle newTokenManager)) 1
       = Some (Inl (AuthenticationError ''Token refresh failed: Network error''))
   \<and> resultOf (deliverAll firstRefreshFails (idle newTokenManager)) 2 = Some (Inr ''token-2'')
   \<and> endpointCallsOf (calls (manager (deliverAll firstRefreshFails (idle newTokenManager))))
       = [''refresh-a1'', ''refresh-a1'']"
  by (simp add: bothLoadedFirst_def secondLoadedLate_def firstRefreshFails_def inFlight_defs)

end
